(* ===== verification/Prelude.thy ===== *)
theory Prelude
  imports Main "HOL-Library.Word"
begin

text \<open>
  Shared vocabulary of the development: the machine types of the C sources, the reading of
  undefined behaviour as \<open>None\<close>, C strings, and the generic list and option lemmas the
  component theories rely on.
\<close>

unbundle bit_operations_syntax

section \<open>Collections\<close>

named_theorems c_defs \<open>definitions a component unfolds together\<close>
named_theorems table_simps \<open>facts about linked tables\<close>
named_theorems ts_simps \<open>facts about timespec arithmetic\<close>

section \<open>Machine types\<close>

type_synonym u8 = "8 word"
type_synonym u16 = "16 word"
type_synonym u32 = "32 word"
type_synonym bytes = "u8 list"

text \<open>
  The result of C code that may run into undefined behaviour (a NULL or dangling pointer is
  dereferenced, a buffer is written past its end) or not return: \<open>None\<close> stands for that,
  \<open>Some\<close> for a normal return.
\<close>

type_synonym 'a cres = "'a option"

text \<open>The value a big-endian (network order) pair of bytes denotes, and its inverse.\<close>

definition be16 :: "u8 \<Rightarrow> u8 \<Rightarrow> u16" where
  "be16 hi lo = push_bit 8 (ucast hi) OR ucast lo"

definition hi8 :: "u16 \<Rightarrow> u8" where
  "hi8 w = ucast (drop_bit 8 w)"

definition lo8 :: "u16 \<Rightarrow> u8" where
  "lo8 w = ucast w"

lemma be16_hi_lo: "be16 (hi8 w) (lo8 w) = w"
  unfolding be16_def hi8_def lo8_def
  by (rule bit_word_eqI) (auto simp: bit_simps)

section \<open>C strings\<close>

text \<open>
  A C string is the list of characters before the terminating NUL; \<open>cstr\<close> reads it off the
  contents of a buffer.
\<close>

definition cstr :: "char list \<Rightarrow> string" where
  "cstr b = takeWhile (\<lambda>c. c \<noteq> CHR 0x00) b"

lemma cstr_no_nul [simp]: "CHR 0x00 \<notin> set (cstr b)"
  by (auto simp: cstr_def dest: set_takeWhileD)

lemma cstr_id: "CHR 0x00 \<notin> set s \<Longrightarrow> cstr s = s"
  by (simp add: cstr_def takeWhile_eq_all_conv) (metis)

lemma length_cstr_le: "length (cstr b) \<le> length b"
  by (simp add: cstr_def length_takeWhile_le)

section \<open>Options and lists\<close>

lemma bind_eq_SomeE:
  assumes "Option.bind x f = Some y"
  obtains a where "x = Some a" and "f a = Some y"
  using assms by (cases x) auto

lemma filter_neq_id: "x \<notin> set xs \<Longrightarrow> filter (\<lambda>y. y \<noteq> x) xs = xs"
  by (induction xs) auto

lemma last_Cons_append: "ys \<noteq> [] \<Longrightarrow> last (x # xs @ ys) = last ys"
  by simp

section \<open>Masks and shifts\<close>

lemma drop_bit_and_not_mask: "drop_bit n (a AND NOT (mask n)) = drop_bit n (a :: 'a::len word)"
  by (rule bit_word_eqI) (auto simp: bit_simps dest: bit_imp_le_length)

lemma and_not_mask_push_drop: "a AND NOT (mask n) = push_bit n (drop_bit n (a :: 'a::len word))"
  by (rule bit_word_eqI) (auto simp: bit_simps dest: bit_imp_le_length)

lemma prefix_cmp:
  fixes a :: "'a::len word"
  assumes "m = NOT (mask n)" "b = push_bit n c" "drop_bit n b = c"
  shows "a AND m = b \<longleftrightarrow> drop_bit n a = c"
  using drop_bit_and_not_mask [of n a] and_not_mask_push_drop [of a n] unfolding assms(1)
  by (metis assms(2,3))

lemma and_255 [simp]: "(a :: u8) AND 255 = a"
proof -
  have "(255 :: u8) = -1" by simp
  show ?thesis unfolding \<open>255 = -1\<close> by (rule and.right_neutral)
qed

lemma unat_u8_less: "unat (b :: u8) < 256"
  using unsigned_less [of b] by simp

lemma unat_u16_less: "unat (b :: u16) < 65536"
  using unsigned_less [of b] by simp

lemma unat_ucast_u8_u32 [simp]: "unat (ucast (b :: u8) :: u32) = unat b"
  using unat_u8_less [of b] by (simp add: unsigned_ucast_eq take_bit_nat_eq_self)

end
