(* ===== verification/Headed_List.thy ===== *)
theory Headed_List
  imports Prelude
begin

text \<open>
  The linked list with a head node and a tail pointer that \<open>conmgr.c\<close> (the connection
  table) and \<open>netmgr.c\<close> (the link table) both keep. The list is modelled at the level of
  pointers: a store from addresses to nodes, the two global pointers, and the source's loops
  over them. The invariant \<open>hl_abs\<close> relates such a store to the list of payloads it holds.
\<close>

section \<open>The store and the loops\<close>

text \<open>Address 0 is \<open>NULL\<close>; a node is its payload and its \<open>next\<close> pointer.\<close>

record 'a hlist =
  hl_mem :: "nat \<Rightarrow> ('a \<times> nat) option"
  hl_head :: nat
  hl_tail :: nat

text \<open>
  Allocation of the head node. The pointer \<open>p\<close> is what \<open>malloc\<close> returns; the code calls
  \<open>memset\<close> on it before it checks it for \<open>NULL\<close>.
\<close>

definition hl_init :: "'a \<Rightarrow> nat \<Rightarrow> 'a hlist \<Rightarrow> 'a hlist cres" where
  "hl_init zero p s =
     (if hl_head s \<noteq> 0 then Some s
      else if p = 0 then None
      else Some (s\<lparr>hl_mem := (hl_mem s)(p \<mapsto> (zero, 0)), hl_head := p, hl_tail := p\<rparr>))"

text \<open>Appending an allocated node \<open>p\<close>: \<open>tail->next = p; tail = p\<close>.\<close>

definition hl_append :: "nat \<Rightarrow> 'a \<Rightarrow> 'a hlist \<Rightarrow> 'a hlist cres" where
  "hl_append p v s =
     (let m = (hl_mem s)(p \<mapsto> (v, 0))
      in case m (hl_tail s) of
           None \<Rightarrow> None
         | Some (tv, _) \<Rightarrow> Some (s\<lparr>hl_mem := m(hl_tail s \<mapsto> (tv, p)), hl_tail := p\<rparr>))"

text \<open>The removal loop with its predecessor pointer.\<close>

partial_function (option) hl_remove_loop ::
  "('a \<Rightarrow> bool) \<Rightarrow> nat \<Rightarrow> nat \<Rightarrow> 'a hlist \<Rightarrow> 'a hlist cres" where
  "hl_remove_loop P prv cur s =
     (if cur = 0 then Some s
      else case hl_mem s cur of
        None \<Rightarrow> None
      | Some (c, nxt) \<Rightarrow>
          if P c then
            (case hl_mem s prv of
               None \<Rightarrow> None
             | Some (pc, _) \<Rightarrow>
                 (let s1 = s\<lparr>hl_mem := (hl_mem s)(prv \<mapsto> (pc, nxt), cur := None)\<rparr>
                  in if nxt = 0 then Some (s1\<lparr>hl_tail := prv\<rparr>)
                     else hl_remove_loop P prv nxt s1))
          else hl_remove_loop P cur nxt s)"

definition hl_remove :: "('a \<Rightarrow> bool) \<Rightarrow> 'a hlist \<Rightarrow> 'a hlist cres" where
  "hl_remove P s =
     (case hl_mem s (hl_head s) of
        None \<Rightarrow> None
      | Some (_, nxt) \<Rightarrow> hl_remove_loop P (hl_head s) nxt s)"

text \<open>Freeing the whole table: the nodes after the head first, the head last.\<close>

partial_function (option) hl_free_loop :: "'a hlist \<Rightarrow> 'a hlist cres" where
  "hl_free_loop s =
     (case hl_mem s (hl_head s) of
        None \<Rightarrow> None
      | Some (hv, nxt) \<Rightarrow>
          if nxt = 0 then
            Some (s\<lparr>hl_mem := (hl_mem s)(hl_head s := None), hl_head := 0, hl_tail := 0\<rparr>)
          else case hl_mem s nxt of
            None \<Rightarrow> None
          | Some (_, nn) \<Rightarrow>
              hl_free_loop (s\<lparr>hl_mem := (hl_mem s)(hl_head s \<mapsto> (hv, nn), nxt := None)\<rparr>))"

definition hl_free :: "'a hlist \<Rightarrow> 'a hlist cres" where
  "hl_free s = (if hl_head s = 0 then Some s else hl_free_loop s)"

text \<open>A search from a node on, as \<open>netmgr_link_up\<close> does it.\<close>

partial_function (option) hl_find_loop :: "('a \<Rightarrow> bool) \<Rightarrow> nat \<Rightarrow> 'a hlist \<Rightarrow> nat cres" where
  "hl_find_loop P cur s =
     (if cur = 0 then Some 0
      else case hl_mem s cur of
        None \<Rightarrow> None
      | Some (c, nxt) \<Rightarrow> if P c then Some cur else hl_find_loop P nxt s)"

definition hl_find :: "('a \<Rightarrow> bool) \<Rightarrow> 'a hlist \<Rightarrow> nat cres" where
  "hl_find P s =
     (case hl_mem s (hl_head s) of
        None \<Rightarrow> None
      | Some (_, nxt) \<Rightarrow> hl_find_loop P nxt s)"

text \<open>
  A traversal that calls \<open>f\<close> on each node's payload and stores what it leaves there, threading
  the rest of the program's state (\<open>evaluate_all\<close> and the printing loops have this shape).
\<close>

partial_function (option) hl_each_loop ::
  "('a \<Rightarrow> 't \<Rightarrow> ('a \<times> 't) cres) \<Rightarrow> nat \<Rightarrow> 'a hlist \<Rightarrow> 't \<Rightarrow> ('a hlist \<times> 't) cres" where
  "hl_each_loop f cur s t =
     (if cur = 0 then Some (s, t)
      else case hl_mem s cur of
        None \<Rightarrow> None
      | Some (c, nxt) \<Rightarrow>
          (case f c t of
             None \<Rightarrow> None
           | Some (c', t') \<Rightarrow>
               hl_each_loop f nxt (s\<lparr>hl_mem := (hl_mem s)(cur \<mapsto> (c', nxt))\<rparr>) t'))"

definition hl_each ::
  "('a \<Rightarrow> 't \<Rightarrow> ('a \<times> 't) cres) \<Rightarrow> 'a hlist \<Rightarrow> 't \<Rightarrow> ('a hlist \<times> 't) cres" where
  "hl_each f s t =
     (case hl_mem s (hl_head s) of
        None \<Rightarrow> None
      | Some (_, nxt) \<Rightarrow> hl_each_loop f nxt s t)"

text \<open>The same traversal on a plain list.\<close>

fun list_each :: "('a \<Rightarrow> 't \<Rightarrow> ('a \<times> 't) cres) \<Rightarrow> 'a list \<Rightarrow> 't \<Rightarrow> ('a list \<times> 't) cres" where
  "list_each f [] t = Some ([], t)"
| "list_each f (x # xs) t =
     (case f x t of
        None \<Rightarrow> None
      | Some (x', t') \<Rightarrow>
          (case list_each f xs t' of
             None \<Rightarrow> None
           | Some (xs', t'') \<Rightarrow> Some (x' # xs', t'')))"

section \<open>Well-formed stores\<close>

fun lpath :: "(nat \<Rightarrow> ('a \<times> nat) option) \<Rightarrow> nat \<Rightarrow> nat list \<Rightarrow> nat \<Rightarrow> bool" where
  "lpath m p [] q = (p = q)"
| "lpath m p (a # as) q = (p = a \<and> a \<noteq> 0 \<and> (\<exists>v n. m a = Some (v, n) \<and> lpath m n as q))"

definition payload :: "(nat \<Rightarrow> ('a \<times> nat) option) \<Rightarrow> nat \<Rightarrow> 'a" where
  "payload m a = fst (the (m a))"

text \<open>
  The list \<open>vs\<close> is what the store holds behind its head node: the nodes form a path without
  repetition, the tail pointer is the last of them, and no other address is allocated.
\<close>

definition hl_nodes :: "'a hlist \<Rightarrow> nat list \<Rightarrow> bool" where
  "hl_nodes s ps \<longleftrightarrow>
     lpath (hl_mem s) (hl_head s) (hl_head s # ps) 0 \<and> distinct (hl_head s # ps) \<and>
     hl_tail s = last (hl_head s # ps) \<and> dom (hl_mem s) = set (hl_head s # ps)"

definition hl_abs :: "'a hlist \<Rightarrow> 'a list \<Rightarrow> bool" where
  "hl_abs s vs \<longleftrightarrow> (\<exists>ps. hl_nodes s ps \<and> vs = map (payload (hl_mem s)) ps)"

lemma lpath_append:
  "lpath m p (as @ bs) q \<longleftrightarrow> (\<exists>r. lpath m p as r \<and> lpath m r bs q)"
  by (induction as arbitrary: p) auto

lemma lpath_upd [simp]: "a \<notin> set as \<Longrightarrow> lpath (m(a := v)) p as q = lpath m p as q"
  by (induction as arbitrary: p) auto

lemma lpath_nonzero: "lpath m p as q \<Longrightarrow> 0 \<notin> set as"
  by (induction as arbitrary: p) auto

lemma lpath_dom: "lpath m p as q \<Longrightarrow> set as \<subseteq> dom m"
  by (induction as arbitrary: p) auto

lemma lpath_snoc_upd:
  "lpath m p (as @ [a]) q \<Longrightarrow> a \<notin> set as \<Longrightarrow> m a = Some (v, n) \<Longrightarrow>
     lpath (m(a \<mapsto> (v, r))) p (as @ [a]) r"
  by (auto simp: lpath_append)

lemma payload_upd [simp]: "a \<noteq> b \<Longrightarrow> payload (m(a := v)) b = payload m b"
  by (simp add: payload_def)

lemma payload_same [simp]: "payload (m(a \<mapsto> (v, n))) a = v"
  by (simp add: payload_def)

lemma map_payload_upd [simp]:
  "a \<notin> set ps \<Longrightarrow> map (payload (m(a := v))) ps = map (payload m) ps"
  by (induction ps) (auto simp: payload_def)

section \<open>The operations on well-formed stores\<close>

lemma hl_nodesD:
  assumes "hl_nodes s ps"
  shows "lpath (hl_mem s) (hl_head s) (hl_head s # ps) 0" "distinct (hl_head s # ps)"
    "hl_tail s = last (hl_head s # ps)" "dom (hl_mem s) = set (hl_head s # ps)"
  using assms by (auto simp: hl_nodes_def)

lemma hl_abs_head: "hl_abs s vs \<Longrightarrow> hl_head s \<noteq> 0"
  by (auto simp: hl_abs_def hl_nodes_def)

lemma hl_init_abs:
  assumes "hl_head s = 0" "hl_mem s = Map.empty" "p \<noteq> 0"
  shows "\<exists>s'. hl_init z p s = Some s' \<and> hl_abs s' []"
  using assms by (auto simp: hl_init_def hl_abs_def hl_nodes_def)

lemma hl_append_nodes:
  assumes inv: "hl_nodes s ps" and p: "p \<noteq> 0" "hl_mem s p = None"
  shows "\<exists>s'. hl_append p v s = Some s' \<and> hl_nodes s' (ps @ [p]) \<and>
     map (payload (hl_mem s')) (ps @ [p]) = map (payload (hl_mem s)) ps @ [v]"
proof -
  let ?h = "hl_head s" and ?m = "hl_mem s" and ?t = "hl_tail s"
  note nd = hl_nodesD [OF inv]
  have pn: "p \<notin> set (?h # ps)" using p(2) nd(4) by auto
  obtain as where as: "?h # ps = as @ [?t]"
    by (metis nd(3) append_butlast_last_id list.distinct(1))
  have ta: "?t \<notin> set as" using nd(2) as by simp
  from nd(1) as have pt: "lpath ?m ?h (as @ [?t]) 0" by simp
  then obtain tv where tv: "?m ?t = Some (tv, 0)" by (auto simp: lpath_append)
  have tp: "?t \<noteq> p" and ap: "p \<notin> set as" using pn as by auto
  let ?m' = "?m(p \<mapsto> (v, 0), ?t \<mapsto> (tv, p))"
  let ?s' = "s\<lparr>hl_mem := ?m', hl_tail := p\<rparr>"
  have ev: "hl_append p v s = Some ?s'"
    using tv tp by (simp add: hl_append_def)
  have "lpath ?m' ?h (as @ [?t]) p"
    using pt ta ap tp tv by (auto simp: lpath_append)
  then have "lpath ?m' ?h ((?h # ps) @ [p]) 0"
    unfolding as lpath_append using p(1) tp by (auto simp: fun_upd_twist)
  moreover have "dom ?m' = set (?h # ps @ [p])"
    using nd(3,4) by auto
  ultimately have nodes: "hl_nodes ?s' (ps @ [p])"
    using nd(2) pn by (simp add: hl_nodes_def)
  have "payload ?m' a = payload ?m a" if "a \<in> set ps" for a
    using that pn tv by (auto simp: payload_def)
  then have "map (payload ?m') (ps @ [p]) = map (payload ?m) ps @ [v]"
    using tp by (auto simp: payload_def)
  with ev nodes show ?thesis by simp
qed

lemma hl_append_abs:
  assumes "hl_abs s vs" "p \<noteq> 0" "hl_mem s p = None"
  shows "\<exists>s'. hl_append p v s = Some s' \<and> hl_abs s' (vs @ [v])"
  using assms hl_append_nodes unfolding hl_abs_def by metis

text \<open>
  The removal loop: \<open>pre @ [prv]\<close> is the part already walked over, \<open>post\<close> the rest.
\<close>

lemma hl_remove_loop_path:
  assumes "lpath (hl_mem s) (hl_head s) (pre @ [prv]) cur" "lpath (hl_mem s) cur post 0"
    and "distinct (pre @ [prv] @ post)" "dom (hl_mem s) = set (pre @ [prv] @ post)"
    and "hl_tail s = last (prv # post)"
    and "keep = filter (\<lambda>a. \<not> P (payload (hl_mem s) a)) post"
  shows "\<exists>s'. hl_remove_loop P prv cur s = Some s' \<and> hl_head s' = hl_head s \<and>
     lpath (hl_mem s') (hl_head s) (pre @ prv # keep) 0 \<and> hl_tail s' = last (prv # keep) \<and>
     dom (hl_mem s') = set (pre @ prv # keep) \<and>
     (\<forall>a \<in> set (pre @ prv # keep). payload (hl_mem s') a = payload (hl_mem s) a)"
  using assms
proof (induction post arbitrary: pre prv cur s keep)
  case Nil
  then show ?case by (auto simp: hl_remove_loop.simps)
next
  case (Cons a post)
  from Cons.prems(2) obtain c nxt where cur: "cur = a" "a \<noteq> 0"
    and a: "hl_mem s a = Some (c, nxt)" and nx: "lpath (hl_mem s) nxt post 0" by auto
  have pa: "payload (hl_mem s) a = c" using a by (simp add: payload_def)
  show ?case
  proof (cases "P c")
    case False
    let ?keep = "filter (\<lambda>a. \<not> P (payload (hl_mem s) a)) post"
    have "lpath (hl_mem s) (hl_head s) ((pre @ [prv]) @ [a]) nxt"
      unfolding lpath_append using Cons.prems(1) cur a by (auto simp: lpath_append)
    from Cons.IH [OF this nx, of ?keep] Cons.prems(3,4,5)
    obtain s' where "hl_remove_loop P a nxt s = Some s'" "hl_head s' = hl_head s"
      "lpath (hl_mem s') (hl_head s) ((pre @ [prv]) @ a # ?keep) 0"
      "hl_tail s' = last (a # ?keep)" "dom (hl_mem s') = set ((pre @ [prv]) @ a # ?keep)"
      "\<forall>b \<in> set ((pre @ [prv]) @ a # ?keep). payload (hl_mem s') b = payload (hl_mem s) b"
      by auto
    moreover have "hl_remove_loop P prv cur s = hl_remove_loop P a nxt s"
      using False cur a by (simp add: hl_remove_loop.simps [of P prv a s])
    moreover have "keep = a # ?keep" using Cons.prems(6) False pa by simp
    ultimately show ?thesis by auto
  next
    case True
    from Cons.prems(1) obtain pv where pv: "hl_mem s prv = Some (pv, a)" "prv \<noteq> 0"
      using cur by (auto simp: lpath_append)
    define m where "m = (hl_mem s)(prv \<mapsto> (pv, nxt), a := None)"
    have ne: "a \<noteq> prv" "prv \<notin> set pre" "a \<notin> set pre" "a \<notin> set post" "prv \<notin> set post"
      using Cons.prems(3) by auto
    have path: "lpath m (hl_head s) (pre @ [prv]) nxt"
      using lpath_snoc_upd [OF Cons.prems(1) _ pv(1)] ne by (simp add: m_def)
    have pth2: "lpath m nxt post 0" using nx ne by (simp add: m_def)
    have dm: "dom m = set (pre @ [prv] @ post)"
      using Cons.prems(3,4) ne by (auto simp: m_def)
    have pl: "payload m b = payload (hl_mem s) b" if "b \<in> set (pre @ prv # post)" for b
      using that ne pv by (auto simp: payload_def m_def)
    have keep: "keep = filter (\<lambda>a. \<not> P (payload m a)) post"
      unfolding Cons.prems(6) using True pa pl by (auto intro!: filter_cong)
    show ?thesis
    proof (cases "nxt = 0")
      case z: True
      then have "post = []" using nx by (cases post) auto
      moreover have "hl_remove_loop P prv cur s = Some (s\<lparr>hl_mem := m, hl_tail := prv\<rparr>)"
        using True cur a pv z by (simp add: hl_remove_loop.simps [of P prv a s] m_def)
      ultimately show ?thesis using z path dm keep pl by auto
    next
      case nz: False
      then have "post \<noteq> []" using nx by auto
      from Cons.IH [where s = "s\<lparr>hl_mem := m\<rparr>", of pre prv nxt keep]
        path pth2 dm Cons.prems(3,5) \<open>post \<noteq> []\<close> keep
      obtain s' where "hl_remove_loop P prv nxt (s\<lparr>hl_mem := m\<rparr>) = Some s'"
        "hl_head s' = hl_head s" "lpath (hl_mem s') (hl_head s) (pre @ prv # keep) 0"
        "hl_tail s' = last (prv # keep)" "dom (hl_mem s') = set (pre @ prv # keep)"
        "\<forall>b \<in> set (pre @ prv # keep). payload (hl_mem s') b = payload m b"
        by auto
      moreover have "\<forall>b \<in> set (pre @ prv # keep). payload m b = payload (hl_mem s) b"
        using pl keep by auto
      moreover have "hl_remove_loop P prv cur s = hl_remove_loop P prv nxt (s\<lparr>hl_mem := m\<rparr>)"
        using True cur a pv nz by (simp add: hl_remove_loop.simps [of P prv a s] m_def)
      ultimately show ?thesis by auto
    qed
  qed
qed

lemma hl_remove_nodes:
  assumes inv: "hl_nodes s ps"
  shows "\<exists>s'. hl_remove P s = Some s' \<and>
     hl_nodes s' (filter (\<lambda>a. \<not> P (payload (hl_mem s) a)) ps) \<and>
     (\<forall>a \<in> set ps. \<not> P (payload (hl_mem s) a) \<longrightarrow> payload (hl_mem s') a = payload (hl_mem s) a)"
proof -
  note nd = hl_nodesD [OF inv]
  from nd(1) obtain hv nxt where h: "hl_mem s (hl_head s) = Some (hv, nxt)" "hl_head s \<noteq> 0"
    and nx: "lpath (hl_mem s) nxt ps 0" by auto
  then have "lpath (hl_mem s) (hl_head s) ([] @ [hl_head s]) nxt" by simp
  from hl_remove_loop_path [OF this nx, of "filter (\<lambda>a. \<not> P (payload (hl_mem s) a)) ps" P] nd
  obtain s' where "hl_remove_loop P (hl_head s) nxt s = Some s'"
    and s': "hl_nodes s' (filter (\<lambda>a. \<not> P (payload (hl_mem s) a)) ps)"
    "\<forall>a \<in> set ps. \<not> P (payload (hl_mem s) a) \<longrightarrow> payload (hl_mem s') a = payload (hl_mem s) a"
    by (auto simp: hl_nodes_def)
  then have "hl_remove P s = Some s'" using h by (simp add: hl_remove_def)
  with s' show ?thesis by blast
qed

lemma hl_remove_abs:
  assumes "hl_abs s vs"
  shows "\<exists>s'. hl_remove P s = Some s' \<and> hl_abs s' (filter (\<lambda>v. \<not> P v) vs)"
proof -
  from assms obtain ps where ps: "hl_nodes s ps" "vs = map (payload (hl_mem s)) ps"
    by (auto simp: hl_abs_def)
  from hl_remove_nodes [OF ps(1), of P] obtain s' where s': "hl_remove P s = Some s'"
    "hl_nodes s' (filter (\<lambda>a. \<not> P (payload (hl_mem s) a)) ps)"
    "\<forall>a \<in> set ps. \<not> P (payload (hl_mem s) a) \<longrightarrow> payload (hl_mem s') a = payload (hl_mem s) a"
    by blast
  have "filter (\<lambda>v. \<not> P v) vs =
      map (payload (hl_mem s')) (filter (\<lambda>a. \<not> P (payload (hl_mem s) a)) ps)"
    using s'(3) by (auto simp: ps(2) filter_map comp_def)
  with s' show ?thesis unfolding hl_abs_def by blast
qed

lemma hl_free_loop_empty:
  assumes "hl_nodes s ps"
  shows "hl_free_loop s = Some (s\<lparr>hl_mem := Map.empty, hl_head := 0, hl_tail := 0\<rparr>)"
proof -
  have "hl_free_loop s = Some (s\<lparr>hl_mem := Map.empty, hl_head := 0, hl_tail := 0\<rparr>)"
    if "lpath (hl_mem s) (hl_head s) (hl_head s # ps) 0" "distinct (hl_head s # ps)"
      "dom (hl_mem s) = set (hl_head s # ps)" for s :: "'a hlist" and ps
    using that
  proof (induction ps arbitrary: s)
    case Nil
    then have "(hl_mem s)(hl_head s := None) = Map.empty"
      by (metis dom_eq_singleton_conv fun_upd_upd list.set(1) list.set(2) fun_upd_triv)
    with Nil show ?case by (auto simp: hl_free_loop.simps [of s])
  next
    case (Cons a ps)
    then obtain hv n where h: "hl_mem s (hl_head s) = Some (hv, a)" "a \<noteq> 0"
      and a: "\<exists>v. hl_mem s a = Some (v, n)" and pth: "lpath (hl_mem s) n ps 0"
      and hn: "hl_head s \<noteq> 0" by auto
    define s1 where "s1 = s\<lparr>hl_mem := (hl_mem s)(hl_head s \<mapsto> (hv, n), a := None)\<rparr>"
    have "hl_free_loop s = hl_free_loop s1"
      using h a by (auto simp: hl_free_loop.simps [of s] s1_def)
    also have "\<dots> = Some (s1\<lparr>hl_mem := Map.empty, hl_head := 0, hl_tail := 0\<rparr>)"
    proof (rule Cons.IH)
      show "lpath (hl_mem s1) (hl_head s1) (hl_head s1 # ps) 0"
        using Cons.prems(2) pth hn by (simp add: s1_def)
      show "distinct (hl_head s1 # ps)" using Cons.prems(2) by (simp add: s1_def)
      show "dom (hl_mem s1) = set (hl_head s1 # ps)"
        using Cons.prems(2,3) by (auto simp: s1_def split: if_splits)
    qed
    finally show ?case by (simp add: s1_def)
  qed
  from this [OF hl_nodesD(1,2,4) [OF assms]] show ?thesis .
qed

lemma hl_free_abs:
  "hl_abs s vs \<Longrightarrow> hl_free s = Some (s\<lparr>hl_mem := Map.empty, hl_head := 0, hl_tail := 0\<rparr>)"
  by (auto simp: hl_abs_def hl_free_def hl_free_loop_empty dest: hl_nodesD(1))

lemma hl_find_loop_path:
  "lpath (hl_mem s) cur ps 0 \<Longrightarrow>
     \<exists>r. hl_find_loop P cur s = Some r \<and> (r \<noteq> 0 \<longleftrightarrow> (\<exists>a \<in> set ps. P (payload (hl_mem s) a)))"
proof (induction ps arbitrary: cur)
  case Nil
  then show ?case by (simp add: hl_find_loop.simps)
next
  case (Cons a ps)
  then obtain v n where a: "cur = a" "a \<noteq> 0" "hl_mem s a = Some (v, n)" "lpath (hl_mem s) n ps 0"
    by auto
  have "payload (hl_mem s) a = v" using a by (simp add: payload_def)
  with Cons.IH [OF a(4)] a show ?case
    by (auto simp: hl_find_loop.simps [of P a s])
qed

lemma hl_find_abs:
  assumes "hl_abs s vs"
  shows "\<exists>r. hl_find P s = Some r \<and> (r \<noteq> 0 \<longleftrightarrow> (\<exists>v \<in> set vs. P v))"
proof -
  from assms obtain ps where ps: "hl_nodes s ps" "vs = map (payload (hl_mem s)) ps"
    by (auto simp: hl_abs_def)
  from hl_nodesD(1) [OF ps(1)] obtain hv n where "hl_mem s (hl_head s) = Some (hv, n)"
    "lpath (hl_mem s) n ps 0" by auto
  with hl_find_loop_path [of s n ps P] ps(2) show ?thesis by (auto simp: hl_find_def)
qed

lemma hl_each_loop_path:
  assumes "lpath (hl_mem s) cur ps 0" "distinct ps"
    and "list_each f (map (payload (hl_mem s)) ps) t = Some (vs', t')"
  shows "\<exists>s'. hl_each_loop f cur s t = Some (s', t') \<and> hl_head s' = hl_head s \<and>
     hl_tail s' = hl_tail s \<and> dom (hl_mem s') = dom (hl_mem s) \<and>
     lpath (hl_mem s') cur ps 0 \<and> map (payload (hl_mem s')) ps = vs' \<and>
     (\<forall>b. b \<notin> set ps \<longrightarrow> hl_mem s' b = hl_mem s b)"
  using assms
proof (induction ps arbitrary: cur s t vs')
  case Nil
  then show ?case by (simp add: hl_each_loop.simps)
next
  case (Cons a ps)
  then obtain v n where a: "cur = a" "a \<noteq> 0" "hl_mem s a = Some (v, n)"
    "lpath (hl_mem s) n ps 0" "a \<notin> set ps" "distinct ps" by auto
  then have pa: "payload (hl_mem s) a = v" by (simp add: payload_def)
  from Cons.prems(3) pa obtain v' t1 ws where f: "f v t = Some (v', t1)"
    "list_each f (map (payload (hl_mem s)) ps) t1 = Some (ws, t')" "vs' = v' # ws"
    by (auto split: option.splits)
  define s1 where "s1 = s\<lparr>hl_mem := (hl_mem s)(a \<mapsto> (v', n))\<rparr>"
  have "lpath (hl_mem s1) n ps 0" "list_each f (map (payload (hl_mem s1)) ps) t1 = Some (ws, t')"
    using a f(2) by (simp_all add: s1_def)
  from Cons.IH [OF this(1) a(6) this(2)] obtain s' where s': "hl_each_loop f n s1 t1 = Some (s', t')"
    "hl_head s' = hl_head s1" "hl_tail s' = hl_tail s1" "dom (hl_mem s') = dom (hl_mem s1)"
    "lpath (hl_mem s') n ps 0" "map (payload (hl_mem s')) ps = ws"
    "\<forall>b. b \<notin> set ps \<longrightarrow> hl_mem s' b = hl_mem s1 b" by blast
  have "hl_mem s' a = Some (v', n)" using s'(7) a(5) by (simp add: s1_def)
  moreover have "hl_each_loop f cur s t = hl_each_loop f n s1 t1"
    using a f by (simp add: hl_each_loop.simps [of f a s] s1_def)
  moreover have "dom (hl_mem s') = dom (hl_mem s)" using s'(4) a(3) by (auto simp: s1_def)
  ultimately show ?case
    using s' a f(3) by (auto simp: payload_def s1_def)
qed

lemma hl_each_abs:
  assumes "hl_abs s vs" "list_each f vs t = Some (vs', t')"
  shows "\<exists>s'. hl_each f s t = Some (s', t') \<and> hl_abs s' vs'"
proof -
  from assms(1) obtain ps where ps: "hl_nodes s ps" "vs = map (payload (hl_mem s)) ps"
    by (auto simp: hl_abs_def)
  note nd = hl_nodesD [OF ps(1)]
  from nd(1) obtain hv n where h: "hl_mem s (hl_head s) = Some (hv, n)" "hl_head s \<noteq> 0"
    and pth: "lpath (hl_mem s) n ps 0" by auto
  have hp: "hl_head s \<notin> set ps" "distinct ps" using nd(2) by auto
  from hl_each_loop_path [OF pth hp(2), of f t vs' t'] assms(2) ps(2)
  obtain s' where s': "hl_each_loop f n s t = Some (s', t')" "hl_head s' = hl_head s"
    "hl_tail s' = hl_tail s" "dom (hl_mem s') = dom (hl_mem s)" "lpath (hl_mem s') n ps 0"
    "map (payload (hl_mem s')) ps = vs'" "\<forall>b. b \<notin> set ps \<longrightarrow> hl_mem s' b = hl_mem s b"
    by auto
  have "hl_nodes s' ps" using s' nd h hp by (simp add: hl_nodes_def)
  moreover have "hl_each f s t = Some (s', t')" using s'(1) h by (simp add: hl_each_def)
  ultimately show ?thesis using s'(6) by (auto simp: hl_abs_def)
qed

lemma hl_abs_finite: "hl_abs s vs \<Longrightarrow> finite (dom (hl_mem s))"
  by (auto simp: hl_abs_def hl_nodes_def)

section \<open>The table interface\<close>

text \<open>
  What a client of such a table relies on: appending an allocated node puts its payload at the
  end, removing by a predicate keeps the other payloads in order, and neither fails.
\<close>

locale node_table =
  fixes abs :: "'s \<Rightarrow> 'a list \<Rightarrow> bool"
    and append :: "nat \<Rightarrow> 'a \<Rightarrow> 's \<Rightarrow> 's cres"
    and remove :: "('a \<Rightarrow> bool) \<Rightarrow> 's \<Rightarrow> 's cres"
    and fresh :: "'s \<Rightarrow> nat \<Rightarrow> bool"
  assumes append_law: "abs s vs \<Longrightarrow> fresh s p \<Longrightarrow> \<exists>s'. append p v s = Some s' \<and> abs s' (vs @ [v])"
    and remove_law: "abs s vs \<Longrightarrow> \<exists>s'. remove P s = Some s' \<and> abs s' (filter (\<lambda>v. \<not> P v) vs)"
begin

lemma append_ok: "abs s vs \<Longrightarrow> fresh s p \<Longrightarrow> append p v s \<noteq> None"
  using append_law by fastforce

lemma remove_ok: "abs s vs \<Longrightarrow> remove P s \<noteq> None"
  using remove_law by fastforce

lemma removed_gone:
  assumes "abs s vs" "remove P s = Some s'"
  shows "\<exists>ws. abs s' ws \<and> (\<forall>v \<in> set ws. \<not> P v)"
  using remove_law [OF assms(1), of P] assms(2) by fastforce

lemma append_then_remove:
  assumes "abs s vs" "fresh s p" "P v" "\<forall>w \<in> set vs. \<not> P w"
  shows "\<exists>s' s''. append p v s = Some s' \<and> remove P s' = Some s'' \<and> abs s'' vs"
proof -
  from append_law [OF assms(1,2)] obtain s' where s': "append p v s = Some s'" "abs s' (vs @ [v])"
    by blast
  from remove_law [OF s'(2), of P] assms(3,4) show ?thesis using s'(1)
    by (auto simp: filter_empty_conv)
qed

lemma remove_other:
  assumes "abs s vs" "\<forall>w \<in> set vs. \<not> P w"
  shows "\<exists>s'. remove P s = Some s' \<and> abs s' vs"
  using remove_law [OF assms(1), of P] assms(2) by (simp add: filter_id_conv)

end

interpretation hl: node_table hl_abs hl_append hl_remove "\<lambda>s p. p \<noteq> 0 \<and> hl_mem s p = None"
  by unfold_locales (auto intro: hl_append_abs hl_remove_abs)

end
