(* ===== verification/Sockets.thy ===== *)
theory Sockets
  imports Prelude
begin

text \<open>
  The socket addresses the daemon passes around and the two record types of \<open>conmgr.h\<close>:
  an entry of the connection table and the message an application sends to the connection
  manager.
\<close>

text \<open>
  A \<open>struct sockaddr\<close> by its family. The IPv4 address is read as the number its four bytes
  spell in network order (so \<open>1.0.0.0\<close> is \<open>0x01000000\<close>), the IPv6 address as its 16 bytes, the
  port as \<open>ntohs\<close> gives it.
\<close>

datatype sockaddr =
    Sockaddr_in u32 u16
  | Sockaddr_in6 bytes u16
  | Sockaddr_other u16

abbreviation (input) CONMGR_CMD_ADD :: int where "CONMGR_CMD_ADD \<equiv> 0"
abbreviation (input) CONMGR_CMD_REMOVE :: int where "CONMGR_CMD_REMOVE \<equiv> 1"
abbreviation (input) CONMGR_PROTO_UNSPEC :: int where "CONMGR_PROTO_UNSPEC \<equiv> 0"
abbreviation (input) CONMGR_PROTO_NUM :: int where "CONMGR_PROTO_NUM \<equiv> 4"

record connection =
  appID :: int
  app_desc :: "string option"
  sockfd :: int
  addrlen :: u32
  addr :: "sockaddr option"
  protocol :: int
  active_rule :: int

record conmsg =
  cm_cmd :: int
  cm_pid :: int
  cm_sockfd :: int
  cm_addrlen :: u32
  cm_addr :: sockaddr

end
