(* ===== verification/Netmgr.thy ===== *)
theory Netmgr
  imports Headed_List Sockets
begin

text \<open>
  The network manager, \<open>sined/src/netmgr.c\<close>: link types, the link table, the request/response
  exchange with the MIH user over a datagram socket, the recognition of HIP addresses, and the
  choice of the mobility protocol that is told to use an interface.
\<close>

section \<open>Link types\<close>

abbreviation (input) LINK_TYPE_NUM :: int where "LINK_TYPE_NUM \<equiv> 4"

record link =
  link_name :: string
  link_type :: int

definition str_link_type :: "string list" where
  "str_link_type = [''Ethernet'', ''Wi-Fi'', ''WiMAX'', ''LTE'']"

definition lt_to_str :: "int \<Rightarrow> string" where
  "lt_to_str t = (if t < 0 \<or> t \<ge> LINK_TYPE_NUM then ''INVALID'' else str_link_type ! nat t)"

fun str_to_lt_from :: "int \<Rightarrow> string list \<Rightarrow> string \<Rightarrow> int" where
  "str_to_lt_from i [] name = -1"
| "str_to_lt_from i (s # ss) name = (if name = s then i else str_to_lt_from (i + 1) ss name)"

definition str_to_lt :: "string \<Rightarrow> int" where
  "str_to_lt name = str_to_lt_from 0 str_link_type name"

section \<open>State and the exchange with the MIH user\<close>

text \<open>
  Besides the globals of \<open>netmgr.c\<close> the state counts the exchanges made so far and records the
  datagrams sent and the descriptors closed.
\<close>

record netmgr =
  link_tbl :: "link hlist"
  info_sock :: int
  event_sock :: int
  nm_calls :: nat
  nm_sent :: "string list"
  nm_closed :: "int list"

text \<open>
  What the operating system and the MIH user do in one exchange: the descriptor \<open>socket\<close>
  returns, the results of \<open>setsockopt\<close> and \<open>sendto\<close>, and the bytes \<open>recvfrom\<close> delivers
  (\<open>None\<close> for a negative result). An environment gives this for the n-th exchange and the
  request that is sent.
\<close>

record info_env =
  env_socket :: int
  env_setsockopt :: int
  env_sendto :: int
  env_recv :: "char list option"

type_synonym mih_env = "nat \<Rightarrow> string \<Rightarrow> info_env"

abbreviation (input) IPC_BUF_SIZE :: nat where "IPC_BUF_SIZE \<equiv> 32"

text \<open>The label \<open>error\<close> of \<open>netmgr_send_info\<close>.\<close>

definition info_error :: "netmgr \<Rightarrow> string \<times> netmgr" where
  "info_error nm =
     ([], if info_sock nm > 0
          then nm\<lparr>nm_closed := nm_closed nm @ [info_sock nm], info_sock := -1\<rparr> else nm)"

text \<open>Opening the socket on the first use; \<open>Inl\<close> is the jump to \<open>error\<close>.\<close>

definition info_open :: "info_env \<Rightarrow> netmgr \<Rightarrow> netmgr + netmgr" where
  "info_open e nm =
     (if info_sock nm < 0 then
        (let nm1 = nm\<lparr>info_sock := env_socket e\<rparr>
         in if env_socket e < 0 then Inl nm1
            else if env_setsockopt e \<noteq> 0 then Inl nm1
            else Inr nm1)
      else Inr nm)"

text \<open>
  One exchange: the request \<open>buf\<close> goes out, the response comes back in the same buffer of
  \<open>IPC_BUF_SIZE\<close> bytes. \<open>recvfrom\<close> stores at most \<open>IPC_BUF_SIZE\<close> bytes and the code then writes
  a NUL at the index it returned, which is out of bounds when the buffer was filled.
\<close>

definition netmgr_send_info :: "mih_env \<Rightarrow> string \<Rightarrow> netmgr \<Rightarrow> (string \<times> netmgr) cres" where
  "netmgr_send_info mih buf nm =
     (let e = mih (nm_calls nm) buf
      in case info_open e (nm\<lparr>nm_calls := Suc (nm_calls nm)\<rparr>) of
           Inl nm1 \<Rightarrow> Some (info_error nm1)
         | Inr nm1 \<Rightarrow>
             if env_sendto e < 0 then Some (info_error nm1)
             else
               (let nm2 = nm1\<lparr>nm_sent := nm_sent nm1 @ [buf]\<rparr>
                in case env_recv e of
                     None \<Rightarrow> Some (info_error nm2)
                   | Some bs \<Rightarrow>
                       (let b = take IPC_BUF_SIZE bs
                        in if length b < IPC_BUF_SIZE then Some (cstr b, nm2) else None)))"

text \<open>
  \<open>sprintf(buf, "x %s", ifname)\<close> into a buffer of \<open>IPC_BUF_SIZE\<close> bytes: a NULL name or one that
  does not fit with its command and NUL is undefined.
\<close>

definition sprintf_req :: "char \<Rightarrow> string option \<Rightarrow> string cres" where
  "sprintf_req c ifname =
     (case ifname of
        None \<Rightarrow> None
      | Some n \<Rightarrow> if length n + 3 \<le> IPC_BUF_SIZE then Some (c # CHR '' '' # n) else None)"

definition netmgr_interface_on ::
  "mih_env \<Rightarrow> string option \<Rightarrow> netmgr \<Rightarrow> (int \<times> netmgr) cres" where
  "netmgr_interface_on mih ifname nm =
     (case sprintf_req (CHR ''e'') ifname of
        None \<Rightarrow> None
      | Some req \<Rightarrow>
          (case netmgr_send_info mih req nm of
             None \<Rightarrow> None
           | Some (buf, nm') \<Rightarrow> Some (if buf = ''up'' then 1 else 0, nm')))"

section \<open>HIP addresses\<close>

text \<open>The HIP prefixes: \<open>1.0.0.0/255.0.0.0\<close> and \<open>2001:10::/ffff:fff0::\<close>.\<close>

definition hip_addr_v4 :: u32 where "hip_addr_v4 = 0x01000000"
definition hip_mask_v4 :: u32 where "hip_mask_v4 = 0xFF000000"

definition hip_addr_v6 :: bytes where
  "hip_addr_v6 = [0x20, 0x01, 0x00, 0x10, 0, 0, 0, 0, 0, 0, 0, 0, 0, 0, 0, 0]"

definition hip_mask_v6 :: bytes where
  "hip_mask_v6 = [0xFF, 0xFF, 0xFF, 0xF0, 0, 0, 0, 0, 0, 0, 0, 0, 0, 0, 0, 0]"

text \<open>The loop over the 16 bytes; it stops at the first byte that differs under the mask.\<close>

fun hip_v6_loop :: "bytes \<Rightarrow> bytes \<Rightarrow> bytes \<Rightarrow> bool" where
  "hip_v6_loop (a # as) (m # ms) (h # hs) = (if a AND m \<noteq> h then False else hip_v6_loop as ms hs)"
| "hip_v6_loop _ _ _ = True"

fun is_hip_addr :: "sockaddr \<Rightarrow> bool" where
  "is_hip_addr (Sockaddr_in a _) = (a AND hip_mask_v4 = hip_addr_v4)"
| "is_hip_addr (Sockaddr_in6 a _) = hip_v6_loop a hip_mask_v6 hip_addr_v6"
| "is_hip_addr (Sockaddr_other _) = False"

text \<open>
  Telling the mobility protocol: HIP gets the two requests \<open>h\<close> and \<open>g\<close>, MIPv6 the request
  \<open>m\<close>, plain IPv4 nothing. The result is 0, or -1 when a response is empty.
\<close>

definition netmgr_request ::
  "mih_env \<Rightarrow> char \<Rightarrow> string option \<Rightarrow> netmgr \<Rightarrow> (bool \<times> netmgr) cres" where
  "netmgr_request mih c ifname nm =
     (case sprintf_req c ifname of
        None \<Rightarrow> None
      | Some req \<Rightarrow>
          (case netmgr_send_info mih req nm of
             None \<Rightarrow> None
           | Some (buf, nm') \<Rightarrow> Some (buf \<noteq> [], nm')))"

definition netmgr_set_interface ::
  "mih_env \<Rightarrow> sockaddr option \<Rightarrow> string option \<Rightarrow> netmgr \<Rightarrow> (int \<times> netmgr) cres" where
  "netmgr_set_interface mih a ifname nm =
     (case a of
        None \<Rightarrow> None
      | Some sa \<Rightarrow>
          if is_hip_addr sa then
            (case netmgr_request mih (CHR ''h'') ifname nm of
               None \<Rightarrow> None
             | Some (ok1, nm1) \<Rightarrow>
                 if \<not> ok1 then Some (-1, nm1)
                 else (case netmgr_request mih (CHR ''g'') ifname nm1 of
                         None \<Rightarrow> None
                       | Some (ok2, nm2) \<Rightarrow> Some (if ok2 then 0 else -1, nm2)))
          else (case sa of
                  Sockaddr_in6 _ _ \<Rightarrow>
                    (case netmgr_request mih (CHR ''m'') ifname nm of
                       None \<Rightarrow> None
                     | Some (ok, nm1) \<Rightarrow> Some (if ok then 0 else -1, nm1))
                | _ \<Rightarrow> Some (0, nm)))"

section \<open>The link table\<close>

definition init_link_table :: "nat \<Rightarrow> netmgr \<Rightarrow> netmgr cres" where
  "init_link_table p nm =
     map_option (\<lambda>t. nm\<lparr>link_tbl := t\<rparr>)
       (hl_init \<lparr>link_name = [], link_type = 0\<rparr> p (link_tbl nm))"

text \<open>
  \<open>add_link\<close>: \<open>p\<close> and \<open>q\<close> are what the two calls of \<open>malloc\<close> return. The second asks for
  \<open>strlen(name)\<close> bytes and \<open>strcpy\<close> writes one more; the node is never put into the table.
\<close>

definition add_link :: "nat \<Rightarrow> nat \<Rightarrow> string \<Rightarrow> string \<Rightarrow> netmgr \<Rightarrow> (int \<times> netmgr) cres" where
  "add_link p q ltype name nm =
     (if p = 0 then Some (-1, nm)
      else if q = 0 then Some (-1, nm)
      else (let block = length name; written = length name + 1
            in if written \<le> block then Some (0, nm) else None))"

definition remove_link :: "string \<Rightarrow> netmgr \<Rightarrow> netmgr cres" where
  "remove_link name nm =
     map_option (\<lambda>t. nm\<lparr>link_tbl := t\<rparr>) (hl_remove (\<lambda>l. link_name l = name) (link_tbl nm))"

definition free_link_table :: "netmgr \<Rightarrow> netmgr cres" where
  "free_link_table nm = map_option (\<lambda>t. nm\<lparr>link_tbl := t\<rparr>) (hl_free (link_tbl nm))"

definition netmgr_link_up :: "string \<Rightarrow> netmgr \<Rightarrow> int cres" where
  "netmgr_link_up name nm =
     map_option (\<lambda>r. if r \<noteq> 0 then 1 else 0) (hl_find (\<lambda>l. link_name l = name) (link_tbl nm))"

text \<open>The printing loop touches every node and leaves the table as it is.\<close>

definition netmgr_dump_links :: "netmgr \<Rightarrow> (netmgr \<times> string list) cres" where
  "netmgr_dump_links nm =
     map_option (\<lambda>(t, out). (nm\<lparr>link_tbl := t\<rparr>, out))
       (hl_each (\<lambda>l out. Some (l, out @ [lt_to_str (link_type l) @ '' '' @ link_name l]))
          (link_tbl nm) [])"

section \<open>Main loop and initialisation\<close>

text \<open>
  One return of \<open>select\<close> in the main loop: it failed, the exit pipe is readable, an event
  arrived (with the result of \<open>recvfrom\<close>), or neither descriptor was ready. The list of these
  is what happens until the loop sees \<open>exit_flag\<close>. The flag \<open>need\<close> is the policy engine's
  \<open>need_evaluation\<close>, which \<open>trigger_policy_engine\<close> sets.
\<close>

datatype nm_event = Nm_select_fail | Nm_exit | Nm_recv int | Nm_idle

definition netmgr_cleanup :: "netmgr \<Rightarrow> netmgr cres" where
  "netmgr_cleanup nm =
     (case free_link_table nm of
        None \<Rightarrow> None
      | Some nm1 \<Rightarrow>
          (let nm2 = (if info_sock nm1 \<ge> 0
                      then nm1\<lparr>nm_closed := nm_closed nm1 @ [info_sock nm1], info_sock := -1\<rparr>
                      else nm1)
           in Some (if event_sock nm2 \<ge> 0
                    then nm2\<lparr>nm_closed := nm_closed nm2 @ [event_sock nm2], event_sock := -1\<rparr>
                    else nm2)))"

fun netmgr_main_loop :: "nm_event list \<Rightarrow> netmgr \<times> bool \<Rightarrow> (netmgr \<times> bool) cres" where
  "netmgr_main_loop [] (nm, need) = map_option (\<lambda>n. (n, need)) (netmgr_cleanup nm)"
| "netmgr_main_loop (Nm_select_fail # _) (nm, need) =
     map_option (\<lambda>n. (n, need)) (netmgr_cleanup nm)"
| "netmgr_main_loop (Nm_exit # _) (nm, need) =
     map_option (\<lambda>n. (n, need)) (netmgr_cleanup nm)"
| "netmgr_main_loop (Nm_recv r # es) (nm, need) =
     (if r > 0 then netmgr_main_loop es (nm, True)
      else map_option (\<lambda>n. (n, need)) (netmgr_cleanup nm))"
| "netmgr_main_loop (Nm_idle # es) (nm, need) = netmgr_main_loop es (nm, need)"

text \<open>The results of the calls \<open>init_network_manager\<close> makes, in their order.\<close>

record nm_init_env =
  ni_malloc :: nat
  ni_host :: bool
  ni_socket :: int
  ni_opt1 :: int
  ni_sendto :: int
  ni_recv :: int
  ni_opt2 :: int
  ni_thread :: int

text \<open>Its label \<open>error\<close>: the event socket is closed but keeps its number.\<close>

definition nm_init_error :: "netmgr \<Rightarrow> (int \<times> netmgr) cres" where
  "nm_init_error nm =
     (case free_link_table nm of
        None \<Rightarrow> None
      | Some nm1 \<Rightarrow>
          Some (-1, if event_sock nm1 \<ge> 0
                    then nm1\<lparr>nm_closed := nm_closed nm1 @ [event_sock nm1]\<rparr> else nm1))"

definition init_network_manager :: "nm_init_env \<Rightarrow> netmgr \<Rightarrow> (int \<times> netmgr) cres" where
  "init_network_manager e nm =
     (case init_link_table (ni_malloc e) nm of
        None \<Rightarrow> None
      | Some nm1 \<Rightarrow>
          if \<not> ni_host e then nm_init_error nm1
          else
            (let nm2 = nm1\<lparr>event_sock := ni_socket e\<rparr>
             in if ni_socket e < 0 then nm_init_error nm2
                else if ni_opt1 e \<noteq> 0 then nm_init_error nm2
                else if ni_sendto e \<le> 0 then nm_init_error nm2
                else
                  (let nm3 = nm2\<lparr>nm_sent := nm_sent nm2 @ [''r'']\<rparr>
                   in if ni_recv e \<le> 0 then nm_init_error nm3
                      else if ni_opt2 e \<noteq> 0 then nm_init_error nm3
                      else if ni_thread e \<noteq> 0 then nm_init_error nm3
                      else Some (0, nm3))))"

section \<open>Lemmas\<close>

lemma str_to_lt_from_nth:
  "distinct ss \<Longrightarrow> i < length ss \<Longrightarrow> str_to_lt_from k ss (ss ! i) = k + int i"
  by (induction ss arbitrary: k i) (auto simp: nth_Cons split: nat.splits)

lemma str_to_lt_from_cases:
  "(str_to_lt_from k ss name = -1 \<and> name \<notin> set ss) \<or>
   (\<exists>i < length ss. str_to_lt_from k ss name = k + int i \<and> ss ! i = name)"
proof (induction ss arbitrary: k)
  case Nil
  then show ?case by simp
next
  case (Cons s ss)
  show ?case
  proof (cases "name = s")
    case True
    then show ?thesis by auto
  next
    case False
    from Cons.IH [of "k + 1"] show ?thesis
    proof
      assume "\<exists>i < length ss. str_to_lt_from (k + 1) ss name = k + 1 + int i \<and> ss ! i = name"
      then obtain i where "i < length ss" "str_to_lt_from (k + 1) ss name = k + int (Suc i)"
        "ss ! i = name" by auto
      then have "Suc i < length (s # ss)" "str_to_lt_from k (s # ss) name = k + int (Suc i)"
        "(s # ss) ! Suc i = name" using False by simp_all
      then show ?thesis by blast
    qed (use False in simp)
  qed
qed

lemma length_str_link_type [simp]: "length str_link_type = 4"
  by (simp add: str_link_type_def)

lemma info_error_fst [simp]: "fst (info_error nm) = []"
  by (simp add: info_error_def)

lemma info_error_sock: "info_sock nm \<ge> -1 \<Longrightarrow> info_sock (snd (info_error nm)) \<ge> -1"
  by (simp add: info_error_def)

text \<open>An exchange is defined exactly when the response leaves room for the NUL.\<close>

lemma netmgr_send_info_defined:
  assumes "\<And>bs. env_recv (mih (nm_calls nm) buf) = Some bs \<Longrightarrow> length bs < IPC_BUF_SIZE"
  shows "netmgr_send_info mih buf nm \<noteq> None"
  using assms by (auto simp: netmgr_send_info_def Let_def split: sum.splits option.splits)

lemma netmgr_send_info_link_tbl:
  "netmgr_send_info mih buf nm = Some (r, nm') \<Longrightarrow> link_tbl nm' = link_tbl nm \<and> event_sock nm' = event_sock nm"
  by (auto simp: netmgr_send_info_def info_open_def info_error_def Let_def
      split: sum.splits option.splits if_splits)

lemma sprintf_req_Some:
  "length n + 3 \<le> IPC_BUF_SIZE \<Longrightarrow> sprintf_req c (Some n) = Some (c # CHR '' '' # n)"
  by (simp add: sprintf_req_def)

text \<open>
  The requests one call sends, as a function of the address it is made for: this is the
  protocol choice \<open>netmgr_set_interface\<close> promises.
\<close>

fun if_requests :: "sockaddr \<Rightarrow> string \<Rightarrow> string list" where
  "if_requests sa n =
     (if is_hip_addr sa then [''h '' @ n, ''g '' @ n]
      else case sa of Sockaddr_in6 _ _ \<Rightarrow> [''m '' @ n] | _ \<Rightarrow> [])"

lemma netmgr_send_info_answered:
  assumes "netmgr_send_info mih req nm = Some (buf, nm')" "buf \<noteq> []"
  shows "nm_sent nm' = nm_sent nm @ [req] \<and> 0 \<le> info_sock nm' \<and> nm_closed nm' = nm_closed nm"
  using assms
  by (auto simp: netmgr_send_info_def info_open_def info_error_def Let_def
      split: sum.splits option.splits if_splits)

lemma netmgr_request_ok:
  assumes "netmgr_request mih c (Some n) nm = Some (True, nm')"
  shows "nm_sent nm' = nm_sent nm @ [c # '' '' @ n]"
  using assms netmgr_send_info_answered
  by (fastforce simp: netmgr_request_def sprintf_req_def split: option.splits if_splits)

lemma netmgr_request_defined:
  assumes "length n + 3 \<le> IPC_BUF_SIZE"
    and "\<And>k req bs. env_recv (mih k req) = Some bs \<Longrightarrow> length bs < IPC_BUF_SIZE"
  shows "netmgr_request mih c (Some n) nm \<noteq> None"
  using netmgr_send_info_defined [of mih nm "c # CHR '' '' # n"] assms
  by (auto simp: netmgr_request_def sprintf_req_def split: option.splits)

lemma netmgr_request_link_tbl:
  "netmgr_request mih c ifname nm = Some (ok, nm') \<Longrightarrow> link_tbl nm' = link_tbl nm"
  by (auto simp: netmgr_request_def dest: netmgr_send_info_link_tbl split: option.splits prod.splits)

lemma hip_v6_bytes:
  "hip_v6_loop [a0, a1, a2, a3, a4, a5, a6, a7, a8, a9, a10, a11, a12, a13, a14, a15]
     hip_mask_v6 hip_addr_v6 \<longleftrightarrow> a0 = 0x20 \<and> a1 = 0x01 \<and> a2 = 0 \<and> a3 AND 0xF0 = 0x10"
  by (simp add: hip_mask_v6_def hip_addr_v6_def)

lemma and_F0_drop_bit: "(a :: u8) AND 0xF0 = 0x10 \<longleftrightarrow> drop_bit 4 a = 1"
  by (rule prefix_cmp) (simp_all add: mask_eq_exp_minus_1)

lemma and_FF000000_drop_bit: "(a :: u32) AND 0xFF000000 = 0x01000000 \<longleftrightarrow> drop_bit 24 a = 1"
  by (rule prefix_cmp) (simp_all add: mask_eq_exp_minus_1)

lemma list16E:
  assumes "length xs = 16"
  obtains a0 a1 a2 a3 a4 a5 a6 a7 a8 a9 a10 a11 a12 a13 a14 a15
  where "xs = [a0, a1, a2, a3, a4, a5, a6, a7, a8, a9, a10, a11, a12, a13, a14, a15]"
  using assms by (auto simp: numeral_eq_Suc length_Suc_conv)

section \<open>Properties\<close>

text \<open>
  \<open>is_hip_addr\<close> decides the two HIP prefixes: an IPv4 address is one exactly when its top
  8 bits are 1, an IPv6 address (16 bytes) exactly when its first 28 bits are those of 2001:10::,
  and an address of another family never is.
\<close>

lemma is_hip_addr_prefix:
  assumes "length b = 16"
  shows "(is_hip_addr (Sockaddr_in a pt) \<longleftrightarrow> drop_bit 24 a = 1) \<and>
    (is_hip_addr (Sockaddr_in6 b pt) \<longleftrightarrow>
       b ! 0 = 0x20 \<and> b ! 1 = 0x01 \<and> b ! 2 = 0 \<and> drop_bit 4 (b ! 3) = 1) \<and>
    \<not> is_hip_addr (Sockaddr_other fam)"
proof -
  have v4: "is_hip_addr (Sockaddr_in a pt) \<longleftrightarrow> drop_bit 24 a = 1"
    unfolding is_hip_addr.simps hip_mask_v4_def hip_addr_v4_def by (rule and_FF000000_drop_bit)
  have v6: "is_hip_addr (Sockaddr_in6 b pt) \<longleftrightarrow>
      b ! 0 = 0x20 \<and> b ! 1 = 0x01 \<and> b ! 2 = 0 \<and> drop_bit 4 (b ! 3) = 1"
    using assms
  proof (rule list16E)
  qed (simp only: is_hip_addr.simps hip_v6_bytes and_F0_drop_bit, simp)
  show ?thesis using v4 v6 by simp
qed



text \<open>
  C14. The link table as a set of names: a name is reported up exactly when a link of that name is
  in the table, removing a name makes exactly the links of that name disappear, and removal and
  lookup never follow a bad pointer.
\<close>

theorem link_table_lookup:
  assumes "hl_abs (link_tbl nm) ls"
  shows "netmgr_link_up name nm = Some (if name \<in> link_name ` set ls then 1 else 0) \<and>
    (\<exists>nm'. remove_link gone nm = Some nm' \<and>
       hl_abs (link_tbl nm') (filter (\<lambda>l. link_name l \<noteq> gone) ls) \<and>
       netmgr_link_up name nm' =
         Some (if name \<noteq> gone \<and> name \<in> link_name ` set ls then 1 else 0))"
proof -
  have up: "netmgr_link_up name nm1 = Some (if name \<in> link_name ` set ls1 then 1 else 0)"
    if "hl_abs (link_tbl nm1) ls1" for nm1 :: netmgr and ls1
    using hl_find_abs [OF that, of "\<lambda>l. link_name l = name"] by (auto simp: netmgr_link_up_def)
  obtain t where t: "hl_remove (\<lambda>l. link_name l = gone) (link_tbl nm) = Some t"
    "hl_abs t (filter (\<lambda>l. link_name l \<noteq> gone) ls)"
    using hl.remove_law [OF assms, of "\<lambda>l. link_name l = gone"] by blast
  then have "remove_link gone nm = Some (nm\<lparr>link_tbl := t\<rparr>)" by (simp add: remove_link_def)
  moreover have "netmgr_link_up name (nm\<lparr>link_tbl := t\<rparr>) =
      Some (if name \<noteq> gone \<and> name \<in> link_name ` set ls then 1 else 0)"
    using up [of "nm\<lparr>link_tbl := t\<rparr>"] t(2) by (auto simp: image_iff)
  ultimately show ?thesis using up [OF assms] t(2) by auto
qed

theorem link_table_lookup_witness:
  "\<exists>nm'. remove_link ''eth0'' \<lparr>link_tbl = \<lparr>hl_mem = [1 \<mapsto> (\<lparr>link_name = [], link_type = 0\<rparr>, 2),
       2 \<mapsto> (\<lparr>link_name = ''eth0'', link_type = 0\<rparr>, 0)], hl_head = 1, hl_tail = 2\<rparr>,
     info_sock = -1, event_sock = -1, nm_calls = 0, nm_sent = [], nm_closed = []\<rparr> = Some nm' \<and>
     netmgr_link_up ''eth0'' nm' = Some 0"
proof -
  let ?t = "\<lparr>hl_mem = [1 \<mapsto> (\<lparr>link_name = [], link_type = 0\<rparr>, 2),
       2 \<mapsto> (\<lparr>link_name = ''eth0'', link_type = 0\<rparr>, 0)], hl_head = 1, hl_tail = 2\<rparr>"
  have "hl_abs ?t [\<lparr>link_name = ''eth0'', link_type = 0\<rparr>]"
    by (auto simp: hl_abs_def hl_nodes_def payload_def intro!: exI [where x = "[2]"])
  then show ?thesis
    using link_table_lookup [of "\<lparr>link_tbl = ?t, info_sock = -1, event_sock = -1, nm_calls = 0,
        nm_sent = [], nm_closed = []\<rparr>" "[\<lparr>link_name = ''eth0'', link_type = 0\<rparr>]"
        "''eth0''" "''eth0''"]
    by auto
qed

end
