(* ===== verification/Cstdlib.thy ===== *)
theory Cstdlib
  imports Prelude
begin

text \<open>
  The functions of the C library the daemon calls on strings and numbers: \<open>strcpy\<close> and
  \<open>strncpy\<close> into a buffer of a given size, \<open>strtol\<close> in base 10 and its conversion to \<open>int\<close>.
  Writing past the end of a buffer is \<open>None\<close>.
\<close>

text \<open>The string that \<open>strcpy\<close> leaves in a buffer of \<open>n\<close> bytes.\<close>

definition strcpy :: "nat \<Rightarrow> char list \<Rightarrow> string cres" where
  "strcpy n src = (if length (cstr src) + 1 \<le> n then Some (cstr src) else None)"

text \<open>The \<open>n\<close> bytes \<open>strncpy\<close> writes: at most \<open>n\<close> characters, padded with NUL.\<close>

definition strncpy :: "nat \<Rightarrow> char list \<Rightarrow> char list" where
  "strncpy n src = take n (cstr src @ replicate n (CHR 0x00))"

lemma length_strncpy [simp]: "length (strncpy n src) = n"
  by (simp add: strncpy_def)

lemma length_cstr_less: "CHR 0x00 \<in> set b \<Longrightarrow> length (cstr b) < length b"
  by (induction b) (auto simp: cstr_def)

lemma cstr_append: "CHR 0x00 \<notin> set s \<Longrightarrow> cstr (s @ t) = s @ cstr t"
  by (induction s) (auto simp: cstr_def)

lemma cstr_strncpy_terminated:
  assumes "CHR 0x00 \<notin> set s" "n = Suc m" "k = m"
  shows "cstr ((strncpy n s)[k := CHR 0x00]) = take m s"
proof (cases "length s \<le> m")
  case True
  then have "\<exists>r. strncpy n s = s @ CHR 0x00 # replicate r (CHR 0x00) \<and> length s + r = m"
    using assms by (intro exI [where x = "m - length s"])
      (simp add: strncpy_def cstr_id Suc_diff_le flip: replicate_Suc)
  then obtain r where r: "strncpy n s = s @ CHR 0x00 # replicate r (CHR 0x00)" "length s + r = m"
    by blast
  have "\<exists>t. (strncpy n s)[k := CHR 0x00] = s @ CHR 0x00 # t"
  proof (cases "r = 0")
    case True
    then show ?thesis using r assms by (simp add: list_update_append)
  next
    case False
    then obtain j where "r = Suc j" using not0_implies_Suc by blast
    then show ?thesis using r assms by (auto simp: list_update_append split: nat.splits)
  qed
  then show ?thesis using True assms(1) by (auto simp: cstr_append) (simp add: cstr_def)
next
  case False
  then have "strncpy n s = take m s @ [s ! m]"
    using assms by (simp add: strncpy_def cstr_id take_Suc_conv_app_nth)
  then have "(strncpy n s)[k := CHR 0x00] = take m s @ [CHR 0x00]"
    using False assms by (simp add: list_update_append)
  moreover have "CHR 0x00 \<notin> set (take m s)" using assms(1) by (meson in_set_takeD)
  ultimately show ?thesis by (simp add: cstr_append) (simp add: cstr_def)
qed

section \<open>Numbers\<close>

definition isspace :: "char \<Rightarrow> bool" where
  "isspace c \<longleftrightarrow> c = CHR '' '' \<or> 9 \<le> (of_char c :: nat) \<and> (of_char c :: nat) \<le> 13"

definition isdigit :: "char \<Rightarrow> bool" where
  "isdigit c \<longleftrightarrow> 48 \<le> (of_char c :: nat) \<and> (of_char c :: nat) \<le> 57"

definition digit_val :: "char \<Rightarrow> int" where
  "digit_val c = of_char c - 48"

fun digits_val :: "int \<Rightarrow> string \<Rightarrow> int" where
  "digits_val acc (c # cs) = (if isdigit c then digits_val (10 * acc + digit_val c) cs else acc)"
| "digits_val acc [] = acc"

text \<open>\<open>strtol(s, NULL, 10)\<close> with a 64 bit \<open>long\<close>: blanks, a sign, digits; saturating.\<close>

definition clamp_long :: "int \<Rightarrow> int" where
  "clamp_long v = max (- (2 ^ 63)) (min (2 ^ 63 - 1) v)"

definition strtol10 :: "string \<Rightarrow> int" where
  "strtol10 s =
     (case dropWhile isspace (cstr s) of
        [] \<Rightarrow> 0
      | c # cs \<Rightarrow>
          clamp_long (if c = CHR ''-'' then - digits_val 0 cs
                      else if c = CHR ''+'' then digits_val 0 cs
                      else digits_val 0 (c # cs)))"

text \<open>The conversion of a \<open>long\<close> to a 32 bit \<open>int\<close>.\<close>

definition to_int32 :: "int \<Rightarrow> int" where
  "to_int32 v = signed_take_bit 31 v"

text \<open>Decimal printing, as \<open>%d\<close> does it.\<close>

fun nat_digits :: "nat \<Rightarrow> string" where
  "nat_digits n =
     (if n < 10 then [char_of (48 + n)] else nat_digits (n div 10) @ [char_of (48 + n mod 10)])"

declare nat_digits.simps [simp del]

definition int_digits :: "int \<Rightarrow> string" where
  "int_digits v = (if v < 0 then CHR ''-'' # nat_digits (nat (- v)) else nat_digits (nat v))"

lemma digit_char [simp]:
  assumes "d < 10"
  shows "isdigit (char_of (48 + d :: nat))" "digit_val (char_of (48 + d :: nat)) = int d"
proof -
  have n: "(of_char (char_of (48 + d :: nat) :: char) :: nat) = 48 + d"
    using assms by (simp add: of_char_of)
  then show "isdigit (char_of (48 + d :: nat))" using assms by (simp add: isdigit_def)
  have "(of_char (char_of (48 + d :: nat) :: char) :: int) = int (48 + d)"
    using n by (metis of_nat_of_char)
  then show "digit_val (char_of (48 + d :: nat)) = int d" by (simp add: digit_val_def)
qed

lemma digits_val_append:
  "\<forall>c \<in> set xs. isdigit c \<Longrightarrow> digits_val a (xs @ ys) = digits_val (digits_val a xs) ys"
  by (induction xs arbitrary: a) auto

lemma nat_digits_isdigit: "\<forall>c \<in> set (nat_digits n). isdigit c"
  by (induction n rule: nat_digits.induct) (subst nat_digits.simps, auto)

lemma nat_digits_val: "digits_val 0 (nat_digits n) = int n"
proof (induction n rule: nat_digits.induct)
  case (1 n)
  show ?case
  proof (cases "n < 10")
    case True
    then show ?thesis by (simp add: nat_digits.simps [of n])
  next
    case False
    have "int n = 10 * int (n div 10) + int (n mod 10)" by presburger
    then show ?thesis
      using False 1 nat_digits_isdigit [of "n div 10"]
      by (simp add: nat_digits.simps [of n] digits_val_append)
  qed
qed

lemma nat_digits_cons:
  obtains c cs where "nat_digits n = c # cs" "isdigit c"
  using nat_digits_isdigit [of n] by (cases "nat_digits n") (auto simp: nat_digits.simps [of n] split: if_splits)

lemma isdigit_props:
  assumes "isdigit c"
  shows "\<not> isspace c" "c \<noteq> CHR ''-''" "c \<noteq> CHR ''+''" "c \<noteq> CHR 0x00"
  using assms by (auto simp: isdigit_def isspace_def)

lemma cstr_nat_digits: "cstr (nat_digits n) = nat_digits n"
  using nat_digits_isdigit [of n] by (intro cstr_id) (auto simp: isdigit_def)

text \<open>\<open>strtol\<close> reads back what \<open>%d\<close> prints.\<close>

lemma strtol10_int_digits:
  assumes "- (2 ^ 63) \<le> v" "v < 2 ^ 63"
  shows "strtol10 (int_digits v) = v"
proof -
  have clamp: "clamp_long v = v" using assms by (simp add: clamp_long_def)
  obtain c cs where n: "nat_digits (nat v) = c # cs" "isdigit c" by (rule nat_digits_cons)
  have val: "digits_val 0 (c # cs) = int (nat v)" unfolding n(1) [symmetric] by (rule nat_digits_val)
  show ?thesis
  proof (cases "v < 0")
    case True
    have "cstr (int_digits v) = CHR ''-'' # nat_digits (nat (- v))"
      using True cstr_append [of "[CHR ''-'']" "nat_digits (nat (- v))"]
      by (simp add: int_digits_def cstr_nat_digits)
    then show ?thesis using True clamp nat_digits_val [of "nat (- v)"]
      by (simp add: strtol10_def isspace_def)
  next
    case False
    then have "cstr (int_digits v) = c # cs" by (metis cstr_nat_digits int_digits_def n(1))
    with False isdigit_props [OF n(2)] val clamp show ?thesis
      by (simp add: strtol10_def del: digits_val.simps)
  qed
qed

lemma to_int32_id: "- (2 ^ 31) \<le> v \<Longrightarrow> v < 2 ^ 31 \<Longrightarrow> to_int32 v = v"
  by (simp add: to_int32_def signed_take_bit_int_eq_self)

end
