(* ===== verification/Locmgr.thy ===== *)
theory Locmgr
  imports Cstdlib
begin

text \<open>
  The location manager of the daemon (\<open>src/sined/src/locmgr.c\<close>): the buffer that holds the name
  of the current place, the loop that reads new names from the terminal, and the call by which
  the policy engine copies the name out. The buffer is a list of \<open>LOC_BUF_SIZE\<close> characters.
\<close>

abbreviation (input) LOC_BUF_SIZE :: nat where "LOC_BUF_SIZE \<equiv> 16"

type_synonym locbuf = "char list"

text \<open>
  \<open>loc\<close> is the size of the caller's buffer, \<open>None\<close> for a NULL pointer. The result is the string
  that ends up in it with the code's 0, or -1 for the NULL pointer.
\<close>

definition locmgr_get_location :: "nat option \<Rightarrow> locbuf \<Rightarrow> (int \<times> string) cres" where
  "locmgr_get_location loc location =
     (case loc of
        None \<Rightarrow> Some (-1, [])
      | Some n \<Rightarrow>
          (case strcpy n location of
             None \<Rightarrow> None
           | Some s \<Rightarrow> Some (0, s)))"

text \<open>
  What one turn of the loop sees: a failing \<open>select\<close>, the exit pipe, a line (the result of
  \<open>getline\<close>, \<open>None\<close> when it returned at most 0), or nothing to read.
\<close>

datatype lm_event = Lm_select_fail | Lm_exit | Lm_line "string option" | Lm_idle

definition loc_line :: "string \<Rightarrow> string" where
  "loc_line l = takeWhile (\<lambda>c. c \<noteq> CHR 0x0A \<and> c \<noteq> CHR 0x00) l"

definition loc_store :: "string \<Rightarrow> locbuf" where
  "loc_store s = (strncpy LOC_BUF_SIZE s)[LOC_BUF_SIZE - 1 := CHR 0x00]"

text \<open>
  The loop, with the number of dumps of the connection table it asks for (the command \<open>l\<close>) and
  the policy engine's flag \<open>need_evaluation\<close>.
\<close>

record locmgr =
  lm_location :: locbuf
  lm_dumps :: nat
  lm_need :: bool

fun locmgr_main_loop :: "lm_event list \<Rightarrow> locmgr \<Rightarrow> locmgr" where
  "locmgr_main_loop [] lm = lm"
| "locmgr_main_loop (Lm_select_fail # _) lm = lm"
| "locmgr_main_loop (Lm_exit # _) lm = lm"
| "locmgr_main_loop (Lm_idle # es) lm = locmgr_main_loop es lm"
| "locmgr_main_loop (Lm_line None # es) lm = locmgr_main_loop es lm"
| "locmgr_main_loop (Lm_line (Some l) # es) lm =
     (let loc = loc_line l
      in if loc = ''l'' then locmgr_main_loop es (lm\<lparr>lm_dumps := Suc (lm_dumps lm)\<rparr>)
         else locmgr_main_loop es (lm\<lparr>lm_location := loc_store loc, lm_need := True\<rparr>))"

text \<open>\<open>strcpy(location, "columbia")\<close> leaves the rest of the static buffer as it was.\<close>

definition init_location_manager :: "int \<Rightarrow> locbuf \<Rightarrow> int \<times> locbuf" where
  "init_location_manager thread location =
     (let s = ''columbia'' @ [CHR 0x00]
      in (if thread = 0 then 0 else -1, s @ drop (length s) location))"

section \<open>Lemmas\<close>

text \<open>The buffer's invariant: its size, and a NUL inside it.\<close>

definition loc_ok :: "locbuf \<Rightarrow> bool" where
  "loc_ok b \<longleftrightarrow> length b = LOC_BUF_SIZE \<and> CHR 0x00 \<in> set b"

lemma loc_store_ok: "loc_ok (loc_store s)"
  unfolding loc_ok_def loc_store_def
  by (auto intro: set_update_memI)

lemma cstr_loc_store: "CHR 0x00 \<notin> set s \<Longrightarrow> cstr (loc_store s) = take 15 s"
  unfolding loc_store_def by (rule cstr_strncpy_terminated) simp_all

lemma loc_line_no_nul: "CHR 0x00 \<notin> set (loc_line l)"
  by (auto simp: loc_line_def dest: set_takeWhileD)

lemma get_location_ok:
  assumes "loc_ok b" shows "locmgr_get_location (Some LOC_BUF_SIZE) b = Some (0, cstr b)"
  using assms length_cstr_less [of b] by (simp add: loc_ok_def locmgr_get_location_def strcpy_def)

text \<open>The last line of an event list that sets the location before the loop ends.\<close>

fun last_location :: "lm_event list \<Rightarrow> string option \<Rightarrow> string option" where
  "last_location (Lm_idle # es) l = last_location es l"
| "last_location (Lm_line None # es) l = last_location es l"
| "last_location (Lm_line (Some x) # es) l =
     last_location es (if loc_line x = ''l'' then l else Some (loc_line x))"
| "last_location _ l = l"

lemma locmgr_main_loop_inv:
  assumes "loc_ok (lm_location lm)" "l = None \<longrightarrow> cstr (lm_location lm) = d"
    "\<forall>x. l = Some x \<longrightarrow> cstr (lm_location lm) = take 15 x"
  shows "loc_ok (lm_location (locmgr_main_loop es lm)) \<and>
    cstr (lm_location (locmgr_main_loop es lm)) =
      (case last_location es l of None \<Rightarrow> d | Some x \<Rightarrow> take 15 x)"
  using assms
proof (induction es lm arbitrary: l rule: locmgr_main_loop.induct)
  case (6 x es lm)
  show ?case
  proof (cases "loc_line x = ''l''")
    case True
    with 6 show ?thesis by simp
  next
    case False
    with 6(2) [of "loc_line x" "Some (loc_line x)"] show ?thesis
      by (simp add: Let_def loc_store_ok cstr_loc_store loc_line_no_nul)
  qed
qed (auto split: option.splits)

text \<open>
  C15. The location manager never hands out an unterminated name: started with the name
  \<open>columbia\<close>, whatever is read from the terminal, the copy the policy engine takes into its
  buffer of \<open>LOC_BUF_SIZE\<close> bytes stays inside it and is the last line read other than the
  command \<open>l\<close>, up to its newline and cut to 15 characters (\<open>columbia\<close> when there was none).
\<close>

theorem location_terminated:
  assumes "init_location_manager 0 (replicate LOC_BUF_SIZE (CHR 0x00)) = (0, b)"
    and "lm_location lm = b"
  shows "locmgr_get_location (Some LOC_BUF_SIZE) (lm_location (locmgr_main_loop es lm)) =
    Some (0, case last_location es None of None \<Rightarrow> ''columbia'' | Some x \<Rightarrow> take 15 x)"
proof -
  have "loc_ok (lm_location lm)" "cstr (lm_location lm) = ''columbia''"
    using assms by (auto simp: init_location_manager_def loc_ok_def cstr_def Let_def numeral_eq_Suc)
  with locmgr_main_loop_inv [of lm None "''columbia''" es] show ?thesis
    by (simp add: get_location_ok)
qed

theorem location_terminated_witness:
  "locmgr_get_location (Some LOC_BUF_SIZE)
     (lm_location (locmgr_main_loop [Lm_line (Some ''l''), Lm_line (Some (''home'' @ [CHR 0x0A]))]
        \<lparr>lm_location = snd (init_location_manager 0 (replicate LOC_BUF_SIZE (CHR 0x00))),
         lm_dumps = 0, lm_need = False\<rparr>)) = Some (0, ''home'')"
  using location_terminated [of "snd (init_location_manager 0 (replicate LOC_BUF_SIZE (CHR 0x00)))"
      "\<lparr>lm_location = snd (init_location_manager 0 (replicate LOC_BUF_SIZE (CHR 0x00))),
        lm_dumps = 0, lm_need = False\<rparr>"
      "[Lm_line (Some ''l''), Lm_line (Some (''home'' @ [CHR 0x0A]))]"]
  by (simp add: init_location_manager_def Let_def loc_line_def)

end
