(* ===== verification/Pe.thy ===== *)
theory Pe
  imports Netmgr Locmgr
begin

text \<open>
  The policy engine of the daemon (\<open>src/sined/src/pe.c\<close>): the policies and their rules, reading
  them from the policy file, and evaluating them for a connection. The XML library is a
  parameter: its comparison and its text extraction are the fields of \<open>xml_lib\<close>, a parsed file
  is the tree of its nodes.
\<close>

section \<open>Data\<close>

record rule =
  ruleID :: int
  rule_location :: "string option"
  bandwidth :: int
  cost :: int
  rule_interface :: "string option"

record policy =
  pol_app_desc :: "string option"
  rule_list :: "rule list"

text \<open>
  The engine's globals: the policies in list order, the flag, whether \<open>policy_mutex\<close> is held,
  how often it was unlocked while it was not, and what was given to \<open>xmlFree\<close> and \<open>free\<close>.
\<close>

datatype pe_free = Free_text string | Free_rule rule | Free_policy

record pe =
  policy_list :: "policy list"
  need_evaluation :: bool
  policy_mutex :: bool
  bad_unlocks :: nat
  pe_freed :: "pe_free list"

datatype xml_node = Xml (xml_name: string) (xml_content: string) (xml_children: "xml_node list")

record xml_lib =
  xmlStrcmp :: "string option \<Rightarrow> string option \<Rightarrow> int"
  xmlNodeListGetString :: "xml_node list \<Rightarrow> string option"

abbreviation (input) xml_is :: "xml_lib \<Rightarrow> xml_node \<Rightarrow> string \<Rightarrow> bool" where
  "xml_is lib cur s \<equiv> xmlStrcmp lib (Some (xml_name cur)) (Some s) = 0"

section \<open>Locks\<close>

text \<open>Locking a mutex the thread holds does not return; unlocking a free one is counted.\<close>

definition pe_lock :: "pe \<Rightarrow> pe cres" where
  "pe_lock s = (if policy_mutex s then None else Some (s\<lparr>policy_mutex := True\<rparr>))"

definition pe_unlock :: "pe \<Rightarrow> pe" where
  "pe_unlock s =
     (if policy_mutex s then s\<lparr>policy_mutex := False\<rparr> else s\<lparr>bad_unlocks := Suc (bad_unlocks s)\<rparr>)"

definition trigger_policy_engine :: "pe \<Rightarrow> pe" where
  "trigger_policy_engine s = s\<lparr>need_evaluation := True\<rparr>"

text \<open>The two loops of \<open>free_policies\<close>: each takes the first element of its list until there is none.\<close>

definition free_text :: "string option \<Rightarrow> pe_free list" where
  "free_text t = (case t of None \<Rightarrow> [] | Some x \<Rightarrow> [Free_text x])"

fun free_rules :: "rule list \<Rightarrow> pe \<Rightarrow> pe" where
  "free_rules [] s = s"
| "free_rules (r # rs) s =
     free_rules rs (s\<lparr>pe_freed := pe_freed s @ free_text (rule_location r) @
       free_text (rule_interface r) @ [Free_rule r]\<rparr>)"

lemma free_rules_result:
  "free_rules rs s = s\<lparr>pe_freed := pe_freed s @
     concat (map (\<lambda>r. free_text (rule_location r) @ free_text (rule_interface r) @ [Free_rule r]) rs)\<rparr>"
  by (induction rs s rule: free_rules.induct) simp_all

function free_policies_loop :: "pe \<Rightarrow> pe" where
  "free_policies_loop s =
     (case policy_list s of
        [] \<Rightarrow> s
      | p # ps \<Rightarrow>
          (let s1 = s\<lparr>pe_freed := pe_freed s @ free_text (pol_app_desc p)\<rparr>;
               s2 = free_rules (rule_list p) s1
           in free_policies_loop (s2\<lparr>policy_list := ps, pe_freed := pe_freed s2 @ [Free_policy]\<rparr>)))"
  by pat_completeness auto

termination
  by (relation "measure (\<lambda>s. length (policy_list s))") auto

declare free_policies_loop.simps [simp del]

definition free_policies :: "pe \<Rightarrow> pe cres" where
  "free_policies s = map_option (\<lambda>s1. pe_unlock (free_policies_loop s1)) (pe_lock s)"

text \<open>Everything the list owns is freed, once, and the list is empty.\<close>

definition policy_parts :: "policy \<Rightarrow> pe_free list" where
  "policy_parts p = free_text (pol_app_desc p) @
     concat (map (\<lambda>r. free_text (rule_location r) @ free_text (rule_interface r) @ [Free_rule r]) (rule_list p)) @
     [Free_policy]"

lemma free_policies_loop_result:
  "free_policies_loop s = s\<lparr>policy_list := [], pe_freed := pe_freed s @ concat (map policy_parts (policy_list s))\<rparr>"
proof (induction s rule: free_policies_loop.induct)
  case (1 s)
  then show ?case
    by (cases "policy_list s") (simp_all add: free_policies_loop.simps [of s] Let_def free_rules_result policy_parts_def)
qed

definition dump_policies :: "pe \<Rightarrow> pe cres" where
  "dump_policies s = map_option pe_unlock (pe_lock s)"

section \<open>Reading the policy file\<close>

text \<open>
  \<open>parse_rules\<close>: a number is read with \<open>strtol\<close>, which reads through a NULL pointer when the
  element has no text.
\<close>

definition xml_number :: "xml_lib \<Rightarrow> xml_node \<Rightarrow> int cres" where
  "xml_number lib cur =
     map_option (\<lambda>t. to_int32 (strtol10 t)) (xmlNodeListGetString lib (xml_children cur))"

fun parse_rules_loop :: "xml_lib \<Rightarrow> xml_node list \<Rightarrow> rule \<Rightarrow> rule cres" where
  "parse_rules_loop lib [] r = Some r"
| "parse_rules_loop lib (cur # rest) r =
     (if xml_is lib cur ''location'' then
        parse_rules_loop lib rest
          (r\<lparr>rule_location := xmlNodeListGetString lib (xml_children cur)\<rparr>)
      else if xml_is lib cur ''cost'' then
        (case xml_number lib cur of
           None \<Rightarrow> None | Some v \<Rightarrow> parse_rules_loop lib rest (r\<lparr>cost := v\<rparr>))
      else if xml_is lib cur ''bandwidth'' then
        (case xml_number lib cur of
           None \<Rightarrow> None | Some v \<Rightarrow> parse_rules_loop lib rest (r\<lparr>bandwidth := v\<rparr>))
      else if xml_is lib cur ''interface'' then
        parse_rules_loop lib rest
          (r\<lparr>rule_interface := xmlNodeListGetString lib (xml_children cur)\<rparr>)
      else parse_rules_loop lib rest r)"

definition parse_rules :: "xml_lib \<Rightarrow> xml_node \<Rightarrow> rule \<Rightarrow> rule cres" where
  "parse_rules lib cur r = parse_rules_loop lib (xml_children cur) r"

definition new_rule :: "int \<Rightarrow> rule" where
  "new_rule k = \<lparr>ruleID = k, rule_location = None, bandwidth = -1, cost = -1,
                 rule_interface = None\<rparr>"

text \<open>
  \<open>parse_policy\<close>; \<open>mem\<close> is the number of further calls of \<open>malloc\<close> that succeed, the one after
  them returns NULL and is written through. The counter \<open>k\<close> is the code's \<open>ruleID\<close>.
\<close>

fun parse_policy_loop ::
  "xml_lib \<Rightarrow> xml_node list \<Rightarrow> int \<Rightarrow> nat \<Rightarrow> policy \<Rightarrow> (nat \<times> policy) cres" where
  "parse_policy_loop lib [] k mem p = Some (mem, p)"
| "parse_policy_loop lib (cur # rest) k mem p =
     (if xml_is lib cur ''appDesc'' then
        parse_policy_loop lib rest k mem
          (p\<lparr>pol_app_desc := xmlNodeListGetString lib (xml_children cur)\<rparr>)
      else if xml_is lib cur ''rule'' then
        (case mem of
           0 \<Rightarrow> None
         | Suc mem' \<Rightarrow>
             (case parse_rules lib cur (new_rule (k + 1)) of
                None \<Rightarrow> None
              | Some r \<Rightarrow>
                  parse_policy_loop lib rest (k + 1) mem' (p\<lparr>rule_list := rule_list p @ [r]\<rparr>)))
      else parse_policy_loop lib rest k mem p)"

definition parse_policy :: "xml_lib \<Rightarrow> xml_node \<Rightarrow> nat \<Rightarrow> (nat \<times> policy) cres" where
  "parse_policy lib cur mem =
     parse_policy_loop lib (xml_children cur) 0 mem \<lparr>pol_app_desc = None, rule_list = []\<rparr>"

fun parse_policies_loop ::
  "xml_lib \<Rightarrow> xml_node list \<Rightarrow> nat \<Rightarrow> policy list \<Rightarrow> policy list cres" where
  "parse_policies_loop lib [] mem ps = Some ps"
| "parse_policies_loop lib (cur # rest) mem ps =
     (if xml_is lib cur ''policy'' then
        (case mem of
           0 \<Rightarrow> None
         | Suc mem' \<Rightarrow>
             (case parse_policy lib cur mem' of
                None \<Rightarrow> None
              | Some (mem'', p) \<Rightarrow> parse_policies_loop lib rest mem'' (ps @ [p])))
      else parse_policies_loop lib rest mem ps)"

text \<open>
  \<open>doc\<close> is what \<open>xmlParseFile\<close> returns (\<open>None\<close> for NULL) and inside it what
  \<open>xmlDocGetRootElement\<close> returns. The last unlock belongs to the label \<open>error\<close>, into which the
  successful path falls through after it has unlocked already.
\<close>

definition parse_policies :: "xml_lib \<Rightarrow> xml_node option option \<Rightarrow> nat \<Rightarrow> pe \<Rightarrow> pe cres" where
  "parse_policies lib doc mem s =
     (case free_policies s of
        None \<Rightarrow> None
      | Some s0 \<Rightarrow>
          (case pe_lock s0 of
             None \<Rightarrow> None
           | Some s1 \<Rightarrow>
               (case doc of
                  None \<Rightarrow> Some (pe_unlock s1)
                | Some None \<Rightarrow> Some (pe_unlock s1)
                | Some (Some root) \<Rightarrow>
                    if \<not> xml_is lib root ''UserPolicies'' then Some (pe_unlock s1)
                    else
                      (case parse_policies_loop lib (xml_children root) mem [] of
                         None \<Rightarrow> None
                       | Some ps \<Rightarrow>
                           (case dump_policies (pe_unlock (s1\<lparr>policy_list := ps\<rparr>)) of
                              None \<Rightarrow> None
                            | Some s2 \<Rightarrow> Some (pe_unlock (s2\<lparr>need_evaluation := True\<rparr>)))))))"

definition init_policy_engine ::
  "xml_lib \<Rightarrow> xml_node option option \<Rightarrow> nat \<Rightarrow> int \<Rightarrow> pe \<Rightarrow> (int \<times> pe) cres" where
  "init_policy_engine lib doc mem thread s =
     map_option (\<lambda>s1. (if thread = 0 then 0 else -1, s1)) (parse_policies lib doc mem s)"

section \<open>Evaluation\<close>

text \<open>
  \<open>evaluate_rule\<close>: the rule is taken when its location is the current one, its interface is up
  and the mobility protocol accepts it. The condition short-circuits, so the interface is only
  asked for at a matching location.
\<close>

definition evaluate_rule ::
  "xml_lib \<Rightarrow> mih_env \<Rightarrow> connection \<Rightarrow> rule \<Rightarrow> string \<Rightarrow> netmgr
     \<Rightarrow> (int \<times> connection \<times> netmgr) cres" where
  "evaluate_rule lib mih conn r location nm =
     (if xmlStrcmp lib (rule_location r) (Some location) \<noteq> 0 then Some (0, conn, nm)
      else
        (case netmgr_interface_on mih (rule_interface r) nm of
           None \<Rightarrow> None
         | Some (on, nm1) \<Rightarrow>
             if on = 0 then Some (0, conn, nm1)
             else
               (case netmgr_set_interface mih (addr conn) (rule_interface r) nm1 of
                  None \<Rightarrow> None
                | Some (e, nm2) \<Rightarrow>
                    if e = 0 then Some (1, conn\<lparr>active_rule := ruleID r\<rparr>, nm2)
                    else Some (0, conn, nm2))))"

text \<open>The inner loop; a rule that is taken leaves it.\<close>

fun evaluate_rules ::
  "xml_lib \<Rightarrow> mih_env \<Rightarrow> rule list \<Rightarrow> string \<Rightarrow> connection \<Rightarrow> netmgr \<Rightarrow> (connection \<times> netmgr) cres"
where
  "evaluate_rules lib mih [] location conn nm = Some (conn, nm)"
| "evaluate_rules lib mih (r # rs) location conn nm =
     (case evaluate_rule lib mih conn r location nm of
        None \<Rightarrow> None
      | Some (taken, conn', nm') \<Rightarrow>
          if taken \<noteq> 0 then Some (conn', nm') else evaluate_rules lib mih rs location conn' nm')"

fun evaluate_policies ::
  "xml_lib \<Rightarrow> mih_env \<Rightarrow> policy list \<Rightarrow> string \<Rightarrow> connection \<Rightarrow> netmgr
     \<Rightarrow> (connection \<times> netmgr) cres" where
  "evaluate_policies lib mih [] location conn nm = Some (conn, nm)"
| "evaluate_policies lib mih (p # ps) location conn nm =
     (if xmlStrcmp lib (pol_app_desc p) (app_desc conn) \<noteq> 0
      then evaluate_policies lib mih ps location conn nm
      else
        (case evaluate_rules lib mih (rule_list p) location conn nm of
           None \<Rightarrow> None
         | Some (conn', nm') \<Rightarrow> evaluate_policies lib mih ps location conn' nm'))"

definition evaluate ::
  "xml_lib \<Rightarrow> mih_env \<Rightarrow> locbuf \<Rightarrow> pe \<Rightarrow> connection \<Rightarrow> netmgr \<Rightarrow> (connection \<times> netmgr) cres"
where
  "evaluate lib mih locbuf s conn nm =
     (case locmgr_get_location (Some LOC_BUF_SIZE) locbuf of
        None \<Rightarrow> None
      | Some (_, location) \<Rightarrow>
          if policy_mutex s then None
          else evaluate_policies lib mih (policy_list s) location conn nm)"

definition evaluate_all ::
  "xml_lib \<Rightarrow> mih_env \<Rightarrow> locbuf \<Rightarrow> pe \<Rightarrow> connection hlist \<Rightarrow> netmgr
     \<Rightarrow> (connection hlist \<times> netmgr) cres" where
  "evaluate_all lib mih locbuf s tbl nm = hl_each (evaluate lib mih locbuf s) tbl nm"

section \<open>The engine's thread\<close>

text \<open>
  \<open>pe_main_loop\<close> beside the threads that call \<open>trigger_policy_engine\<close>: the thread tests the two
  flags, runs \<open>evaluate_all\<close>, clears \<open>need_evaluation\<close>, and starts over. Two history variables
  record whether a trigger has come since the last evaluation started (\<open>pt_stale\<close>) and whether
  one ever came while an evaluation was running (\<open>pt_during\<close>).
\<close>

datatype pe_pc = Pe_test | Pe_eval | Pe_clear | Pe_end

record pe_thread =
  pt_pc :: pe_pc
  pt_need :: bool
  pt_exit :: bool
  pt_evals :: nat
  pt_stale :: bool
  pt_during :: bool

inductive pe_step :: "pe_thread \<Rightarrow> pe_thread \<Rightarrow> bool" where
  pe_exit: "pt_pc t = Pe_test \<Longrightarrow> pt_exit t \<Longrightarrow> pe_step t (t\<lparr>pt_pc := Pe_end\<rparr>)"
| pe_spin: "pt_pc t = Pe_test \<Longrightarrow> \<not> pt_exit t \<Longrightarrow> \<not> pt_need t \<Longrightarrow> pe_step t t"
| pe_go: "pt_pc t = Pe_test \<Longrightarrow> \<not> pt_exit t \<Longrightarrow> pt_need t \<Longrightarrow>
    pe_step t (t\<lparr>pt_pc := Pe_eval, pt_stale := False\<rparr>)"
| pe_evaluate: "pt_pc t = Pe_eval \<Longrightarrow>
    pe_step t (t\<lparr>pt_pc := Pe_clear, pt_evals := Suc (pt_evals t)\<rparr>)"
| pe_reset: "pt_pc t = Pe_clear \<Longrightarrow> pe_step t (t\<lparr>pt_pc := Pe_test, pt_need := False\<rparr>)"
| env_trigger: "pe_step t (t\<lparr>pt_need := True, pt_stale := True,
    pt_during := pt_during t \<or> pt_pc t \<in> {Pe_eval, Pe_clear}\<rparr>)"
| env_exit: "pe_step t (t\<lparr>pt_exit := True\<rparr>)"

inductive_cases pe_stepE: "pe_step t t'"

definition pe_start :: "bool \<Rightarrow> pe_thread" where
  "pe_start need = \<lparr>pt_pc = Pe_test, pt_need = need, pt_exit = False, pt_evals = 0,
                    pt_stale = False, pt_during = False\<rparr>"

definition pe_reachable :: "pe_thread \<Rightarrow> bool" where
  "pe_reachable t \<longleftrightarrow> (\<exists>need. pe_step\<^sup>*\<^sup>* (pe_start need) t)"

definition pe_thread_inv :: "pe_thread \<Rightarrow> bool" where
  "pe_thread_inv t \<longleftrightarrow>
     (pt_pc t \<in> {Pe_eval, Pe_clear} \<longrightarrow> pt_need t \<and> (pt_stale t \<longrightarrow> pt_during t)) \<and>
     (pt_stale t \<and> \<not> pt_need t \<longrightarrow> pt_during t)"

lemma pe_thread_inv_step: "pe_step t t' \<Longrightarrow> pe_thread_inv t \<Longrightarrow> pe_thread_inv t'"
  by (erule pe_stepE) (auto simp: pe_thread_inv_def)

lemma pe_thread_inv_reachable:
  assumes "pe_reachable t"
  shows "pe_thread_inv t"
proof -
  from assms obtain need where "pe_step\<^sup>*\<^sup>* (pe_start need) t" by (auto simp: pe_reachable_def)
  then show ?thesis
  proof (induction rule: rtranclp_induct)
    case base
    then show ?case by (simp add: pe_thread_inv_def pe_start_def)
  next
    case (step y z)
    then show ?case using pe_thread_inv_step by blast
  qed
qed

section \<open>Reading back a printed policy file\<close>

text \<open>The elements a policy file has for a list of policies, as \<open>sine_policy.conf\<close> has them.\<close>

definition text_elem :: "string \<Rightarrow> string \<Rightarrow> xml_node" where
  "text_elem name t = Xml name [] [Xml ''text'' t []]"

definition opt_elem :: "string \<Rightarrow> string option \<Rightarrow> xml_node list" where
  "opt_elem name x = (case x of None \<Rightarrow> [] | Some t \<Rightarrow> [text_elem name t])"

definition rule_xml :: "rule \<Rightarrow> xml_node" where
  "rule_xml r = Xml ''rule'' []
     (opt_elem ''location'' (rule_location r) @
      [text_elem ''bandwidth'' (int_digits (bandwidth r)), text_elem ''cost'' (int_digits (cost r))] @
      opt_elem ''interface'' (rule_interface r))"

definition policy_xml :: "policy \<Rightarrow> xml_node" where
  "policy_xml p = Xml ''policy'' []
     (opt_elem ''appDesc'' (pol_app_desc p) @ map rule_xml (rule_list p))"

definition policies_xml :: "policy list \<Rightarrow> xml_node" where
  "policies_xml ps = Xml ''UserPolicies'' [] (map policy_xml ps)"

text \<open>
  What is relied on of the XML library, from its documentation: \<open>xmlStrcmp\<close> is 0 exactly on equal
  arguments (two NULL pointers included), and the text of an element with one text node is that
  node's content.
\<close>

definition xml_cmp_ok :: "xml_lib \<Rightarrow> bool" where
  "xml_cmp_ok lib \<longleftrightarrow> (\<forall>a b. xmlStrcmp lib a b = 0 \<longleftrightarrow> a = b)"

definition xml_text_ok :: "xml_lib \<Rightarrow> bool" where
  "xml_text_ok lib \<longleftrightarrow> (\<forall>t. t \<noteq> [] \<longrightarrow> xmlNodeListGetString lib [Xml ''text'' t []] = Some t)"

text \<open>An instance of the library for concrete runs.\<close>

definition xml_ref :: xml_lib where
  "xml_ref = \<lparr>xmlStrcmp = (\<lambda>a b. if a = b then 0 else 1),
     xmlNodeListGetString = (\<lambda>ns. case ns of [] \<Rightarrow> None | n # _ \<Rightarrow> Some (xml_content n))\<rparr>"

lemma xml_ref_ok [simp]: "xml_cmp_ok xml_ref" "xml_text_ok xml_ref"
  by (simp_all add: xml_cmp_ok_def xml_text_ok_def xml_ref_def)

lemma xml_cmpD [simp]: "xml_cmp_ok lib \<Longrightarrow> xmlStrcmp lib a b = 0 \<longleftrightarrow> a = b"
  by (simp add: xml_cmp_ok_def)

definition int32 :: "int \<Rightarrow> bool" where "int32 v \<longleftrightarrow> - (2 ^ 31) \<le> v \<and> v < 2 ^ 31"

definition rule_wf :: "rule \<Rightarrow> bool" where
  "rule_wf r \<longleftrightarrow> rule_location r \<noteq> Some [] \<and> rule_interface r \<noteq> Some [] \<and>
     int32 (bandwidth r) \<and> int32 (cost r)"

definition policy_wf :: "policy \<Rightarrow> bool" where
  "policy_wf p \<longleftrightarrow> pol_app_desc p \<noteq> Some [] \<and> (\<forall>r \<in> set (rule_list p). rule_wf r) \<and>
     map ruleID (rule_list p) = map int [1 ..< Suc (length (rule_list p))]"

lemma int_digits_nonempty [simp]: "int_digits v \<noteq> []"
  by (simp add: int_digits_def nat_digits.simps)

lemma xml_number_text:
  assumes "xml_text_ok lib" "int32 v"
  shows "xml_number lib (text_elem name (int_digits v)) = Some v"
proof -
  have "to_int32 (strtol10 (int_digits v)) = v"
    using assms(2) strtol10_int_digits [of v] to_int32_id [of v] by (simp add: int32_def)
  then show ?thesis using assms(1) by (simp add: xml_number_def text_elem_def xml_text_ok_def)
qed

lemma parse_rules_print:
  assumes "xml_cmp_ok lib" "xml_text_ok lib" "rule_wf r"
  shows "parse_rules lib (rule_xml r) (new_rule (ruleID r)) = Some r"
  using assms xml_number_text [OF assms(2)]
  by (cases r; cases "rule_location r"; cases "rule_interface r")
    (auto simp: parse_rules_def rule_xml_def opt_elem_def new_rule_def rule_wf_def text_elem_def
      xml_text_ok_def)

lemma parse_policy_loop_rules:
  assumes "xml_cmp_ok lib" "xml_text_ok lib" "\<forall>r \<in> set rs. rule_wf r"
    "map ruleID rs = map int [Suc k ..< Suc (k + length rs)]" "length rs \<le> mem"
  shows "parse_policy_loop lib (map rule_xml rs) (int k) mem p =
    Some (mem - length rs, p\<lparr>rule_list := rule_list p @ rs\<rparr>)"
  using assms(3-)
proof (induction rs arbitrary: k mem p)
  case Nil
  then show ?case by simp
next
  case (Cons r rs)
  from Cons.prems(3) obtain m where m: "mem = Suc m" by (cases mem) auto
  have id: "ruleID r = int k + 1" and ids: "map ruleID rs = map int [Suc (Suc k) ..< Suc (Suc k + length rs)]"
    using Cons.prems(2) by (simp_all add: upt_rec [of "Suc k"] del: upt_Suc)
  have "xml_name (rule_xml r) = ''rule''" by (simp add: rule_xml_def)
  moreover have "parse_rules lib (rule_xml r) (new_rule (int k + 1)) = Some r"
    using parse_rules_print [OF assms(1,2), of r] Cons.prems(1) id by simp
  ultimately show ?case
    using Cons.IH [OF _ ids, of m "p\<lparr>rule_list := rule_list p @ [r]\<rparr>"] Cons.prems assms(1) m
    by (simp add: add.commute)
qed

lemma parse_policy_print:
  assumes "xml_cmp_ok lib" "xml_text_ok lib" "policy_wf p" "length (rule_list p) \<le> mem"
  shows "parse_policy lib (policy_xml p) mem = Some (mem - length (rule_list p), p)"
proof -
  let ?rs = "rule_list p"
  have rules: "parse_policy_loop lib (map rule_xml ?rs) 0 mem q =
      Some (mem - length ?rs, q\<lparr>rule_list := rule_list q @ ?rs\<rparr>)" for q
    using parse_policy_loop_rules [OF assms(1,2), of ?rs 0 mem q] assms(3,4)
    by (simp add: policy_wf_def)
  show ?thesis
    using assms(1-3) rules
    by (cases p; cases "pol_app_desc p")
      (auto simp: parse_policy_def policy_xml_def opt_elem_def text_elem_def policy_wf_def
        xml_text_ok_def)
qed

definition policies_mem :: "policy list \<Rightarrow> nat" where
  "policies_mem ps = sum_list (map (\<lambda>p. Suc (length (rule_list p))) ps)"

lemma parse_policies_loop_print:
  assumes "xml_cmp_ok lib" "xml_text_ok lib" "\<forall>p \<in> set ps. policy_wf p" "policies_mem ps \<le> mem"
  shows "parse_policies_loop lib (map policy_xml ps) mem acc = Some (acc @ ps)"
  using assms(3-)
proof (induction ps arbitrary: mem acc)
  case Nil
  then show ?case by simp
next
  case (Cons p ps)
  from Cons.prems(2) obtain m where m: "mem = Suc m" "length (rule_list p) \<le> m"
    "policies_mem ps \<le> m - length (rule_list p)"
    by (cases mem) (auto simp: policies_mem_def)
  have "xml_name (policy_xml p) = ''policy''" by (simp add: policy_xml_def)
  then show ?case
    using parse_policy_print [OF assms(1,2) _ m(2)] Cons.prems(1) Cons.IH [OF _ m(3)] assms(1) m(1)
    by simp
qed

section \<open>The shape of what is read\<close>

definition ids_ok :: "policy \<Rightarrow> bool" where
  "ids_ok p \<longleftrightarrow> map ruleID (rule_list p) = map int [1 ..< Suc (length (rule_list p))]"

lemma parse_rules_loop_id: "parse_rules_loop lib ns r = Some r' \<Longrightarrow> ruleID r' = ruleID r"
  by (induction lib ns r rule: parse_rules_loop.induct) (auto split: if_splits option.splits)

lemma parse_policy_loop_ids:
  assumes "parse_policy_loop lib ns k mem p = Some (mem', p')" "k = int (length (rule_list p))"
    "ids_ok p"
  shows "ids_ok p'"
  using assms
proof (induction lib ns k mem p rule: parse_policy_loop.induct)
  case (2 lib cur rest k mem p)
  have snoc: "ids_ok (p\<lparr>rule_list := rule_list p @ [r]\<rparr>)"
    if "parse_rules lib cur (new_rule (k + 1)) = Some r" for r
    using that 2(6,5) parse_rules_loop_id [of lib "xml_children cur" "new_rule (k + 1)" r]
    by (simp add: ids_ok_def parse_rules_def new_rule_def)
  show ?case
  proof (cases "xml_is lib cur ''appDesc''")
    case True
    with 2 show ?thesis by (simp add: ids_ok_def)
  next
    case False
    with 2 snoc show ?thesis by (auto split: if_splits option.splits nat.splits)
  qed
qed simp

lemma parse_policies_loop_ids:
  assumes "parse_policies_loop lib ns mem ps = Some ps'" "\<forall>p \<in> set ps. ids_ok p"
  shows "\<forall>p \<in> set ps'. ids_ok p"
  using assms
proof (induction lib ns mem ps rule: parse_policies_loop.induct)
  case (2 lib cur rest mem ps)
  have "ids_ok p" if "parse_policy lib cur m = Some (m', p)" for m m' p
    using parse_policy_loop_ids that unfolding parse_policy_def by (fastforce simp: ids_ok_def)
  with 2 show ?case by (auto split: if_splits option.splits nat.splits prod.splits)
qed simp

text \<open>
  C8. Reading back: the policy file printed for well-formed policies (rules numbered from 1,
  numbers in the range of an \<open>int\<close>, no empty strings) parses to exactly those policies and asks
  for an evaluation, provided memory lasts for one node per policy and rule.
\<close>

theorem parse_policies_roundtrip:
  assumes "xml_cmp_ok lib" "xml_text_ok lib" "\<forall>p \<in> set ps. policy_wf p" "policies_mem ps \<le> mem"
    and "\<not> policy_mutex s"
  shows "\<exists>s'. parse_policies lib (Some (Some (policies_xml ps))) mem s = Some s' \<and>
    policy_list s' = ps \<and> need_evaluation s' \<and> \<not> policy_mutex s'"
  using assms parse_policies_loop_print [OF assms(1-4), of "[]"]
  by (simp add: parse_policies_def free_policies_def free_policies_loop_result dump_policies_def pe_lock_def pe_unlock_def
      policies_xml_def)

definition vlc_policy :: policy where
  "vlc_policy = \<lparr>pol_app_desc = Some ''/usr/bin/vlc'', rule_list =
     [\<lparr>ruleID = 1, rule_location = Some ''columbia'', bandwidth = -1, cost = -1,
       rule_interface = Some ''wlan0''\<rparr>,
      \<lparr>ruleID = 2, rule_location = Some ''home'', bandwidth = 100, cost = 10,
       rule_interface = Some ''ppp0''\<rparr>]\<rparr>"

definition pe_zero :: pe where
  "pe_zero = \<lparr>policy_list = [], need_evaluation = False, policy_mutex = False, bad_unlocks = 0, pe_freed = []\<rparr>"

theorem parse_policies_roundtrip_witness:
  "\<exists>s'. parse_policies xml_ref (Some (Some (policies_xml [vlc_policy]))) 3 pe_zero = Some s' \<and>
     policy_list s' = [vlc_policy] \<and> need_evaluation s' \<and> \<not> policy_mutex s'"
  by (rule parse_policies_roundtrip)
    (simp_all add: vlc_policy_def policy_wf_def rule_wf_def int32_def policies_mem_def pe_zero_def)

text \<open>
  C9. Whatever the file holds, a return of \<open>parse_policies\<close> leaves the mutex free and either no
  policy at all with the flag as it was (the file was missing, empty or of the wrong type), or
  policies whose rules are numbered 1, 2, ... in their order and the flag set; in the second case,
  and only there, \<open>policy_mutex\<close> has been unlocked once more than it was locked.
\<close>

theorem parse_policies_shape:
  assumes "\<not> policy_mutex s" "parse_policies lib doc mem s = Some s'"
  shows "\<not> policy_mutex s' \<and>
    (policy_list s' = [] \<and> need_evaluation s' = need_evaluation s \<and> bad_unlocks s' = bad_unlocks s \<or>
     (\<forall>p \<in> set (policy_list s').
        map ruleID (rule_list p) = map int [1 ..< Suc (length (rule_list p))]) \<and>
     need_evaluation s' \<and> bad_unlocks s' = Suc (bad_unlocks s))"
  using assms parse_policies_loop_ids [where ps = "[]"]
  by (fastforce simp: parse_policies_def free_policies_def free_policies_loop_result dump_policies_def pe_lock_def pe_unlock_def
      ids_ok_def split: option.splits if_splits)

theorem parse_policies_shape_witness:
  "\<exists>s'. parse_policies xml_ref (Some (Some (Xml ''UserPolicies'' []
      [Xml ''policy'' [] [Xml ''rule'' [] [], Xml ''rule'' [] []]]))) 3 pe_zero = Some s' \<and>
    \<not> policy_mutex s' \<and> bad_unlocks s' = 1"
proof -
  let ?doc = "Some (Some (Xml ''UserPolicies'' []
      [Xml ''policy'' [] [Xml ''rule'' [] [], Xml ''rule'' [] []]]))"
  obtain s' where s': "parse_policies xml_ref ?doc 3 pe_zero = Some s'" "policy_list s' \<noteq> []"
    by (simp add: parse_policies_def free_policies_def free_policies_loop_result dump_policies_def pe_lock_def pe_unlock_def
        pe_zero_def xml_ref_def parse_policy_def parse_rules_def numeral_eq_Suc)
  show ?thesis
    using parse_policies_shape [OF _ s'(1)] s' by (auto simp: pe_zero_def)
qed

section \<open>Evaluation\<close>

definition rules_at :: "string option \<Rightarrow> string \<Rightarrow> policy list \<Rightarrow> rule set" where
  "rules_at app location ps =
     {r. \<exists>p \<in> set ps. pol_app_desc p = app \<and> r \<in> set (rule_list p) \<and> rule_location r = Some location}"

lemma evaluate_rule_cases:
  assumes "evaluate_rule lib mih conn r location nm = Some (t, conn', nm')" "xml_cmp_ok lib"
  shows "t = 0 \<and> conn' = conn \<or>
    t = 1 \<and> rule_location r = Some location \<and> conn' = conn\<lparr>active_rule := ruleID r\<rparr>"
  using assms by (auto simp: evaluate_rule_def split: if_splits option.splits)

lemma evaluate_rules_sound:
  assumes "evaluate_rules lib mih rs location conn nm = Some (conn', nm')" "xml_cmp_ok lib"
  shows "conn' = conn \<or>
    (\<exists>r \<in> set rs. rule_location r = Some location \<and> conn' = conn\<lparr>active_rule := ruleID r\<rparr>)"
  using assms
proof (induction rs arbitrary: conn nm)
  case (Cons r rs)
  then show ?case
    using evaluate_rule_cases [of lib mih conn r location nm] Cons.IH
    by (fastforce split: option.splits if_splits prod.splits)
qed simp

lemma evaluate_policies_sound:
  assumes "evaluate_policies lib mih ps location conn nm = Some (conn', nm')" "xml_cmp_ok lib"
  shows "conn' = conn \<or>
    (\<exists>r \<in> rules_at (app_desc conn) location ps. conn' = conn\<lparr>active_rule := ruleID r\<rparr>)"
  using assms
proof (induction ps arbitrary: conn nm)
  case (Cons p ps)
  show ?case
  proof (cases "pol_app_desc p = app_desc conn")
    case True
    then obtain conn1 nm1 where ev: "evaluate_rules lib mih (rule_list p) location conn nm = Some (conn1, nm1)"
      "evaluate_policies lib mih ps location conn1 nm1 = Some (conn', nm')"
      using Cons.prems by (auto split: option.splits)
    from evaluate_rules_sound [OF ev(1) Cons.prems(2)]
    have c1: "conn1 = conn \<or>
        (\<exists>r \<in> rules_at (app_desc conn) location (p # ps). conn1 = conn\<lparr>active_rule := ruleID r\<rparr>)"
      using True by (auto simp: rules_at_def)
    from Cons.IH [OF ev(2) Cons.prems(2)]
    have "conn' = conn1 \<or> (\<exists>r \<in> rules_at (app_desc conn1) location (p # ps).
        conn' = conn1\<lparr>active_rule := ruleID r\<rparr>)"
      by (auto simp: rules_at_def)
    moreover have "app_desc conn1 = app_desc conn" using c1 by auto
    ultimately show ?thesis using c1 by auto
  next
    case False
    with Cons show ?thesis by (auto simp: rules_at_def)
  qed
qed simp

text \<open>
  C10. Whatever the network answers, an evaluation that returns either leaves the connection as it
  was or changes nothing but its active rule, which is then a rule of a policy for the
  connection's application at the current location.
\<close>

theorem evaluate_sound:
  assumes "xml_cmp_ok lib" "loc_ok buf" "evaluate lib mih buf s conn nm = Some (conn', nm')"
  shows "conn' = conn \<or>
    (\<exists>r. r \<in> rules_at (app_desc conn) (cstr buf) (policy_list s) \<and>
       conn' = conn\<lparr>active_rule := ruleID r\<rparr>)"
  using assms evaluate_policies_sound [of lib mih "policy_list s" "cstr buf" conn nm conn' nm']
  by (auto simp: evaluate_def get_location_ok split: if_splits)

theorem evaluate_sound_witness:
  "\<exists>conn' nm'. evaluate xml_ref (\<lambda>_ _. \<lparr>env_socket = 7, env_setsockopt = 0, env_sendto = 6,
        env_recv = Some ''up''\<rparr>) (loc_store ''columbia'') (pe_zero\<lparr>policy_list := [vlc_policy]\<rparr>)
      \<lparr>appID = 42, app_desc = Some ''/usr/bin/vlc'', sockfd = 5, addrlen = 16,
       addr = Some (Sockaddr_in 0x01020304 80), protocol = 0, active_rule = 0\<rparr>
      \<lparr>link_tbl = \<lparr>hl_mem = Map.empty, hl_head = 0, hl_tail = 0\<rparr>, info_sock = -1,
       event_sock = -1, nm_calls = 0, nm_sent = [], nm_closed = []\<rparr> = Some (conn', nm') \<and>
    (\<exists>r. r \<in> rules_at (Some ''/usr/bin/vlc'') ''columbia'' [vlc_policy] \<and>
       active_rule conn' = ruleID r)"
proof -
  let ?mih = "\<lambda>_ _. \<lparr>env_socket = 7, env_setsockopt = 0, env_sendto = 6, env_recv = Some ''up''\<rparr>"
  let ?s = "pe_zero\<lparr>policy_list := [vlc_policy]\<rparr>"
  let ?c = "\<lparr>appID = 42, app_desc = Some ''/usr/bin/vlc'', sockfd = 5, addrlen = 16,
       addr = Some (Sockaddr_in 0x01020304 80), protocol = 0, active_rule = 0\<rparr>"
  let ?nm = "\<lparr>link_tbl = \<lparr>hl_mem = Map.empty, hl_head = 0, hl_tail = 0\<rparr>, info_sock = -1,
       event_sock = -1, nm_calls = 0, nm_sent = [], nm_closed = []\<rparr>"
  have loc: "cstr (loc_store ''columbia'') = ''columbia''" by (simp add: cstr_loc_store)
  obtain conn' nm' where ev: "evaluate xml_ref ?mih (loc_store ''columbia'') ?s ?c ?nm =
      Some (conn', nm')" "active_rule conn' = 1"
    using loc by (simp add: evaluate_def get_location_ok loc_store_ok pe_zero_def vlc_policy_def
        xml_ref_def evaluate_rule_def netmgr_interface_on_def sprintf_req_def netmgr_send_info_def
        info_open_def Let_def cstr_def netmgr_set_interface_def netmgr_request_def hip_mask_v4_def
        hip_addr_v4_def)
  show ?thesis
    using evaluate_sound [OF xml_ref_ok(1) loc_store_ok ev(1)] ev loc by auto
qed

section \<open>What the connection manager relies on\<close>

text \<open>
  The contract of an evaluator of rules, as the connection manager and \<open>evaluate_all\<close> use it:
  when it returns, only the active rule of the connection may have changed.
\<close>

locale rule_evaluator =
  fixes ev :: "connection \<Rightarrow> 't \<Rightarrow> (connection \<times> 't) cres"
  assumes ev_keeps: "ev c t = Some (c', t') \<Longrightarrow> \<exists>r. c' = c\<lparr>active_rule := r\<rparr>"
begin

lemma ev_key:
  assumes "ev c t = Some (c', t')"
  shows "appID c' = appID c \<and> sockfd c' = sockfd c \<and> app_desc c' = app_desc c \<and> addr c' = addr c"
  using ev_keeps [OF assms] by auto

lemma each_keys:
  "list_each ev cs t = Some (cs', t') \<Longrightarrow>
     map (\<lambda>c. (appID c, sockfd c)) cs' = map (\<lambda>c. (appID c, sockfd c)) cs"
proof (induction cs arbitrary: t cs')
  case (Cons c cs)
  then obtain c1 t1 cs1 where "ev c t = Some (c1, t1)" "list_each ev cs t1 = Some (cs1, t')"
    "cs' = c1 # cs1"
    by (auto split: option.splits)
  with ev_key [of c t c1 t1] Cons.IH show ?case by simp
qed simp

end

lemma evaluate_rules_keeps:
  "evaluate_rules lib mih rs location c t = Some (c', t') \<Longrightarrow> \<exists>r. c' = c\<lparr>active_rule := r\<rparr>"
proof (induction rs arbitrary: c t)
  case Nil
  then show ?case by (auto intro!: exI [where x = "active_rule c"])
next
  case (Cons x rs)
  have "\<exists>r. c1 = c\<lparr>active_rule := r\<rparr>"
    if "evaluate_rule lib mih c x location t = Some (k, c1, t1)" for k c1 t1
  proof -
    have "c1 = c\<lparr>active_rule := active_rule c\<rparr> \<or> c1 = c\<lparr>active_rule := ruleID x\<rparr>"
      using that by (auto simp: evaluate_rule_def split: if_splits option.splits)
    then show ?thesis by blast
  qed
  with Cons show ?case by (fastforce split: option.splits if_splits prod.splits)
qed

lemma evaluate_policies_keeps:
  "evaluate_policies lib mih ps location c t = Some (c', t') \<Longrightarrow> \<exists>r. c' = c\<lparr>active_rule := r\<rparr>"
proof (induction ps arbitrary: c t)
  case Nil
  then show ?case by (auto intro!: exI [where x = "active_rule c"])
next
  case (Cons p ps)
  then show ?case
    using evaluate_rules_keeps [of lib mih "rule_list p" location c t]
    by (fastforce split: option.splits if_splits prod.splits)
qed

interpretation pe_ev: rule_evaluator "evaluate lib mih buf s" for lib mih buf s
  by unfold_locales
    (auto simp: evaluate_def split: option.splits if_splits dest: evaluate_policies_keeps)

section \<open>Evaluation with a steady network\<close>

text \<open>
  A user of MIH whose answers do not change: the interfaces in \<open>U\<close> are up, the others are down,
  and every request to a mobility protocol is acknowledged.
\<close>

definition steady_mih :: "string set \<Rightarrow> mih_env \<Rightarrow> bool" where
  "steady_mih U mih \<longleftrightarrow>
     (\<forall>k req. 0 \<le> env_socket (mih k req) \<and> env_setsockopt (mih k req) = 0 \<and>
        0 \<le> env_sendto (mih k req)) \<and>
     (\<forall>k n. env_recv (mih k (''e '' @ n)) = Some (if n \<in> U then ''up'' else ''down'')) \<and>
     (\<forall>k n. \<forall>c \<in> {CHR ''h'', CHR ''g'', CHR ''m''}. env_recv (mih k (c # '' '' @ n)) = Some ''ok'')"

definition names_ok :: "policy list \<Rightarrow> bool" where
  "names_ok ps \<longleftrightarrow> (\<forall>p \<in> set ps. \<forall>r \<in> set (rule_list p).
     case rule_interface r of None \<Rightarrow> False | Some n \<Rightarrow> length n \<le> 29)"

text \<open>
  What should be active: of the policies for the application that have an applicable rule, the
  last one decides, by its first applicable rule; with no such policy the active rule stays.
\<close>

definition applicable :: "string set \<Rightarrow> string \<Rightarrow> rule \<Rightarrow> bool" where
  "applicable U location r \<longleftrightarrow> rule_location r = Some location \<and>
     (case rule_interface r of None \<Rightarrow> False | Some n \<Rightarrow> n \<in> U)"

definition policy_choices :: "string set \<Rightarrow> string \<Rightarrow> string option \<Rightarrow> policy list \<Rightarrow> int list" where
  "policy_choices U location app ps =
     List.map_filter
       (\<lambda>p. map_option ruleID (find (applicable U location) (rule_list p)))
       (filter (\<lambda>p. pol_app_desc p = app) ps)"

definition chosen_rule :: "string set \<Rightarrow> string \<Rightarrow> string option \<Rightarrow> policy list \<Rightarrow> int \<Rightarrow> int" where
  "chosen_rule U location app ps old = last (old # policy_choices U location app ps)"

lemma steady_send:
  assumes "steady_mih U mih" "env_recv (mih (nm_calls nm) req) = Some bs" "length bs < IPC_BUF_SIZE"
  shows "\<exists>nm'. netmgr_send_info mih req nm = Some (cstr bs, nm')"
proof -
  have "\<not> env_socket (mih (nm_calls nm) req) < 0" "env_setsockopt (mih (nm_calls nm) req) = 0"
    "\<not> env_sendto (mih (nm_calls nm) req) < 0"
    using assms(1) by (simp_all add: steady_mih_def not_less)
  then show ?thesis
    using assms(2,3) by (simp add: netmgr_send_info_def info_open_def Let_def)
qed

lemma steady_on:
  assumes "steady_mih U mih" "length n \<le> 29"
  shows "\<exists>nm'. netmgr_interface_on mih (Some n) nm = Some (if n \<in> U then 1 else 0, nm')"
proof -
  have "env_recv (mih (nm_calls nm) (CHR ''e'' # CHR '' '' # n)) =
      Some (if n \<in> U then ''up'' else ''down'')"
    using assms(1) by (simp add: steady_mih_def)
  moreover have "length (if n \<in> U then ''up'' else ''down'') < IPC_BUF_SIZE" by simp
  ultimately obtain nm' where
    "netmgr_send_info mih (CHR ''e'' # CHR '' '' # n) nm =
       Some (cstr (if n \<in> U then ''up'' else ''down''), nm')"
    using steady_send [OF assms(1)] by blast
  then show ?thesis using assms(2) by (simp add: netmgr_interface_on_def sprintf_req_def cstr_def)
qed

lemma steady_request:
  assumes "steady_mih U mih" "length n \<le> 29" "c \<in> {CHR ''h'', CHR ''g'', CHR ''m''}"
  shows "\<exists>nm'. netmgr_request mih c (Some n) nm = Some (True, nm')"
proof -
  have "env_recv (mih (nm_calls nm) (c # CHR '' '' # n)) = Some ''ok''"
    using assms(1,3) by (auto simp: steady_mih_def)
  from steady_send [OF assms(1) this] obtain nm' where
    "netmgr_send_info mih (c # CHR '' '' # n) nm = Some (cstr ''ok'', nm')" by auto
  then show ?thesis using assms(2) by (simp add: netmgr_request_def sprintf_req_def cstr_def)
qed

lemma steady_set:
  assumes "steady_mih U mih" "length n \<le> 29"
  shows "\<exists>nm'. netmgr_set_interface mih (Some sa) (Some n) nm = Some (0, nm')"
proof -
  obtain nm1 where h: "netmgr_request mih (CHR ''h'') (Some n) nm = Some (True, nm1)"
    using steady_request [OF assms, of "CHR ''h''" nm] by auto
  obtain nm2 where g: "netmgr_request mih (CHR ''g'') (Some n) nm1 = Some (True, nm2)"
    using steady_request [OF assms, of "CHR ''g''" nm1] by auto
  obtain nm3 where m: "netmgr_request mih (CHR ''m'') (Some n) nm = Some (True, nm3)"
    using steady_request [OF assms, of "CHR ''m''" nm] by auto
  show ?thesis
    using h g m by (cases "is_hip_addr sa"; cases sa) (simp_all add: netmgr_set_interface_def)
qed

definition act :: "rule option \<Rightarrow> connection \<Rightarrow> connection" where
  "act ro conn = (case ro of None \<Rightarrow> conn | Some r \<Rightarrow> conn\<lparr>active_rule := ruleID r\<rparr>)"

lemma act_simps [simp]:
  "act None conn = conn" "act (Some r) conn = conn\<lparr>active_rule := ruleID r\<rparr>"
  "app_desc (act ro conn) = app_desc conn" "addr (act ro conn) = addr conn"
  by (simp_all add: act_def split: option.splits)

lemma steady_evaluate_rule:
  assumes "xml_cmp_ok lib" "steady_mih U mih" "addr conn = Some sa"
    "rule_interface r = Some n" "length n \<le> 29"
  shows "\<exists>nm'. evaluate_rule lib mih conn r location nm =
    Some (if applicable U location r then (1, act (Some r) conn, nm') else (0, conn, nm'))"
proof -
  from steady_on [OF assms(2,5)] obtain nm1 where
    on: "netmgr_interface_on mih (Some n) nm = Some (if n \<in> U then 1 else 0, nm1)" by blast
  from steady_set [OF assms(2,5)] obtain nm2 where
    "netmgr_set_interface mih (Some sa) (Some n) nm1 = Some (0, nm2)" by blast
  with on assms(1,3,4) show ?thesis
    by (auto simp: evaluate_rule_def applicable_def)
qed

lemma steady_evaluate_rules:
  assumes "xml_cmp_ok lib" "steady_mih U mih" "addr conn = Some sa"
    "\<forall>r \<in> set rs. case rule_interface r of None \<Rightarrow> False | Some n \<Rightarrow> length n \<le> 29"
  shows "\<exists>nm'. evaluate_rules lib mih rs location conn nm =
    Some (act (find (applicable U location) rs) conn, nm')"
  using assms(4)
proof (induction rs arbitrary: nm)
  case (Cons r rs)
  then obtain n where "rule_interface r = Some n" "length n \<le> 29"
    by (auto split: option.splits)
  from steady_evaluate_rule [OF assms(1-3) this] obtain nm1 where
    "evaluate_rule lib mih conn r location nm =
       Some (if applicable U location r then (1, act (Some r) conn, nm1) else (0, conn, nm1))"
    by blast
  then show ?case using Cons.IH [of nm1] Cons.prems by (cases "applicable U location r") auto
qed simp

lemma chosen_rule_Nil [simp]: "chosen_rule U location app [] old = old"
  by (simp add: chosen_rule_def policy_choices_def)

lemma chosen_rule_Cons:
  "chosen_rule U location app (p # ps) old =
     chosen_rule U location app ps
       (if pol_app_desc p = app
        then (case find (applicable U location) (rule_list p) of None \<Rightarrow> old | Some r \<Rightarrow> ruleID r)
        else old)"
  by (auto simp: chosen_rule_def policy_choices_def List.map_filter_simps split: option.splits)

lemma steady_evaluate_policies:
  assumes "xml_cmp_ok lib" "steady_mih U mih" "addr conn = Some sa" "names_ok ps"
  shows "\<exists>nm'. evaluate_policies lib mih ps location conn nm =
    Some (conn\<lparr>active_rule := chosen_rule U location (app_desc conn) ps (active_rule conn)\<rparr>, nm')"
  using assms(3-)
proof (induction ps arbitrary: conn nm)
  case Nil
  then show ?case by simp
next
  case (Cons p ps)
  let ?c = "act (find (applicable U location) (rule_list p)) conn"
  from Cons.prems have names: "names_ok ps"
    "\<forall>r \<in> set (rule_list p). case rule_interface r of None \<Rightarrow> False | Some n \<Rightarrow> length n \<le> 29"
    by (auto simp: names_ok_def)
  show ?case
  proof (cases "pol_app_desc p = app_desc conn")
    case True
    from steady_evaluate_rules [OF assms(1,2) Cons.prems(1) names(2)] obtain nm1 where
      "evaluate_rules lib mih (rule_list p) location conn nm = Some (?c, nm1)" by blast
    moreover from Cons.IH [of ?c nm1] Cons.prems(1) names(1) obtain nm2 where
      "evaluate_policies lib mih ps location ?c nm1 = Some
         (?c\<lparr>active_rule := chosen_rule U location (app_desc conn) ps (active_rule ?c)\<rparr>, nm2)"
      by auto
    ultimately show ?thesis
      using True assms(1) by (auto simp: chosen_rule_Cons act_def split: option.splits)
  next
    case False
    with Cons.IH [of conn nm] Cons.prems(1) names(1) assms(1) show ?thesis
      by (simp add: chosen_rule_Cons)
  qed
qed

lemma steady_evaluate:
  assumes "xml_cmp_ok lib" "steady_mih U mih" "addr conn = Some sa" "names_ok (policy_list s)"
    "loc_ok buf" "\<not> policy_mutex s"
  shows "\<exists>nm'. evaluate lib mih buf s conn nm = Some (conn\<lparr>active_rule :=
    chosen_rule U (cstr buf) (app_desc conn) (policy_list s) (active_rule conn)\<rparr>, nm')"
  using steady_evaluate_policies [OF assms(1-4)] assms(5,6)
  by (simp add: evaluate_def get_location_ok)

lemma list_each_map:
  assumes "\<And>x t. x \<in> set xs \<Longrightarrow> \<exists>t'. f x t = Some (g x, t')"
  shows "\<exists>t'. list_each f xs t = Some (map g xs, t')"
  using assms
proof (induction xs arbitrary: t)
  case (Cons x xs)
  from Cons.prems [of x t] obtain t1 where "f x t = Some (g x, t1)" by auto
  moreover from Cons.IH [of t1] Cons.prems obtain t2 where "list_each f xs t1 = Some (map g xs, t2)"
    by auto
  ultimately show ?case by simp
qed simp

text \<open>
  C7. With a user of MIH whose answers do not change, \<open>evaluate_all\<close> returns and gives every
  connection of the table its rule: the first applicable one (current location, interface up) of
  the last policy for the connection's application that has one, and the old rule when there is
  none; the table keeps its connections and their order.
\<close>

theorem evaluate_all_chooses:
  assumes "xml_cmp_ok lib" "steady_mih U mih" "names_ok (policy_list s)" "loc_ok buf"
    "\<not> policy_mutex s" "hl_abs tbl cs" "\<forall>c \<in> set cs. addr c \<noteq> None"
  shows "\<exists>tbl' nm'. evaluate_all lib mih buf s tbl nm = Some (tbl', nm') \<and>
    hl_abs tbl' (map (\<lambda>c. c\<lparr>active_rule :=
      chosen_rule U (cstr buf) (app_desc c) (policy_list s) (active_rule c)\<rparr>) cs)"
proof -
  let ?g = "\<lambda>c :: connection. c\<lparr>active_rule :=
      chosen_rule U (cstr buf) (app_desc c) (policy_list s) (active_rule c)\<rparr>"
  have "\<exists>nm'. list_each (evaluate lib mih buf s) cs nm = Some (map ?g cs, nm')"
  proof (rule list_each_map)
    fix c :: connection and t
    assume "c \<in> set cs"
    with assms(7) obtain sa where "addr c = Some sa" by auto
    from steady_evaluate [OF assms(1,2) this assms(3-5)]
    show "\<exists>t'. evaluate lib mih buf s c t = Some (?g c, t')" .
  qed
  then obtain nm' where "list_each (evaluate lib mih buf s) cs nm = Some (map ?g cs, nm')" by blast
  from hl_each_abs [OF assms(6) this] show ?thesis unfolding evaluate_all_def by blast
qed

text \<open>A table with one connection of \<open>vlc\<close>, at home with \<open>ppp0\<close> up.\<close>

definition mih_ref :: "string list \<Rightarrow> mih_env" where
  "mih_ref U k req = \<lparr>env_socket = 7, env_setsockopt = 0, env_sendto = 6, env_recv =
     Some (if take 2 req = ''e '' then (if drop 2 req \<in> set U then ''up'' else ''down'') else ''ok'')\<rparr>"

lemma steady_mih_ref [simp]: "steady_mih (set U) (mih_ref U)"
  by (simp add: steady_mih_def mih_ref_def)

definition vlc_conn :: connection where
  "vlc_conn = \<lparr>appID = 42, app_desc = Some ''/usr/bin/vlc'', sockfd = 5, addrlen = 16,
     addr = Some (Sockaddr_in 0x01020304 80), protocol = 0, active_rule = 0\<rparr>"

definition vlc_table :: "connection hlist" where
  "vlc_table = \<lparr>hl_mem = [1 \<mapsto> (vlc_conn, 2), 2 \<mapsto> (vlc_conn, 0)], hl_head = 1, hl_tail = 2\<rparr>"

lemma vlc_table_abs: "hl_abs vlc_table [vlc_conn]"
  by (auto simp: hl_abs_def hl_nodes_def vlc_table_def payload_def intro!: exI [where x = "[2]"])

definition nm_zero :: netmgr where
  "nm_zero = \<lparr>link_tbl = \<lparr>hl_mem = Map.empty, hl_head = 0, hl_tail = 0\<rparr>, info_sock = -1,
     event_sock = -1, nm_calls = 0, nm_sent = [], nm_closed = []\<rparr>"

theorem evaluate_all_chooses_witness:
  "\<exists>tbl' nm'. evaluate_all xml_ref (mih_ref [''ppp0'']) (loc_store ''home'')
      (pe_zero\<lparr>policy_list := [vlc_policy]\<rparr>) vlc_table nm_zero = Some (tbl', nm') \<and>
    hl_abs tbl' [vlc_conn\<lparr>active_rule := 2\<rparr>]"
proof -
  have loc: "cstr (loc_store ''home'') = ''home''" by (simp add: cstr_loc_store)
  have names: "names_ok [vlc_policy]" by (simp add: names_ok_def vlc_policy_def)
  have rule: "chosen_rule (set [''ppp0'']) ''home'' (app_desc vlc_conn) [vlc_policy] 0 = 2"
    by (simp add: chosen_rule_def policy_choices_def List.map_filter_simps vlc_policy_def
        vlc_conn_def applicable_def)
  show ?thesis
    using evaluate_all_chooses [OF xml_ref_ok(1) steady_mih_ref [of "[''ppp0'']"] _ loc_store_ok _
        vlc_table_abs, of "pe_zero\<lparr>policy_list := [vlc_policy]\<rparr>" "''home''" nm_zero]
      names rule loc by (simp add: pe_zero_def) (simp add: vlc_conn_def)
qed

text \<open>
  C18. The flag is cleared only after the evaluation: it is set all the time an evaluation runs,
  and a change that was announced but is neither evaluated nor pending any more can only have
  been announced while an evaluation was running.
\<close>

theorem trigger_pending:
  assumes "pe_reachable t"
  shows "(pt_pc t \<in> {Pe_eval, Pe_clear} \<longrightarrow> pt_need t) \<and>
    (pt_stale t \<and> \<not> pt_need t \<longrightarrow> pt_during t)"
  using pe_thread_inv_reachable [OF assms] by (auto simp: pe_thread_inv_def)

theorem trigger_pending_witness:
  "pe_reachable ((pe_start True)\<lparr>pt_pc := Pe_eval\<rparr>) \<and>
   pt_need ((pe_start True)\<lparr>pt_pc := Pe_eval\<rparr>)"
proof -
  let ?t = "(pe_start True)\<lparr>pt_pc := Pe_eval\<rparr>"
  have "pe_step (pe_start True) ((pe_start True)\<lparr>pt_pc := Pe_eval, pt_stale := False\<rparr>)"
    by (rule pe_go) (simp_all add: pe_start_def)
  then have "pe_reachable ?t" by (auto simp: pe_reachable_def pe_start_def)
  with trigger_pending [OF this] show ?thesis by simp
qed

text \<open>
  C19. Such a change is really lost: there is a run in which a location or link change is announced
  during an evaluation, the flag is cleared after it, and the thread is back at its test with
  nothing pending and the change never evaluated.
\<close>

theorem trigger_lost:
  "\<exists>t. pe_step\<^sup>*\<^sup>* (pe_start True) t \<and> pt_pc t = Pe_test \<and> pt_stale t \<and> \<not> pt_need t"
proof -
  define t1 where "t1 = (pe_start True)\<lparr>pt_pc := Pe_eval, pt_stale := False\<rparr>"
  define t2 where "t2 = t1\<lparr>pt_pc := Pe_clear, pt_evals := Suc (pt_evals t1)\<rparr>"
  define t3 where "t3 = t2\<lparr>pt_need := True, pt_stale := True,
    pt_during := pt_during t2 \<or> pt_pc t2 \<in> {Pe_eval, Pe_clear}\<rparr>"
  define t4 where "t4 = t3\<lparr>pt_pc := Pe_test, pt_need := False\<rparr>"
  note ts = t1_def t2_def t3_def t4_def pe_start_def
  have "pe_step (pe_start True) t1" unfolding t1_def by (rule pe_go) (simp_all add: pe_start_def)
  moreover have "pe_step t1 t2" unfolding t2_def by (rule pe_evaluate) (simp add: ts)
  moreover have "pe_step t2 t3" unfolding t3_def by (rule env_trigger)
  moreover have "pe_step t3 t4" unfolding t4_def by (rule pe_reset) (simp add: ts)
  ultimately have "pe_step\<^sup>*\<^sup>* (pe_start True) t4"
    by (meson converse_rtranclp_into_rtranclp rtranclp.rtrancl_refl)
  then show ?thesis by (intro exI [where x = t4]) (simp add: ts)
qed

end
