(* ===== verification/Inet.thy ===== *)
theory Inet
  imports Cstdlib Sockets
begin

text \<open>
  The text form of addresses, as the C library's \<open>inet_ntop\<close> produces it: dotted decimal for
  IPv4; for IPv6 lower-case hexadecimal words without leading zeros, the longest run of at
  least two zero words written as \<open>::\<close>, and the dotted form for the last four bytes of
  IPv4-compatible and IPv4-mapped addresses.
\<close>

definition hex_digit :: "nat \<Rightarrow> char" where
  "hex_digit d = char_of (if d < 10 then 48 + d else 87 + d)"

text \<open>\<open>%x\<close> of a 16 bit word.\<close>

definition hex16 :: "u16 \<Rightarrow> string" where
  "hex16 w =
     (let n = unat w
      in (if n < 0x1000 then [] else [hex_digit (n div 0x1000)]) @
         (if n < 0x100 then [] else [hex_digit (n div 0x100 mod 16)]) @
         (if n < 0x10 then [] else [hex_digit (n div 0x10 mod 16)]) @ [hex_digit (n mod 16)])"

definition u8_digits :: "u8 \<Rightarrow> string" where
  "u8_digits b = nat_digits (unat b)"

definition inet_ntop4 :: "u8 \<Rightarrow> u8 \<Rightarrow> u8 \<Rightarrow> u8 \<Rightarrow> string" where
  "inet_ntop4 a b c d =
     u8_digits a @ ''.'' @ u8_digits b @ ''.'' @ u8_digits c @ ''.'' @ u8_digits d"

definition v4_byte :: "nat \<Rightarrow> u32 \<Rightarrow> u8" where
  "v4_byte i a = ucast (drop_bit (24 - 8 * i) a)"

fun words_of :: "bytes \<Rightarrow> u16 list" where
  "words_of (h # l # bs) = be16 h l # words_of bs"
| "words_of _ = []"

text \<open>The length of the run of zero words at the head, and the first longest run.\<close>

fun zrun :: "u16 list \<Rightarrow> nat" where
  "zrun (w # ws) = (if w = 0 then Suc (zrun ws) else 0)"
| "zrun [] = 0"

fun best_run :: "nat \<Rightarrow> u16 list \<Rightarrow> nat \<times> nat \<Rightarrow> nat \<times> nat" where
  "best_run i (w # ws) (b, l) =
     best_run (Suc i) ws (if zrun (w # ws) > l then (i, zrun (w # ws)) else (b, l))"
| "best_run i [] (b, l) = (b, l)"

definition v6_run :: "bytes \<Rightarrow> nat \<times> nat" where
  "v6_run a = (let (b, l) = best_run 0 (words_of a) (0, 0) in if l < 2 then (0, 0) else (b, l))"

text \<open>What the loop emits for word \<open>i\<close>, given the run \<open>(b, l)\<close> (\<open>l = 0\<close> for none).\<close>

definition v4_tail :: "bytes \<Rightarrow> nat \<times> nat \<Rightarrow> bool" where
  "v4_tail a run \<longleftrightarrow> fst run = 0 \<and> (snd run = 6 \<or> snd run = 5 \<and> words_of a ! 5 = 0xFFFF)"

definition emit6 :: "bytes \<Rightarrow> nat \<times> nat \<Rightarrow> nat \<Rightarrow> string" where
  "emit6 a run i =
     (if snd run \<noteq> 0 \<and> fst run \<le> i \<and> i < fst run + snd run
      then (if i = fst run then '':'' else [])
      else if v4_tail a run \<and> i = 7 then []
      else (if i \<noteq> 0 then '':'' else []) @
        (if v4_tail a run \<and> i = 6 then inet_ntop4 (a ! 12) (a ! 13) (a ! 14) (a ! 15)
         else hex16 (words_of a ! i)))"

definition inet_ntop6 :: "bytes \<Rightarrow> string" where
  "inet_ntop6 a =
     (let run = v6_run a
      in concat (map (emit6 a run) [0, 1, 2, 3, 4, 5, 6, 7]) @
         (if snd run \<noteq> 0 \<and> fst run + snd run = 8 then '':'' else []))"

section \<open>Lengths\<close>

lemma length_hex16: "length (hex16 w) \<le> 4" "1 \<le> length (hex16 w)"
  by (simp_all add: hex16_def Let_def)

lemma length_u8_digits: "length (u8_digits b) \<le> 3"
proof -
  show ?thesis
    using unat_u8_less [of b]
    by (simp add: u8_digits_def nat_digits.simps [of "unat b"] nat_digits.simps [of "unat b div 10"]
        nat_digits.simps [of "unat b div 10 div 10"])
qed

lemma length_inet_ntop4: "length (inet_ntop4 a b c d) \<le> 15"
  using length_u8_digits [of a] length_u8_digits [of b] length_u8_digits [of c]
    length_u8_digits [of d]
  by (simp add: inet_ntop4_def)

lemma best_run_bounds:
  "b + l \<le> i + length ws \<Longrightarrow> fst (best_run i ws (b, l)) + snd (best_run i ws (b, l)) \<le> i + length ws"
proof (induction i ws "(b, l)" arbitrary: b l rule: best_run.induct)
  case (1 i w ws b l)
  have "zrun ws \<le> length ws" for ws by (induction ws rule: zrun.induct) simp_all
  then have "i + zrun (w # ws) \<le> i + length (w # ws)" by (metis add_left_mono)
  with 1 show ?case by (cases "zrun (w # ws) > l") (simp_all del: zrun.simps)
qed simp

lemma length_words_of: "length (words_of a) = length a div 2"
  by (induction a rule: words_of.induct) simp_all

lemma v6_run_bounds:
  assumes "length a = 16"
  shows "fst (v6_run a) + snd (v6_run a) \<le> 8 \<and> (snd (v6_run a) = 0 \<or> 2 \<le> snd (v6_run a))"
  using best_run_bounds [of 0 0 0 "words_of a"] assms
  by (auto simp: v6_run_def length_words_of split: prod.splits)

lemma length_emit6:
  "length (emit6 a run i) \<le>
     (if snd run \<noteq> 0 \<and> fst run \<le> i \<and> i < fst run + snd run then (if i = fst run then 1 else 0)
      else if v4_tail a run \<and> i = 7 then 0
      else if v4_tail a run \<and> i = 6 then 16
      else if i = 0 then 4 else 5)"
  by (cases "v4_tail a run"; cases "i = 7"; cases "i = 6"; cases "i = 0")
    (simp_all add: emit6_def length_hex16(1) length_inet_ntop4)

text \<open>An IPv6 address prints in at most 39 characters.\<close>

lemma length_inet_ntop6:
  assumes "length a = 16"
  shows "length (inet_ntop6 a) \<le> 39"
proof -
  obtain b l where run: "v6_run a = (b, l)" by (cases "v6_run a")
  with v6_run_bounds [OF assms] have bl: "b + l \<le> 8" "l = 0 \<or> 2 \<le> l" by simp_all
  note e = length_emit6 [of a "(b, l)"]
  have len: "length (inet_ntop6 a) = length (emit6 a (b, l) 0) + length (emit6 a (b, l) 1) +
      length (emit6 a (b, l) 2) + length (emit6 a (b, l) 3) + length (emit6 a (b, l) 4) +
      length (emit6 a (b, l) 5) + length (emit6 a (b, l) 6) + length (emit6 a (b, l) 7) +
      (if l \<noteq> 0 \<and> b + l = 8 then 1 else 0)"
    by (simp add: inet_ntop6_def run Let_def)
  consider (none) "l = 0" | (v4) "v4_tail a (b, l)" "2 \<le> l" | (run) "\<not> v4_tail a (b, l)" "2 \<le> l"
    using bl by blast
  then show ?thesis
  proof cases
    case none
    have "\<not> v4_tail a (b, l)" using none by (simp add: v4_tail_def)
    with none e [of 0] e [of 1] e [of 2] e [of 3] e [of 4] e [of 5] e [of 6] e [of 7] len
    show ?thesis by simp
  next
    case v4
    then have "b = 0" "l = 6 \<or> l = 5" by (auto simp: v4_tail_def)
    with v4 e [of 0] e [of 1] e [of 2] e [of 3] e [of 4] e [of 5] e [of 6] e [of 7] len
    show ?thesis by (elim disjE) simp_all
  next
    case run
    have le: "length (emit6 a (b, l) i) \<le> (if i = 0 then 4 else 5)" for i
      using e [of i] run(1) by (auto split: if_splits)
    define f where "f i = length (emit6 a (b, l) i)" for i
    have b1: "f b \<le> 1" "f (b + 1) = 0"
      using e [of b] e [of "Suc b"] run(2) by (simp_all add: f_def)
    have le: "f 0 \<le> 4" "f 1 \<le> 5" "f 2 \<le> 5" "f 3 \<le> 5" "f 4 \<le> 5" "f 5 \<le> 5" "f 6 \<le> 5" "f 7 \<le> 5"
      using le [of 0] le [of 1] le [of 2] le [of 3] le [of 4] le [of 5] le [of 6] le [of 7]
      by (simp_all add: f_def)
    have len: "length (inet_ntop6 a) \<le> f 0 + f 1 + f 2 + f 3 + f 4 + f 5 + f 6 + f 7 + 1"
      unfolding len f_def by simp
    have "b = 0 \<or> b = 1 \<or> b = 2 \<or> b = 3 \<or> b = 4 \<or> b = 5 \<or> b = 6" using bl(1) run(2) by arith
    then show ?thesis using b1 len le by (elim disjE) simp_all
  qed
qed

section \<open>Addresses without short words\<close>

lemma best_run_nonzero: "0 \<notin> set ws \<Longrightarrow> best_run i ws (b, l) = (b, l)"
  by (induction ws arbitrary: i) auto

lemma hex_digit_nonzero: "d < 16 \<Longrightarrow> hex_digit d \<noteq> CHR 0x00"
proof -
  assume "d < 16"
  then have "of_char (hex_digit d) = (if d < 10 then 48 + d else 87 + d :: nat)"
    by (simp add: hex_digit_def)
  then show ?thesis by (auto split: if_splits)
qed

lemma hex16_full:
  assumes "0x1000 \<le> unat w"
  shows "length (hex16 w) = 4" "CHR 0x00 \<notin> set (hex16 w)"
proof -
  have "unat w div 0x1000 < 16" using unsigned_less [of w, where ?'a = nat] by (simp add: less_mult_imp_div_less)
  then show "length (hex16 w) = 4" "CHR 0x00 \<notin> set (hex16 w)"
    using assms hex_digit_nonzero by (auto simp: hex16_def Let_def dest: sym)
qed

text \<open>Eight words of four digits print in 39 characters.\<close>

lemma inet_ntop6_full:
  assumes "length a = 16" "\<forall>w \<in> set (words_of a). 0x1000 \<le> unat w"
  shows "length (inet_ntop6 a) = 39" "CHR 0x00 \<notin> set (inet_ntop6 a)"
proof -
  have "0 \<notin> set (words_of a)" using assms(2) by fastforce
  then have run: "v6_run a = (0, 0)" by (simp add: v6_run_def best_run_nonzero)
  have "length (words_of a) = 8" using assms(1) by (simp add: length_words_of)
  then have w: "0x1000 \<le> unat (words_of a ! i)" if "i < 8" for i using that assms(2) by simp
  have e: "length (emit6 a (0, 0) i) = (if i = 0 then 4 else 5)" "CHR 0x00 \<notin> set (emit6 a (0, 0) i)" if "i < 8" for i
    using hex16_full [OF w [OF that]] by (simp_all add: emit6_def v4_tail_def)
  show "length (inet_ntop6 a) = 39" using e(1) by (simp add: inet_ntop6_def run Let_def)
  show "CHR 0x00 \<notin> set (inet_ntop6 a)" using e(2) by (simp add: inet_ntop6_def run Let_def)
qed

end
