(* ===== verification/Conmgr.thy ===== *)
theory Conmgr
  imports Pe Inet
begin

text \<open>
  The connection manager of the daemon (\<open>src/sined/src/conmgr.c\<close>): the table of connections,
  adding and removing them on the requests of applications, the loop that serves the requests,
  and its initialisation.
\<close>

section \<open>Printing a connection\<close>

definition str_proto :: "string list" where
  "str_proto = [''UNSPEC'', ''IPv4'', ''HIP'', ''MIPv6'']"

definition proto_to_str :: "int \<Rightarrow> string" where
  "proto_to_str p = (if p < 0 \<or> p \<ge> CONMGR_PROTO_NUM then ''INVALID'' else str_proto ! nat p)"

text \<open>
  A \<open>struct sockaddr\<close> of \<open>len\<close> bytes holds what is read of it: the family, and port and address
  of its family.
\<close>

definition sockaddr_fits :: "nat \<Rightarrow> sockaddr \<Rightarrow> bool" where
  "sockaddr_fits len sa =
     (case sa of Sockaddr_in _ _ \<Rightarrow> 8 \<le> len | Sockaddr_in6 _ _ \<Rightarrow> 24 \<le> len | Sockaddr_other _ \<Rightarrow> 2 \<le> len)"

text \<open>The two buffers of \<open>dump_one_connection\<close> have \<open>INET6_ADDRSTRLEN + 1\<close> bytes.\<close>

abbreviation (input) STR_ADDR_SIZE :: nat where "STR_ADDR_SIZE \<equiv> 47"

definition sockaddr_str :: "sockaddr \<Rightarrow> string" where
  "sockaddr_str sa =
     (case sa of
        Sockaddr_in a p \<Rightarrow>
          inet_ntop4 (v4_byte 0 a) (v4_byte 1 a) (v4_byte 2 a) (v4_byte 3 a) @ '':'' @
          nat_digits (unat p)
      | Sockaddr_in6 a p \<Rightarrow> ''['' @ inet_ntop6 a @ '']:'' @ nat_digits (unat p)
      | Sockaddr_other _ \<Rightarrow> ''(unknown address)'')"

definition dump_one_connection :: "connection \<Rightarrow> string cres" where
  "dump_one_connection conn =
     (case addr conn of
        None \<Rightarrow> Some ''(null)''
      | Some sa \<Rightarrow>
          if \<not> sockaddr_fits (unat (addrlen conn)) sa then None
          else strcpy STR_ADDR_SIZE (sockaddr_str sa))"

definition conmgr_dump_connections :: "connection hlist \<Rightarrow> (connection hlist \<times> string list) cres" where
  "conmgr_dump_connections tbl =
     hl_each (\<lambda>c out. map_option (\<lambda>s. (c, out @ [s])) (dump_one_connection c)) tbl []"

section \<open>The application behind a process\<close>

abbreviation (input) LINE_BUF_SIZE :: nat where "LINE_BUF_SIZE \<equiv> 256"

definition link_path :: "int \<Rightarrow> string" where
  "link_path pid = ''/proc/'' @ int_digits pid @ ''/exe''"

text \<open>
  \<open>readlink\<close> gives the target of a link at the first and the second call (\<open>None\<close> when it fails)
  and stores at most the bytes asked for. A second result shorter than the first leaves bytes of
  the new block unset, which reading them makes undefined.
\<close>

type_synonym readlink = "nat \<Rightarrow> string \<Rightarrow> string option"

definition get_app_path :: "readlink \<Rightarrow> bool \<Rightarrow> int \<Rightarrow> string option cres" where
  "get_app_path readlink malloc_ok pid =
     (case readlink 0 (link_path pid) of
        None \<Rightarrow> Some None
      | Some target \<Rightarrow>
          (let buf = take LINE_BUF_SIZE target; r = length buf
           in if \<not> malloc_ok then Some None
              else if r < LINE_BUF_SIZE then Some (Some (cstr buf))
              else
                (case readlink 1 (link_path pid) of
                   None \<Rightarrow> Some None
                 | Some target2 \<Rightarrow>
                     (let path = take (r + 1) target2
                      in if length path < r then None else Some (Some (cstr (take r path)))))))"

section \<open>The table\<close>

text \<open>
  What the rest of the daemon contributes to a request: the engine that evaluates, and the
  outcomes of the calls made for this request. \<open>ce_malloc\<close> is the block for the node,
  depending on the table it is allocated beside.
\<close>

record engine =
  en_xml :: xml_lib
  en_mih :: mih_env
  en_loc :: locbuf
  en_pe :: pe

definition engine_evaluate :: "engine \<Rightarrow> connection \<Rightarrow> netmgr \<Rightarrow> (connection \<times> netmgr) cres" where
  "engine_evaluate en conn nm = evaluate (en_xml en) (en_mih en) (en_loc en) (en_pe en) conn nm"

record call_env =
  ce_malloc :: "connection hlist \<Rightarrow> nat"
  ce_readlink :: readlink
  ce_path_malloc :: bool
  ce_addr_malloc :: bool

definition init_connection_table :: "nat \<Rightarrow> connection hlist \<Rightarrow> connection hlist cres" where
  "init_connection_table p tbl =
     hl_init \<lparr>appID = 0, app_desc = None, sockfd = 0, addrlen = 0, addr = None, protocol = 0,
              active_rule = 0\<rparr> p tbl"

text \<open>
  \<open>add_connection\<close>. The address is copied with the length the message claims, out of the 128
  bytes of a \<open>struct sockaddr_storage\<close>.
\<close>

abbreviation (input) SOCKADDR_STORAGE_SIZE :: nat where "SOCKADDR_STORAGE_SIZE \<equiv> 128"

definition new_connection :: "int \<Rightarrow> string option \<Rightarrow> int \<Rightarrow> sockaddr \<Rightarrow> u32 \<Rightarrow> connection" where
  "new_connection pid path fd sa len =
     \<lparr>appID = pid, app_desc = path, sockfd = fd, addrlen = len, addr = Some sa,
      protocol = CONMGR_PROTO_UNSPEC, active_rule = 0\<rparr>"

definition add_connection ::
  "engine \<Rightarrow> call_env \<Rightarrow> int \<Rightarrow> int \<Rightarrow> sockaddr \<Rightarrow> u32 \<Rightarrow> connection hlist \<times> netmgr
     \<Rightarrow> (int \<times> connection hlist \<times> netmgr) cres" where
  "add_connection en ce pid fd sa len st =
     (case st of (tbl, nm) \<Rightarrow>
        if ce_malloc ce tbl = 0 then Some (-1, tbl, nm)
        else
          (case get_app_path (ce_readlink ce) (ce_path_malloc ce) pid of
             None \<Rightarrow> None
           | Some path \<Rightarrow>
               if \<not> ce_addr_malloc ce then Some (-1, tbl, nm)
               else if unat len > SOCKADDR_STORAGE_SIZE then None
               else
                 (let conn = new_connection pid path fd sa len
                  in case dump_one_connection conn of
                       None \<Rightarrow> None
                     | Some _ \<Rightarrow>
                         (case engine_evaluate en conn nm of
                            None \<Rightarrow> None
                          | Some (conn', nm') \<Rightarrow>
                              (case hl_append (ce_malloc ce tbl) conn' tbl of
                                 None \<Rightarrow> None
                               | Some tbl' \<Rightarrow> Some (0, tbl', nm'))))))"

definition conn_is :: "int \<Rightarrow> int \<Rightarrow> connection \<Rightarrow> bool" where
  "conn_is pid fd c \<longleftrightarrow> sockfd c = fd \<and> appID c = pid"

definition remove_connection :: "int \<Rightarrow> int \<Rightarrow> connection hlist \<Rightarrow> connection hlist cres" where
  "remove_connection pid fd tbl = hl_remove (conn_is pid fd) tbl"

definition free_connection_table :: "connection hlist \<Rightarrow> connection hlist cres" where
  "free_connection_table tbl = hl_free tbl"

section \<open>Serving requests\<close>

record conmgr =
  con_tbl :: "connection hlist"
  conmgr_sock :: int
  cg_replies :: "int list"
  cg_closed :: "int list"
  cg_unlinked :: nat
  cg_nm :: netmgr

text \<open>
  One turn of the loop: a failing \<open>select\<close>, the exit pipe, a message (the result of
  \<open>recvfrom\<close>, the contents of \<open>con_msg\<close> after it, the outcomes of the calls made for it and the
  result of \<open>sendto\<close>), or nothing to read.
\<close>

datatype cg_event = Cg_select_fail | Cg_exit | Cg_recv int conmsg call_env int | Cg_idle

definition handle_message :: "engine \<Rightarrow> call_env \<Rightarrow> conmsg \<Rightarrow> conmgr \<Rightarrow> conmgr cres" where
  "handle_message en ce m cg =
     (if cm_cmd m = CONMGR_CMD_ADD then
        (case add_connection en ce (cm_pid m) (cm_sockfd m) (cm_addr m) (cm_addrlen m)
                (con_tbl cg, cg_nm cg) of
           None \<Rightarrow> None
         | Some (_, tbl, nm) \<Rightarrow> Some (cg\<lparr>con_tbl := tbl, cg_nm := nm\<rparr>))
      else if cm_cmd m = CONMGR_CMD_REMOVE then
        (case remove_connection (cm_pid m) (cm_sockfd m) (con_tbl cg) of
           None \<Rightarrow> None
         | Some tbl \<Rightarrow> Some (cg\<lparr>con_tbl := tbl\<rparr>))
      else Some cg)"

definition conmgr_cleanup :: "conmgr \<Rightarrow> conmgr cres" where
  "conmgr_cleanup cg =
     (case free_connection_table (con_tbl cg) of
        None \<Rightarrow> None
      | Some tbl \<Rightarrow>
          (let cg1 = cg\<lparr>con_tbl := tbl\<rparr>
           in Some (if conmgr_sock cg1 \<ge> 0
                    then cg1\<lparr>cg_closed := cg_closed cg1 @ [conmgr_sock cg1], conmgr_sock := -1,
                             cg_unlinked := Suc (cg_unlinked cg1)\<rparr>
                    else cg1)))"

definition reply :: "int \<Rightarrow> int \<Rightarrow> conmgr \<Rightarrow> conmgr" where
  "reply r sent cg = (if sent < 0 then cg else cg\<lparr>cg_replies := cg_replies cg @ [r]\<rparr>)"

fun conmgr_main_loop :: "engine \<Rightarrow> cg_event list \<Rightarrow> conmgr \<Rightarrow> conmgr cres" where
  "conmgr_main_loop en [] cg = conmgr_cleanup cg"
| "conmgr_main_loop en (Cg_select_fail # _) cg = conmgr_cleanup cg"
| "conmgr_main_loop en (Cg_exit # _) cg = conmgr_cleanup cg"
| "conmgr_main_loop en (Cg_idle # es) cg = conmgr_main_loop en es cg"
| "conmgr_main_loop en (Cg_recv r m ce sent # es) cg =
     (if r \<le> 0 then conmgr_cleanup cg
      else
        (case handle_message en ce m cg of
           None \<Rightarrow> None
         | Some cg1 \<Rightarrow> conmgr_main_loop en es (reply r sent cg1)))"

text \<open>
  \<open>init_connection_manager\<close>: the results of \<open>malloc\<close>, \<open>socket\<close>, \<open>bind\<close> and
  \<open>pthread_create\<close>.
\<close>

definition init_connection_manager :: "nat \<Rightarrow> int \<Rightarrow> int \<Rightarrow> int \<Rightarrow> conmgr \<Rightarrow> (int \<times> conmgr) cres" where
  "init_connection_manager p sock bound thread cg =
     (case init_connection_table p (con_tbl cg) of
        None \<Rightarrow> None
      | Some tbl \<Rightarrow>
          (let cg1 = cg\<lparr>con_tbl := tbl, conmgr_sock := sock\<rparr>
           in if sock < 0 then map_option (\<lambda>c. (-1, c)) (conmgr_cleanup cg1)
              else
                (let cg2 = cg1\<lparr>cg_unlinked := Suc (cg_unlinked cg1)\<rparr>
                 in if bound \<noteq> 0 \<or> thread \<noteq> 0 then map_option (\<lambda>c. (-1, c)) (conmgr_cleanup cg2)
                    else Some (0, cg2))))"

section \<open>Lemmas\<close>

lemma length_nat_digits:
  "n < 10000 \<Longrightarrow> length (nat_digits n) \<le> 4" "n < 100000 \<Longrightarrow> length (nat_digits n) \<le> 5"
  by (simp_all add: nat_digits.simps [of n] nat_digits.simps [of "n div 10"]
      nat_digits.simps [of "n div 10 div 10"] nat_digits.simps [of "n div 10 div 10 div 10"]
      nat_digits.simps [of "n div 10 div 10 div 10 div 10"])

lemma length_port: "length (nat_digits (unat (p :: u16))) \<le> 5"
  using length_nat_digits(2) [of "unat p"] unat_u16_less [of p] by simp

text \<open>Addresses that are long enough for their family and whose text fits.\<close>

definition printable :: "u32 \<Rightarrow> sockaddr \<Rightarrow> bool" where
  "printable len sa \<longleftrightarrow> sockaddr_fits (unat len) sa \<and>
     (case sa of Sockaddr_in6 a p \<Rightarrow> length a = 16 \<and> unat p < 10000 | _ \<Rightarrow> True)"

lemma length_sockaddr_str:
  assumes "printable len sa"
  shows "length (sockaddr_str sa) \<le> 46"
proof (cases sa)
  case (Sockaddr_in a p)
  then show ?thesis
    using length_port [of p] length_inet_ntop4 [of "v4_byte 0 a" "v4_byte 1 a" "v4_byte 2 a" "v4_byte 3 a"]
    by (simp add: sockaddr_str_def)
next
  case (Sockaddr_in6 a p)
  then show ?thesis
    using assms length_inet_ntop6 [of a] length_nat_digits(1) [of "unat p"]
    by (simp add: sockaddr_str_def printable_def)
next
  case (Sockaddr_other f)
  then show ?thesis by (simp add: sockaddr_str_def)
qed

lemma dump_one_connection_ok:
  assumes "addr c = Some sa" "printable (addrlen c) sa"
  shows "dump_one_connection c \<noteq> None"
  using assms length_sockaddr_str [OF assms(2)] length_cstr_le [of "sockaddr_str sa"]
  by (simp add: dump_one_connection_def printable_def strcpy_def)

text \<open>
  C16. Printing a connection stays inside its buffers for every IPv4 address and for every IPv6
  address with a port below 10000; the text is then the address and port.
\<close>

theorem dump_one_connection_safe:
  assumes "addr c = Some sa" "sockaddr_fits (unat (addrlen c)) sa"
    and "\<And>a p. sa = Sockaddr_in6 a p \<Longrightarrow> length a = 16 \<and> unat p < 10000"
  shows "\<exists>s. dump_one_connection c = Some s \<and> length s < STR_ADDR_SIZE"
proof -
  have pr: "printable (addrlen c) sa" using assms by (auto simp: printable_def split: sockaddr.splits)
  from dump_one_connection_ok [OF assms(1) pr] obtain s where "dump_one_connection c = Some s" by auto
  then show ?thesis
    using length_sockaddr_str [OF pr] length_cstr_le [of "sockaddr_str sa"] assms(1,2)
    by (auto simp: dump_one_connection_def strcpy_def split: if_splits)
qed

definition full_v6 :: bytes where
  "full_v6 = [0x11, 0x11, 0x11, 0x11, 0x11, 0x11, 0x11, 0x11,
     0x11, 0x11, 0x11, 0x11, 0x11, 0x11, 0x11, 0x11]"

lemma length_full_v6: "length full_v6 = 16"
  by (simp add: full_v6_def)

theorem dump_one_connection_safe_witness:
  "\<exists>s. dump_one_connection (vlc_conn\<lparr>addr := Some (Sockaddr_in6 full_v6 9999), addrlen := 28\<rparr>) =
     Some s \<and> length s < STR_ADDR_SIZE"
  by (rule dump_one_connection_safe [of _ "Sockaddr_in6 full_v6 9999"])
    (simp_all add: sockaddr_fits_def length_full_v6)

lemma nat_digits_five:
  assumes "10000 \<le> n" "n < 100000"
  shows "length (nat_digits n) = 5"
proof -
  have d: "n div 10 div 10 = n div 100" "n div 100 div 10 = n div 1000" "n div 1000 div 10 = n div 10000"
    by (simp_all flip: div_mult2_eq)
  have b: "\<not> n < 10" "\<not> n div 10 < 10" "\<not> n div 100 < 10" "\<not> n div 1000 < 10" "n div 10000 < 10"
    using assms by linarith+
  show ?thesis
    by (subst nat_digits.simps, subst nat_digits.simps, subst nat_digits.simps, subst nat_digits.simps,
        subst nat_digits.simps) (simp add: d b)
qed

text \<open>
  C17. The buffer is one byte short: for every IPv6 address whose eight words all need four digits and
  every port of five digits the text has 47 characters, so it is written past the end of the 47
  bytes of \<open>str_addr_port\<close>; 48 bytes would do.
\<close>

theorem dump_one_connection_overflow:
  assumes "addr c = Some (Sockaddr_in6 a p)" "length a = 16" "\<forall>w \<in> set (words_of a). 0x1000 \<le> unat w"
    and "10000 \<le> unat p"
  shows "length (sockaddr_str (Sockaddr_in6 a p)) = 47 \<and> dump_one_connection c = None \<and>
    strcpy (Suc STR_ADDR_SIZE) (sockaddr_str (Sockaddr_in6 a p)) = Some (sockaddr_str (Sockaddr_in6 a p))"
proof -
  let ?s = "sockaddr_str (Sockaddr_in6 a p)"
  have "CHR 0x00 \<notin> set (nat_digits (unat p))" using nat_digits_isdigit [of "unat p"] by (auto simp: isdigit_def)
  then have c: "cstr ?s = ?s"
    using inet_ntop6_full(2) [OF assms(2,3)] by (intro cstr_id) (auto simp: sockaddr_str_def)
  have "length ?s = 47"
    using inet_ntop6_full(1) [OF assms(2,3)] nat_digits_five [OF assms(4)] unat_u16_less [of p]
    by (simp add: sockaddr_str_def)
  then show ?thesis using assms(1) c by (simp add: dump_one_connection_def strcpy_def)
qed

theorem dump_one_connection_overflow_witness:
  "dump_one_connection (new_connection 42 None 5 (Sockaddr_in6 full_v6 65535) 28) = None"
  using dump_one_connection_overflow [of "new_connection 42 None 5 (Sockaddr_in6 full_v6 65535) 28" full_v6 65535]
  by (simp add: new_connection_def length_full_v6) (simp add: full_v6_def be16_def)

section \<open>The path of an application\<close>

text \<open>
  \<open>get_app_path\<close> returns the target of the process's \<open>exe\<close> link, cut to 256 characters, and
  nothing when the link cannot be read or memory is short.
\<close>

lemma get_app_path_target:
  assumes "\<And>k. readlink k (link_path pid) = target" "\<And>t. target = Some t \<Longrightarrow> CHR 0x00 \<notin> set t"
  shows "get_app_path readlink malloc_ok pid =
    Some (if malloc_ok then map_option (take LINE_BUF_SIZE) target else None)"
proof (cases target)
  case None
  then show ?thesis using assms(1) by (simp add: get_app_path_def)
next
  case (Some t)
  then have "CHR 0x00 \<notin> set (take n t)" for n using assms(2) [OF Some] in_set_takeD by fastforce
  then have id: "cstr (take n t) = take n t" for n by (rule cstr_id)
  show ?thesis using Some assms(1) id by (simp add: get_app_path_def Let_def min_def)
qed

section \<open>The table as a list\<close>

text \<open>Conditions under which requests are served: the engine, the calls, the message.\<close>

definition engine_ok :: "string set \<Rightarrow> engine \<Rightarrow> bool" where
  "engine_ok U en \<longleftrightarrow> xml_cmp_ok (en_xml en) \<and> steady_mih U (en_mih en) \<and>
     names_ok (policy_list (en_pe en)) \<and> loc_ok (en_loc en) \<and> \<not> policy_mutex (en_pe en)"

text \<open>\<open>malloc\<close> returns NULL or a block that is not in use; the link does not change meanwhile.\<close>

definition calls_ok :: "call_env \<Rightarrow> bool" where
  "calls_ok ce \<longleftrightarrow> (\<forall>t. ce_malloc ce t \<noteq> 0 \<longrightarrow> hl_mem t (ce_malloc ce t) = None) \<and>
     (\<forall>p. ce_readlink ce 1 p = ce_readlink ce 0 p)"

definition message_ok :: "conmsg \<Rightarrow> bool" where
  "message_ok m \<longleftrightarrow> unat (cm_addrlen m) \<le> SOCKADDR_STORAGE_SIZE \<and> printable (cm_addrlen m) (cm_addr m)"

definition app_path :: "call_env \<Rightarrow> int \<Rightarrow> string option" where
  "app_path ce pid = the (get_app_path (ce_readlink ce) (ce_path_malloc ce) pid)"

text \<open>What one message does to the list of connections.\<close>

definition table_step ::
  "string set \<Rightarrow> engine \<Rightarrow> bool \<Rightarrow> call_env \<Rightarrow> conmsg \<Rightarrow> connection list \<Rightarrow> connection list" where
  "table_step U en mem ce m cs =
     (if cm_cmd m = CONMGR_CMD_ADD then
        if mem \<and> ce_addr_malloc ce then
          cs @ [(new_connection (cm_pid m) (app_path ce (cm_pid m)) (cm_sockfd m) (cm_addr m)
                   (cm_addrlen m))\<lparr>active_rule := chosen_rule U (cstr (en_loc en))
                     (app_path ce (cm_pid m)) (policy_list (en_pe en)) 0\<rparr>]
        else cs
      else if cm_cmd m = CONMGR_CMD_REMOVE then
        filter (\<lambda>c. \<not> conn_is (cm_pid m) (cm_sockfd m) c) cs
      else cs)"

lemma get_app_path_defined:
  "calls_ok ce \<Longrightarrow> get_app_path (ce_readlink ce) b pid \<noteq> None"
  by (auto simp: get_app_path_def calls_ok_def Let_def split: option.splits)

lemma add_connection_steady:
  assumes "engine_ok U en" "calls_ok ce" "hl_abs tbl cs"
    "unat len \<le> SOCKADDR_STORAGE_SIZE" "printable len sa"
  shows "\<exists>r tbl' nm'. add_connection en ce pid fd sa len (tbl, nm) = Some (r, tbl', nm') \<and>
    hl_abs tbl' (if ce_malloc ce tbl \<noteq> 0 \<and> ce_addr_malloc ce then
      cs @ [(new_connection pid (app_path ce pid) fd sa len)\<lparr>active_rule :=
        chosen_rule U (cstr (en_loc en)) (app_path ce pid) (policy_list (en_pe en)) 0\<rparr>] else cs)"
proof -
  let ?c = "new_connection pid (app_path ce pid) fd sa len"
  let ?c' = "?c\<lparr>active_rule :=
      chosen_rule U (cstr (en_loc en)) (app_path ce pid) (policy_list (en_pe en)) 0\<rparr>"
  from get_app_path_defined [OF assms(2)]
  have path: "get_app_path (ce_readlink ce) (ce_path_malloc ce) pid = Some (app_path ce pid)"
    by (auto simp: app_path_def)
  have "dump_one_connection ?c \<noteq> None"
    by (rule dump_one_connection_ok [of _ sa]) (simp_all add: new_connection_def assms(5))
  then obtain s where s: "dump_one_connection ?c = Some s" by auto
  from assms(1) have en: "xml_cmp_ok (en_xml en)" "steady_mih U (en_mih en)"
    "names_ok (policy_list (en_pe en))" "loc_ok (en_loc en)" "\<not> policy_mutex (en_pe en)"
    by (simp_all add: engine_ok_def)
  have "addr ?c = Some sa" "app_desc ?c = app_path ce pid" "active_rule ?c = 0"
    by (simp_all add: new_connection_def)
  with steady_evaluate [OF en(1,2) _ en(3-5), of ?c sa nm]
  obtain nm' where ev: "engine_evaluate en ?c nm = Some (?c', nm')"
    by (auto simp: engine_evaluate_def)
  show ?thesis
  proof (cases "ce_malloc ce tbl \<noteq> 0 \<and> ce_addr_malloc ce")
    case True
    with assms(2) have "hl_mem tbl (ce_malloc ce tbl) = None" by (simp add: calls_ok_def)
    with hl.append_law [OF assms(3), of "ce_malloc ce tbl" ?c'] True obtain tbl' where
      "hl_append (ce_malloc ce tbl) ?c' tbl = Some tbl'" "hl_abs tbl' (cs @ [?c'])" by auto
    with True path s ev assms(4) show ?thesis by (simp add: add_connection_def Let_def)
  next
    case False
    with path assms(3) show ?thesis by (auto simp: add_connection_def)
  qed
qed

lemma handle_message_steady:
  assumes "engine_ok U en" "calls_ok ce" "message_ok m" "hl_abs (con_tbl cg) cs"
  shows "\<exists>cg'. handle_message en ce m cg = Some cg' \<and> cg_replies cg' = cg_replies cg \<and>
    hl_abs (con_tbl cg') (table_step U en (ce_malloc ce (con_tbl cg) \<noteq> 0) ce m cs)"
proof -
  have m: "unat (cm_addrlen m) \<le> SOCKADDR_STORAGE_SIZE" "printable (cm_addrlen m) (cm_addr m)"
    using assms(3) by (simp_all add: message_ok_def)
  from add_connection_steady [OF assms(1,2,4) m, of "cm_pid m" "cm_sockfd m" "cg_nm cg"]
  obtain r tbl nm where add:
    "add_connection en ce (cm_pid m) (cm_sockfd m) (cm_addr m) (cm_addrlen m) (con_tbl cg, cg_nm cg) =
       Some (r, tbl, nm)"
    "cm_cmd m = 0 \<Longrightarrow> hl_abs tbl (table_step U en (ce_malloc ce (con_tbl cg) \<noteq> 0) ce m cs)"
    by (auto simp: table_step_def)
  from hl.remove_law [OF assms(4), of "conn_is (cm_pid m) (cm_sockfd m)"] obtain tbl2 where
    "remove_connection (cm_pid m) (cm_sockfd m) (con_tbl cg) = Some tbl2"
    "cm_cmd m = 1 \<Longrightarrow> hl_abs tbl2 (table_step U en (ce_malloc ce (con_tbl cg) \<noteq> 0) ce m cs)"
    by (auto simp: remove_connection_def table_step_def)
  with add assms(4) show ?thesis by (auto simp: handle_message_def table_step_def)
qed

text \<open>The list after a sequence of served messages, and the replies sent for them.\<close>

type_synonym request = "int \<times> conmsg \<times> call_env \<times> int"

fun serve :: "string set \<Rightarrow> engine \<Rightarrow> request list \<Rightarrow> connection list \<Rightarrow> connection list" where
  "serve U en [] cs = cs"
| "serve U en ((r, m, ce, sent) # qs) cs = serve U en qs (table_step U en True ce m cs)"

definition request_ok :: "request \<Rightarrow> bool" where
  "request_ok q = (case q of (r, m, ce, sent) \<Rightarrow>
     r > 0 \<and> calls_ok ce \<and> (\<forall>t. finite (dom (hl_mem t)) \<longrightarrow> ce_malloc ce t \<noteq> 0) \<and> message_ok m)"

definition request_event :: "request \<Rightarrow> cg_event" where
  "request_event q = (case q of (r, m, ce, sent) \<Rightarrow> Cg_recv r m ce sent)"

lemma serve_requests:
  assumes "engine_ok U en" "\<forall>q \<in> set qs. request_ok q" "hl_abs (con_tbl cg) cs"
  shows "\<exists>cg'. (\<forall>es. conmgr_main_loop en (map request_event qs @ es) cg = conmgr_main_loop en es cg') \<and>
    hl_abs (con_tbl cg') (serve U en qs cs) \<and>
    cg_replies cg' = cg_replies cg @ map fst (filter (\<lambda>(r, m, ce, sent). 0 \<le> sent) qs)"
  using assms(2,3)
proof (induction qs arbitrary: cg cs)
  case Nil
  then show ?case by (intro exI [where x = cg]) simp
next
  case (Cons q qs)
  obtain r m ce sent where q: "q = (r, m, ce, sent)" by (cases q)
  from Cons.prems(1) q have ok: "r > 0" "calls_ok ce" "ce_malloc ce (con_tbl cg) \<noteq> 0" "message_ok m"
    using hl_abs_finite [OF Cons.prems(2)] by (auto simp: request_ok_def)
  from handle_message_steady [OF assms(1) ok(2,4) Cons.prems(2)] ok(3) obtain cg1 where
    cg1: "handle_message en ce m cg = Some cg1" "cg_replies cg1 = cg_replies cg"
    "hl_abs (con_tbl cg1) (table_step U en True ce m cs)" by auto
  then have "hl_abs (con_tbl (reply r sent cg1)) (table_step U en True ce m cs)"
    by (simp add: reply_def)
  with Cons.IH Cons.prems(1) obtain cg' where
    cg': "\<forall>es. conmgr_main_loop en (map request_event qs @ es) (reply r sent cg1) =
       conmgr_main_loop en es cg'"
    "hl_abs (con_tbl cg') (serve U en qs (table_step U en True ce m cs))"
    "cg_replies cg' = cg_replies (reply r sent cg1) @
       map fst (filter (\<lambda>(r, m, ce, sent). 0 \<le> sent) qs)"
    by (metis list.set_intros(2))
  have "conmgr_main_loop en (map request_event (q # qs) @ es) cg = conmgr_main_loop en es cg'" for es
    using cg'(1) cg1(1) ok(1) by (simp add: q request_event_def)
  with cg'(2,3) cg1(2) show ?case
    by (intro exI [where x = cg']) (auto simp: q reply_def)
qed

text \<open>
  C6. The table implements a list: serving any sequence of well-formed requests never follows a
  bad pointer, appends a connection with its rule for each ADD, drops exactly the connections
  with the given process and descriptor for each REMOVE, leaves the list alone for any other
  command, and answers each request with the number of bytes received.
\<close>

theorem conmgr_loop_refines:
  assumes "engine_ok U en" "\<forall>q \<in> set qs. request_ok q" "hl_abs (con_tbl cg) cs"
  shows "\<exists>cg'. (\<forall>es. conmgr_main_loop en (map request_event qs @ es) cg = conmgr_main_loop en es cg') \<and>
    hl_abs (con_tbl cg') (serve U en qs cs) \<and>
    cg_replies cg' = cg_replies cg @ map fst (filter (\<lambda>(r, m, ce, sent). 0 \<le> sent) qs)"
  by (rule serve_requests [OF assms])

text \<open>An engine at home with one policy, and calls that succeed.\<close>

definition engine_ref :: engine where
  "engine_ref = \<lparr>en_xml = xml_ref, en_mih = mih_ref [''ppp0''], en_loc = loc_store ''home'',
     en_pe = pe_zero\<lparr>policy_list := [vlc_policy]\<rparr>\<rparr>"

lemma engine_ref_ok: "engine_ok (set [''ppp0'']) engine_ref"
  using steady_mih_ref [of "[''ppp0'']"]
  by (simp add: engine_ok_def engine_ref_def loc_store_ok names_ok_def vlc_policy_def pe_zero_def)

text \<open>An allocator that never runs out beside a finite table.\<close>

definition calls_ref :: call_env where
  "calls_ref = \<lparr>ce_malloc =
       (\<lambda>t. if finite (dom (hl_mem t)) then Suc (Max (insert 0 (dom (hl_mem t)))) else 0),
     ce_readlink = (\<lambda>_ _. Some ''/usr/bin/vlc''), ce_path_malloc = True, ce_addr_malloc = True\<rparr>"

lemma Suc_Max_fresh: "finite A \<Longrightarrow> Suc (Max (insert 0 A)) \<notin> A"
proof
  assume "finite A" "Suc (Max (insert 0 A)) \<in> A"
  then have "Suc (Max (insert 0 A)) \<le> Max (insert 0 A)" by (intro Max_ge) simp_all
  then show False by simp
qed

lemma calls_ref_ok: "calls_ok calls_ref"
proof -
  have "hl_mem t (ce_malloc calls_ref t) = None" if "ce_malloc calls_ref t \<noteq> 0" for t
  proof -
    have "finite (dom (hl_mem t))" using that by (simp add: calls_ref_def split: if_splits)
    with Suc_Max_fresh [OF this] show ?thesis
      by (simp add: calls_ref_def) (meson domIff)
  qed
  then show ?thesis by (simp add: calls_ok_def) (simp add: calls_ref_def)
qed

definition msg_ref :: "int \<Rightarrow> conmsg" where
  "msg_ref cmd = \<lparr>cm_cmd = cmd, cm_pid = 42, cm_sockfd = 5, cm_addrlen = 16,
     cm_addr = Sockaddr_in 0x01020304 80\<rparr>"

lemma msg_ref_ok: "message_ok (msg_ref cmd)"
  by (simp add: message_ok_def msg_ref_def printable_def sockaddr_fits_def)

definition table_ref :: "connection hlist" where
  "table_ref = \<lparr>hl_mem = [1 \<mapsto> (vlc_conn, 0)], hl_head = 1, hl_tail = 1\<rparr>"

lemma table_ref_abs: "hl_abs table_ref []"
  by (auto simp: hl_abs_def hl_nodes_def table_ref_def intro!: exI [where x = "[]"])

definition conmgr_ref :: conmgr where
  "conmgr_ref = \<lparr>con_tbl = table_ref, conmgr_sock = 4, cg_replies = [], cg_closed = [],
     cg_unlinked = 1, cg_nm = nm_zero\<rparr>"

theorem conmgr_loop_refines_witness:
  "\<exists>cg'. (\<forall>es. conmgr_main_loop engine_ref
       (Cg_recv 148 (msg_ref 0) calls_ref 4 # Cg_recv 148 (msg_ref 1) calls_ref (-1) # es) conmgr_ref =
     conmgr_main_loop engine_ref es cg') \<and> hl_abs (con_tbl cg') [] \<and> cg_replies cg' = [148]"
proof -
  let ?qs = "[(148, msg_ref 0, calls_ref, 4), (148, msg_ref 1, calls_ref, -1)]"
  have "\<forall>q \<in> set ?qs. request_ok q"
    by (simp add: request_ok_def calls_ref_ok msg_ref_ok) (simp add: calls_ref_def)
  moreover have "serve (set [''ppp0'']) engine_ref ?qs [] = []"
    by (simp add: table_step_def msg_ref_def conn_is_def new_connection_def)
  ultimately show ?thesis
    using conmgr_loop_refines [OF engine_ref_ok, of ?qs conmgr_ref "[]"] table_ref_abs
    by (simp add: request_event_def conmgr_ref_def)
qed

section \<open>Any network\<close>

definition conn_key :: "connection \<Rightarrow> int \<times> int" where
  "conn_key c = (appID c, sockfd c)"

fun keys_step :: "conmsg \<Rightarrow> (int \<times> int) list \<Rightarrow> (int \<times> int) list" where
  "keys_step m ks =
     (if cm_cmd m = CONMGR_CMD_ADD then ks @ [(cm_pid m, cm_sockfd m)]
      else if cm_cmd m = CONMGR_CMD_REMOVE then filter (\<lambda>k. k \<noteq> (cm_pid m, cm_sockfd m)) ks
      else ks)"

lemma map_conn_key_filter:
  "map conn_key (filter (\<lambda>c. \<not> conn_is pid fd c) cs) = filter (\<lambda>k. k \<noteq> (pid, fd)) (map conn_key cs)"
  by (induction cs) (auto simp: conn_key_def conn_is_def)

lemma add_connection_keys:
  assumes "add_connection en ce pid fd sa len (tbl, nm) = Some (r, tbl', nm')" "hl_abs tbl cs"
    "calls_ok ce" "ce_malloc ce tbl \<noteq> 0" "ce_addr_malloc ce"
  shows "\<exists>cs'. hl_abs tbl' cs' \<and> map conn_key cs' = map conn_key cs @ [(pid, fd)]"
proof -
  from assms(1,4,5) obtain path conn' where
    ev: "engine_evaluate en (new_connection pid path fd sa len) nm = Some (conn', nm')"
    and app: "hl_append (ce_malloc ce tbl) conn' tbl = Some tbl'"
    by (auto simp: add_connection_def Let_def split: option.splits if_splits)
  have "hl_mem tbl (ce_malloc ce tbl) = None" using assms(3,4) by (simp add: calls_ok_def)
  with hl.append_law [OF assms(2), of "ce_malloc ce tbl" conn'] assms(4) app
  have "hl_abs tbl' (cs @ [conn'])" by auto
  moreover have "conn_key conn' = (pid, fd)"
    using pe_ev.ev_key [OF ev [unfolded engine_evaluate_def]]
    by (simp add: conn_key_def new_connection_def)
  ultimately show ?thesis by (intro exI [where x = "cs @ [conn']"]) simp
qed

lemma handle_message_step:
  assumes "handle_message en ce m cg = Some cg'" "hl_abs (con_tbl cg) cs" "calls_ok ce"
    "ce_malloc ce (con_tbl cg) \<noteq> 0" "ce_addr_malloc ce"
  shows "\<exists>cs'. hl_abs (con_tbl cg') cs' \<and> map conn_key cs' = keys_step m (map conn_key cs)"
proof -
  consider (add) "cm_cmd m = 0" | (rem) "cm_cmd m = 1" | (other) "cm_cmd m \<noteq> 0" "cm_cmd m \<noteq> 1"
    by blast
  then show ?thesis
  proof cases
    case add
    with assms(1) obtain r tbl nm where
      "add_connection en ce (cm_pid m) (cm_sockfd m) (cm_addr m) (cm_addrlen m) (con_tbl cg, cg_nm cg) =
         Some (r, tbl, nm)" "con_tbl cg' = tbl"
      by (auto simp: handle_message_def split: option.splits)
    with add_connection_keys [OF _ assms(2-5)] add show ?thesis by auto
  next
    case rem
    with assms(1) hl.remove_law [OF assms(2), of "conn_is (cm_pid m) (cm_sockfd m)"]
    have "hl_abs (con_tbl cg') (filter (\<lambda>c. \<not> conn_is (cm_pid m) (cm_sockfd m) c) cs)"
      by (auto simp: handle_message_def remove_connection_def)
    with rem show ?thesis by (auto simp: map_conn_key_filter)
  next
    case other
    with assms(1,2) show ?thesis by (auto simp: handle_message_def)
  qed
qed

text \<open>
  C11. Whatever the network and the policies do, a message that is handled (with memory available)
  changes the processes and descriptors in the table as its command says, in order, and the table
  stays well formed.
\<close>

theorem handle_message_keys:
  assumes "handle_message en ce m cg = Some cg'" "hl_abs (con_tbl cg) cs" "calls_ok ce"
    "ce_malloc ce (con_tbl cg) \<noteq> 0" "ce_addr_malloc ce"
  shows "\<exists>cs'. hl_abs (con_tbl cg') cs' \<and> map conn_key cs' = keys_step m (map conn_key cs)"
  using handle_message_step [OF assms] .

theorem handle_message_keys_witness:
  "\<exists>cg' cs'. handle_message engine_ref calls_ref (msg_ref 0) conmgr_ref = Some cg' \<and>
     hl_abs (con_tbl cg') cs' \<and> map conn_key cs' = [(42, 5)]"
proof -
  from handle_message_steady [OF engine_ref_ok calls_ref_ok msg_ref_ok [of 0], of conmgr_ref "[]"]
  obtain cg' where cg': "handle_message engine_ref calls_ref (msg_ref 0) conmgr_ref = Some cg'"
    using table_ref_abs by (auto simp: conmgr_ref_def)
  with handle_message_keys [OF cg' _ calls_ref_ok, of "[]"] table_ref_abs
  show ?thesis by (auto simp: conmgr_ref_def calls_ref_def table_ref_def msg_ref_def)
qed

section \<open>The end of the loop\<close>

lemma handle_message_abs:
  assumes "handle_message en ce m cg = Some cg'" "hl_abs (con_tbl cg) cs" "calls_ok ce"
  shows "(\<exists>cs'. hl_abs (con_tbl cg') cs') \<and> conmgr_sock cg' = conmgr_sock cg \<and>
    cg_closed cg' = cg_closed cg"
proof -
  have add: "\<exists>cs'. hl_abs tbl cs'"
    if a: "add_connection en ce pid fd sa len (con_tbl cg, nm) = Some (r, tbl, nm')"
    for pid fd sa len nm r tbl nm'
  proof (cases "ce_malloc ce (con_tbl cg) \<noteq> 0 \<and> ce_addr_malloc ce")
    case True
    with add_connection_keys [OF a assms(2,3)] show ?thesis by blast
  next
    case False
    with a assms(2) show ?thesis
      by (auto simp: add_connection_def split: option.splits if_splits)
  qed
  have rem: "\<exists>cs'. hl_abs tbl cs'" if "remove_connection pid fd (con_tbl cg) = Some tbl" for pid fd tbl
    using that hl.remove_law [OF assms(2), of "conn_is pid fd"] by (auto simp: remove_connection_def)
  show ?thesis
    using assms(1,2) add rem
    by (auto simp: handle_message_def split: if_splits option.splits prod.splits)
qed

lemma conmgr_cleanup_releases:
  assumes "conmgr_cleanup cg = Some cg'" "hl_abs (con_tbl cg) cs"
  shows "hl_mem (con_tbl cg') = Map.empty \<and> hl_head (con_tbl cg') = 0 \<and> conmgr_sock cg' < 0 \<and>
    (conmgr_sock cg \<ge> 0 \<longrightarrow> cg_closed cg' = cg_closed cg @ [conmgr_sock cg])"
  using assms by (auto simp: conmgr_cleanup_def free_connection_table_def hl_free_abs Let_def
      split: if_splits)

lemma conmgr_cleanup_defined: "hl_abs (con_tbl cg) cs \<Longrightarrow> conmgr_cleanup cg \<noteq> None"
  by (simp add: conmgr_cleanup_def free_connection_table_def hl_free_abs Let_def)

text \<open>
  C12. The loop always ends with everything released. From any well formed table, with any sequence of
  turns whose messages are well formed and whose engine answers, the loop returns, however it ends
  (exit request, failing \<open>select\<close>, failing read). Freeing a node that is not allocated, or reading
  through it, would not return; so every node of the table, the ones added on the way included,
  has been freed exactly once. No memory is left, the pointers are reset, and the socket was
  closed once.
\<close>

theorem conmgr_loop_releases:
  assumes en: "engine_ok U en" and tbl: "hl_abs (con_tbl cg) cs"
    and ok: "\<And>r m ce sent. Cg_recv r m ce sent \<in> set es \<Longrightarrow> calls_ok ce \<and> message_ok m"
  shows "\<exists>cg'. conmgr_main_loop en es cg = Some cg' \<and> hl_mem (con_tbl cg') = Map.empty \<and>
    hl_head (con_tbl cg') = 0 \<and> conmgr_sock cg' < 0 \<and>
    (conmgr_sock cg \<ge> 0 \<longrightarrow> cg_closed cg' = cg_closed cg @ [conmgr_sock cg])"
  using assms
proof (induction en es cg arbitrary: cs rule: conmgr_main_loop.induct)
  case (5 en r m ce sent es cg)
  show ?case
  proof (cases "r \<le> 0")
    case True
    then show ?thesis using conmgr_cleanup_defined [OF 5(3)] conmgr_cleanup_releases [OF _ 5(3)] by fastforce
  next
    case False
    have q: "calls_ok ce" "message_ok m" using 5(4) [of r m ce sent] by simp_all
    obtain cg1 where cg1: "handle_message en ce m cg = Some cg1"
      using handle_message_steady [OF 5(2) q 5(3)] by blast
    obtain cs1 where r1: "hl_abs (con_tbl (reply r sent cg1)) cs1" "conmgr_sock (reply r sent cg1) = conmgr_sock cg"
      "cg_closed (reply r sent cg1) = cg_closed cg"
      using handle_message_abs [OF cg1 5(3) q(1)] by (auto simp: reply_def)
    have rest: "\<And>r m ce sent. Cg_recv r m ce sent \<in> set es \<Longrightarrow> calls_ok ce \<and> message_ok m"
      using 5(4) by (meson list.set_intros(2))
    show ?thesis using 5(1) [OF False cg1 5(2) r1(1) rest] r1(2,3) False cg1 by simp
  qed
next
  case (1 en cg)
  then show ?case using conmgr_cleanup_defined [of cg cs] conmgr_cleanup_releases [of cg _ cs] by fastforce
next
  case (2 en es cg)
  then show ?case using conmgr_cleanup_defined [of cg cs] conmgr_cleanup_releases [of cg _ cs] by fastforce
next
  case (3 en es cg)
  then show ?case using conmgr_cleanup_defined [of cg cs] conmgr_cleanup_releases [of cg _ cs] by fastforce
next
  case (4 en es cg)
  then show ?case by simp
qed

theorem conmgr_loop_releases_witness:
  "\<exists>cg1 cg'. handle_message engine_ref calls_ref (msg_ref 0) conmgr_ref = Some cg1 \<and>
     (\<exists>c. hl_abs (con_tbl cg1) [c]) \<and>
     conmgr_main_loop engine_ref [Cg_recv 148 (msg_ref 0) calls_ref 4, Cg_exit] conmgr_ref = Some cg' \<and>
     hl_mem (con_tbl cg') = Map.empty \<and> cg_closed cg' = [4]"
proof -
  have abs: "hl_abs (con_tbl conmgr_ref) []" using table_ref_abs by (simp add: conmgr_ref_def)
  have "ce_malloc calls_ref (con_tbl conmgr_ref) \<noteq> 0" "ce_addr_malloc calls_ref"
    by (simp_all add: calls_ref_def conmgr_ref_def table_ref_def)
  then obtain cg1 where cg1: "handle_message engine_ref calls_ref (msg_ref 0) conmgr_ref = Some cg1" "\<exists>c. hl_abs (con_tbl cg1) [c]"
    using handle_message_steady [OF engine_ref_ok calls_ref_ok msg_ref_ok abs, of 0] by (auto simp: table_step_def msg_ref_def)
  have "\<exists>cg'. conmgr_main_loop engine_ref [Cg_recv 148 (msg_ref 0) calls_ref 4, Cg_exit] conmgr_ref = Some cg' \<and>
      hl_mem (con_tbl cg') = Map.empty \<and> hl_head (con_tbl cg') = 0 \<and> conmgr_sock cg' < 0 \<and>
      (conmgr_sock conmgr_ref \<ge> 0 \<longrightarrow> cg_closed cg' = cg_closed conmgr_ref @ [conmgr_sock conmgr_ref])"
    by (rule conmgr_loop_releases [OF engine_ref_ok abs]) (auto simp: calls_ref_ok msg_ref_ok)
  then obtain cg' where "conmgr_main_loop engine_ref [Cg_recv 148 (msg_ref 0) calls_ref 4, Cg_exit] conmgr_ref = Some cg'"
    "hl_mem (con_tbl cg') = Map.empty" "cg_closed cg' = [4]"
    by (elim exE conjE) (simp add: conmgr_ref_def)
  then show ?thesis using cg1 by blast
qed

end
