(* ===== verification/Libsine.thy ===== *)
theory Libsine
  imports Sockets Cstdlib
begin

text \<open>
  The library applications (and the SOCKS server) use to talk to the connection manager
  (\<open>src/sined/lib/libsine.c\<close>): one datagram out, one integer back, over a socket that is opened
  on first use and closed on every error.
\<close>

record libsine =
  lib_sock :: int
  ls_sent :: "conmsg list"
  ls_closed :: "int list"
  ls_unlinked :: "string list"

text \<open>The results of the calls of one exchange; \<open>le_recv\<close> is the answer, \<open>None\<close> on failure.\<close>

record lib_env =
  le_pid :: nat
  le_socket :: int
  le_bind :: int
  le_setsockopt :: int
  le_sendto :: int
  le_recv :: "int option"

definition lib_path :: "nat \<Rightarrow> string" where
  "lib_path pid = ''/tmp/libsine_'' @ nat_digits pid"

definition lib_error :: "libsine \<Rightarrow> int \<times> libsine" where
  "lib_error ls =
     (-1, if lib_sock ls \<ge> 0
          then ls\<lparr>ls_closed := ls_closed ls @ [lib_sock ls], lib_sock := -1\<rparr> else ls)"

definition lib_open :: "lib_env \<Rightarrow> libsine \<Rightarrow> libsine + libsine" where
  "lib_open e ls =
     (if lib_sock ls < 0 then
        (let ls1 = ls\<lparr>lib_sock := le_socket e\<rparr>
         in if le_socket e < 0 then Inl ls1
            else
              (let ls2 = ls1\<lparr>ls_unlinked := ls_unlinked ls1 @ [lib_path (le_pid e)]\<rparr>
               in if le_bind e \<noteq> 0 then Inl ls2
                  else if le_setsockopt e \<noteq> 0 then Inl ls2
                  else Inr ls2))
      else Inr ls)"

definition sine_sendto_conmgr :: "lib_env \<Rightarrow> conmsg \<Rightarrow> libsine \<Rightarrow> int \<times> libsine" where
  "sine_sendto_conmgr e m ls =
     (case lib_open e ls of
        Inl ls1 \<Rightarrow> lib_error ls1
      | Inr ls1 \<Rightarrow>
          if le_sendto e < 0 then lib_error ls1
          else
            (let ls2 = ls1\<lparr>ls_sent := ls_sent ls1 @ [m]\<rparr>
             in case le_recv e of
                  None \<Rightarrow> lib_error ls2
                | Some r \<Rightarrow> (r, ls2)))"

text \<open>\<open>libsine_exit\<close> closes the socket but keeps its number.\<close>

definition libsine_exit :: "lib_env \<Rightarrow> int \<Rightarrow> libsine \<Rightarrow> int \<times> libsine" where
  "libsine_exit e closed ls =
     (if lib_sock ls \<ge> 0
      then (closed, ls\<lparr>ls_unlinked := ls_unlinked ls @ [lib_path (le_pid e)],
                       ls_closed := ls_closed ls @ [lib_sock ls]\<rparr>)
      else (0, ls))"

text \<open>
  The wrappers. \<open>sine_connect\<close> leaves \<open>addr\<close> and \<open>addrlen\<close> of the message unset: \<open>junk\<close> is what
  the stack holds there. The last argument is the result of the wrapped call.
\<close>

definition sine_connect :: "lib_env \<Rightarrow> conmsg \<Rightarrow> int \<Rightarrow> int \<Rightarrow> libsine \<Rightarrow> int \<times> libsine" where
  "sine_connect e junk fd res ls =
     (res, snd (sine_sendto_conmgr e
        (junk\<lparr>cm_cmd := CONMGR_CMD_ADD, cm_pid := int (le_pid e), cm_sockfd := fd\<rparr>) ls))"

definition sine_close :: "lib_env \<Rightarrow> conmsg \<Rightarrow> int \<Rightarrow> int \<Rightarrow> libsine \<Rightarrow> int \<times> libsine" where
  "sine_close e junk fd res ls =
     (res, snd (sine_sendto_conmgr e
        (junk\<lparr>cm_cmd := CONMGR_CMD_REMOVE, cm_pid := int (le_pid e), cm_sockfd := fd\<rparr>) ls))"

text \<open>The descriptor an exchange works with.\<close>

definition current_fd :: "lib_env \<Rightarrow> libsine \<Rightarrow> int" where
  "current_fd e ls = (if lib_sock ls < 0 then le_socket e else lib_sock ls)"


lemma lib_open_cases:
  "(\<exists>ls1. lib_open e ls = Inl ls1 \<and> ls_sent ls1 = ls_sent ls \<and> ls_closed ls1 = ls_closed ls \<and>
      lib_sock ls < 0 \<and> lib_sock ls1 = le_socket e) \<or>
   (\<exists>ls1. lib_open e ls = Inr ls1 \<and> ls_sent ls1 = ls_sent ls \<and> ls_closed ls1 = ls_closed ls \<and>
      0 \<le> lib_sock ls1 \<and> lib_sock ls1 = (if lib_sock ls < 0 then le_socket e else lib_sock ls))"
  by (auto simp: lib_open_def Let_def)

text \<open>
  C29. An exchange either delivers exactly the message and returns the answer with the socket
  still open, or returns -1 with the socket closed, its number reset and nothing left open, so
  that the next exchange starts afresh.
\<close>

theorem sendto_conmgr_outcome:
  "\<exists>r ls'. sine_sendto_conmgr e m ls = (r, ls') \<and>
    (le_recv e = Some r \<and> ls_sent ls' = ls_sent ls @ [m] \<and> 0 \<le> lib_sock ls' \<and>
       ls_closed ls' = ls_closed ls \<or>
     r = -1 \<and> lib_sock ls' < 0 \<and>
       ls_closed ls' = ls_closed ls @ filter (\<lambda>fd. 0 \<le> fd) [current_fd e ls])"
  using lib_open_cases [of e ls]
proof (elim disjE exE conjE)
  fix ls1
  assume "lib_open e ls = Inl ls1" "ls_closed ls1 = ls_closed ls" "lib_sock ls < 0"
    "lib_sock ls1 = le_socket e"
  then show ?thesis by (auto simp: sine_sendto_conmgr_def lib_error_def current_fd_def)
next
  fix ls1
  assume "lib_open e ls = Inr ls1" "ls_sent ls1 = ls_sent ls" "ls_closed ls1 = ls_closed ls"
    "0 \<le> lib_sock ls1" "lib_sock ls1 = (if lib_sock ls < 0 then le_socket e else lib_sock ls)"
  then show ?thesis
    by (cases "le_sendto e < 0"; cases "le_recv e")
      (simp_all add: sine_sendto_conmgr_def lib_error_def current_fd_def Let_def)
qed

end
