(* ===== verification/Socks.thy ===== *)
theory Socks
  imports Libsine Inet
begin

text \<open>
  The SOCKS server of the daemon (\<open>src/sined/src/socks.c\<close>, built with \<open>SOCKS_IPV4\<close>): finding
  the process behind a client, the SOCKS5 handshake, the forwarding loop, the accept loop and the
  initialisation. What the server does to the outside is a list of effects.
\<close>

section \<open>Finding the process of a client\<close>

text \<open>\<open>strtok_r\<close> with a single blank as delimiter: the non-empty fields of a line.\<close>

fun strtok_sp :: "string \<Rightarrow> string \<Rightarrow> string list" where
  "strtok_sp acc [] = (if acc = [] then [] else [acc])"
| "strtok_sp acc (c # cs) =
     (if c = CHR '' '' then (if acc = [] then strtok_sp [] cs else acc # strtok_sp [] cs)
      else strtok_sp (acc @ [c]) cs)"

text \<open>\<open>%08X\<close> and \<open>%04X\<close> of the address (in memory order) and the port.\<close>

definition hex_upper :: "nat \<Rightarrow> char" where
  "hex_upper d = char_of (if d < 10 then 48 + d else 55 + d)"

fun hex_pad :: "nat \<Rightarrow> nat \<Rightarrow> string" where
  "hex_pad 0 n = []"
| "hex_pad (Suc k) n = hex_pad k (n div 16) @ [hex_upper (n mod 16)]"

definition SOCKS_PORT :: nat where "SOCKS_PORT = 10808"

definition bswap32 :: "u32 \<Rightarrow> u32" where
  "bswap32 a = push_bit 24 (a AND 0xFF) OR push_bit 8 (a AND 0xFF00) OR
     (drop_bit 8 a AND 0xFF00) OR (drop_bit 24 a AND 0xFF)"

text \<open>
  The local and remote column to look for. The address is printed as the 32 bit number its bytes
  make on a little-endian machine, as \<open>/proc/net/tcp\<close> prints it.
\<close>

definition tcp_src :: "u32 \<Rightarrow> u16 \<Rightarrow> string" where
  "tcp_src a p = hex_pad 8 (unat (bswap32 a)) @ '':'' @ hex_pad 4 (unat p)"

definition tcp_dst :: "u32 \<Rightarrow> string" where
  "tcp_dst a = hex_pad 8 (unat (bswap32 a)) @ '':'' @ hex_pad 4 SOCKS_PORT"

text \<open>
  One line of the table after the title: \<open>Inl\<close> continues, \<open>Inr\<close> is the descriptor to look for.
  A line with too few fields makes \<open>strcmp\<close> or \<open>sprintf\<close> read through NULL.
\<close>

definition tcp_line :: "string \<Rightarrow> string \<Rightarrow> string \<Rightarrow> (unit + string) cres" where
  "tcp_line src dst line =
     (let ts = strtok_sp [] (cstr line)
      in if length ts < 3 then None
         else if ts ! 1 \<noteq> src \<or> ts ! 2 \<noteq> dst then Some (Inl ())
         else if length ts < 10 then None
         else Some (Inr (''socket:['' @ ts ! 9 @ '']'')))"

fun tcp_scan :: "string \<Rightarrow> string \<Rightarrow> string list \<Rightarrow> string cres" where
  "tcp_scan src dst [] = Some []"
| "tcp_scan src dst (l # ls) =
     (case tcp_line src dst l of
        None \<Rightarrow> None
      | Some (Inl _) \<Rightarrow> tcp_scan src dst ls
      | Some (Inr d) \<Rightarrow> Some d)"

text \<open>
  A directory of \<open>/proc\<close>: its name, and for one with a readable \<open>fd\<close> directory the names and the
  targets of its links (\<open>None\<close> where \<open>readlink\<close> fails).
\<close>

record proc_dir =
  pd_name :: string
  pd_fds :: "(string \<times> string option) list option"

abbreviation (input) PATH_BUF_SIZE :: nat where "PATH_BUF_SIZE \<equiv> 256"

text \<open>\<open>readlink\<close> overwrites the front of the buffer and leaves the rest as it was.\<close>

definition overlay :: "char list \<Rightarrow> char list \<Rightarrow> char list" where
  "overlay new old = take PATH_BUF_SIZE new @ drop (length (take PATH_BUF_SIZE new)) old"

fun scan_fds :: "string \<Rightarrow> nat \<Rightarrow> (string \<times> string option) list \<Rightarrow> char list \<Rightarrow> (bool \<times> char list) cres"
where
  "scan_fds desc n [] buf = Some (False, buf)"
| "scan_fds desc n ((name, link) # fds) buf =
     (if n + 1 + length name + 1 > PATH_BUF_SIZE then None
      else case link of
        None \<Rightarrow> scan_fds desc n fds buf
      | Some target \<Rightarrow>
          (let buf1 = overlay target buf
           in if length desc \<ge> length buf1 then None
              else let buf2 = buf1[length desc := CHR 0x00]
                   in if desc = cstr buf2 then Some (True, buf2) else scan_fds desc n fds buf2))"

text \<open>
  The state of the variable \<open>fd_dir\<close>: NULL, or the directory it points to has been closed. At the
  label \<open>error\<close> a pointer that is not NULL is closed, again if it was closed before.
\<close>

datatype dirptr = Dir_null | Dir_closed

fun scan_proc :: "string \<Rightarrow> proc_dir list \<Rightarrow> char list \<Rightarrow> dirptr \<Rightarrow> int cres" where
  "scan_proc desc [] buf fd_dir = (case fd_dir of Dir_null \<Rightarrow> Some (-1) | Dir_closed \<Rightarrow> None)"
| "scan_proc desc (d # ds) buf fd_dir =
     (let pid = to_int32 (strtol10 (pd_name d)); num = int_digits pid;
          buf1 = overlay (num @ [CHR 0x00]) buf
      in if num \<noteq> pd_name d then scan_proc desc ds buf1 fd_dir
         else case pd_fds d of
           None \<Rightarrow> scan_proc desc ds buf1 Dir_null
         | Some fds \<Rightarrow>
             (case scan_fds desc (length (''/proc/'' @ pd_name d @ ''/fd'')) fds buf1 of
                None \<Rightarrow> None
              | Some (True, _) \<Rightarrow> Some pid
              | Some (False, buf2) \<Rightarrow> scan_proc desc ds buf2 Dir_closed))"

text \<open>
  \<open>tcp\<close> is what \<open>fgets\<close> delivers of \<open>/proc/net/tcp\<close> (\<open>None\<close> when it cannot be opened), \<open>proc\<close>
  the listing of \<open>/proc\<close>, \<open>buf\<close> the 256 bytes of \<open>buf\<close> when the search of \<open>/proc\<close> starts.
\<close>

definition get_pid_by_sockaddr ::
  "string list option \<Rightarrow> proc_dir list option \<Rightarrow> char list \<Rightarrow> u32 \<Rightarrow> u16 \<Rightarrow> int cres" where
  "get_pid_by_sockaddr tcp proc buf a p =
     (case tcp of
        None \<Rightarrow> Some (-1)
      | Some [] \<Rightarrow> Some (-1)
      | Some (title # ls) \<Rightarrow>
          (case tcp_scan (tcp_src a p) (tcp_dst a) ls of
             None \<Rightarrow> None
           | Some desc \<Rightarrow>
               if desc = [] then Some (-1)
               else (case proc of
                       None \<Rightarrow> Some (-1)
                     | Some ds \<Rightarrow> scan_proc desc ds buf Dir_null)))"

section \<open>Messages\<close>

abbreviation (input) SOCKS_V5 :: u8 where "SOCKS_V5 \<equiv> 5"
abbreviation (input) SOCKS_METHOD_NONE :: u8 where "SOCKS_METHOD_NONE \<equiv> 0x00"
abbreviation (input) SOCKS_METHOD_NOT_ACCEPTED :: u8 where "SOCKS_METHOD_NOT_ACCEPTED \<equiv> 0xFF"
abbreviation (input) SOCKS_CMD_CONNECT :: u8 where "SOCKS_CMD_CONNECT \<equiv> 1"
abbreviation (input) SOCKS_ATYP_IPV4 :: u8 where "SOCKS_ATYP_IPV4 \<equiv> 1"
abbreviation (input) SOCKS_ATYP_DOMAIN :: u8 where "SOCKS_ATYP_DOMAIN \<equiv> 3"
abbreviation (input) SOCKS_ATYP_IPV6 :: u8 where "SOCKS_ATYP_IPV6 \<equiv> 4"
abbreviation (input) SOCKS_REP_SUCCEEDED :: u8 where "SOCKS_REP_SUCCEEDED \<equiv> 0"
abbreviation (input) SOCKS_REP_GENERAL_FAILURE :: u8 where "SOCKS_REP_GENERAL_FAILURE \<equiv> 1"
abbreviation (input) SOCKS_REP_NETWORK_UNREACHABLE :: u8 where "SOCKS_REP_NETWORK_UNREACHABLE \<equiv> 3"
abbreviation (input) SOCKS_REP_HOST_UNREACHABLE :: u8 where "SOCKS_REP_HOST_UNREACHABLE \<equiv> 4"
abbreviation (input) SOCKS_REP_CONNECTION_REFUSED :: u8 where "SOCKS_REP_CONNECTION_REFUSED \<equiv> 5"
abbreviation (input) SOCKS_REP_CMD_NOT_SUPPORTED :: u8 where "SOCKS_REP_CMD_NOT_SUPPORTED \<equiv> 7"
abbreviation (input) SOCKS_REP_ATYP_NOT_SUPPORTED :: u8 where "SOCKS_REP_ATYP_NOT_SUPPORTED \<equiv> 8"

text \<open>Sizes of \<open>mtdreq_t\<close> and \<open>socksreq_t\<close> (the union is aligned to 4 bytes and padded to 260).\<close>

abbreviation (input) MTDREQ_SIZE :: nat where "MTDREQ_SIZE \<equiv> 258"
abbreviation (input) SOCKSREQ_SIZE :: nat where "SOCKSREQ_SIZE \<equiv> 264"

datatype errno = ENETUNREACH | ETIMEDOUT | ECONNREFUSED | Eother

datatype socks_eff =
    E_send int bytes
  | E_close int
  | E_conmgr conmsg
  | E_thread int int int

text \<open>
  The outcomes of one handshake. The two buffers are the structs as \<open>recv\<close> leaves them, the bytes
  past the received ones being what the stack held. \<open>se_thread\<close> is the result of
  \<open>pthread_create\<close>, 0 when the forwarding thread runs; the code does not look at it.
\<close>

record socks_env =
  se_len1 :: int
  se_method :: bytes
  se_send1 :: int
  se_len2 :: int
  se_req :: bytes
  se_getaddrinfo :: "string \<Rightarrow> string \<Rightarrow> sockaddr list option"
  se_socket :: int
  se_connect :: int
  se_errno :: errno
  se_send2 :: int
  se_malloc :: bool
  se_thread :: int

definition sockaddr_len :: "sockaddr \<Rightarrow> u32" where
  "sockaddr_len sa = (case sa of Sockaddr_in _ _ \<Rightarrow> 16 | Sockaddr_in6 _ _ \<Rightarrow> 28 | Sockaddr_other _ \<Rightarrow> 2)"

text \<open>The loop that looks for a method without authentication.\<close>

fun method_loop :: "nat \<Rightarrow> bytes \<Rightarrow> bool" where
  "method_loop 0 ms = False"
| "method_loop (Suc n) [] = False"
| "method_loop (Suc n) (m # ms) = (if m = SOCKS_METHOD_NONE then True else method_loop n ms)"

text \<open>
  The name and service of a domain request. The length is an unsigned 32 bit number, so taking 2
  from it wraps; \<open>strncpy\<close> then writes that many bytes into the 256 bytes of \<open>node\<close>.
\<close>

definition domain_node :: "bytes \<Rightarrow> (string \<times> string) cres" where
  "domain_node req =
     (let nbytes = req ! 4; data = drop 5 req; len = (ucast nbytes :: u32);
          service = nat_digits (unat (be16 (data ! unat nbytes) (data ! (unat nbytes + 1))));
          chars = map (\<lambda>b. char_of (unat b)) data
      in if data ! 0 = 0x5B then
           (let len' = len - 2
            in if unat len' + 1 > 256 then None
               else Some (cstr (strncpy (unat len') (drop 1 chars)), service))
         else
           (if unat len + 1 > 256 then None
            else Some (cstr (strncpy (unat len) chars), service)))"

fun first_inet :: "sockaddr list \<Rightarrow> sockaddr option" where
  "first_inet [] = None"
| "first_inet (Sockaddr_in a p # _) = Some (Sockaddr_in a p)"
| "first_inet (Sockaddr_in6 a p # _) = Some (Sockaddr_in6 a p)"
| "first_inet (Sockaddr_other _ # rs) = first_inet rs"

text \<open>
  The switch over the address type: \<open>Inl\<close> is the jump to \<open>error\<close> when the name does not
  resolve, \<open>Inr\<close> the address to connect to, if any.
\<close>

definition be32 :: "u8 \<Rightarrow> u8 \<Rightarrow> u8 \<Rightarrow> u8 \<Rightarrow> u32" where
  "be32 a b c d = push_bit 24 (ucast a) OR push_bit 16 (ucast b) OR push_bit 8 (ucast c) OR ucast d"

definition pick_address ::
  "(string \<Rightarrow> string \<Rightarrow> sockaddr list option) \<Rightarrow> bytes \<Rightarrow> (unit + sockaddr option) cres" where
  "pick_address getaddrinfo req =
     (if req ! 3 = SOCKS_ATYP_IPV4 then
        Some (Inr (Some (Sockaddr_in (be32 (req ! 4) (req ! 5) (req ! 6) (req ! 7))
                           (be16 (req ! 8) (req ! 9)))))
      else if req ! 3 = SOCKS_ATYP_DOMAIN then
        (case domain_node req of
           None \<Rightarrow> None
         | Some (node, service) \<Rightarrow>
             (case getaddrinfo node service of
                None \<Rightarrow> Some (Inl ())
              | Some rs \<Rightarrow> Some (Inr (first_inet rs))))
      else if req ! 3 = SOCKS_ATYP_IPV6 then
        Some (Inr (Some (Sockaddr_in6 (take 16 (drop 4 req)) (be16 (req ! 20) (req ! 21)))))
      else Some (Inr None))"

section \<open>The handshake\<close>

text \<open>The reply code, and the remote socket when \<open>socket\<close> was called.\<close>

definition connect_remote :: "socks_env \<Rightarrow> sockaddr option \<Rightarrow> u8 \<Rightarrow> u8 \<times> int" where
  "connect_remote e rem cmd =
     (case rem of
        None \<Rightarrow> (SOCKS_REP_ATYP_NOT_SUPPORTED, -1)
      | Some sa \<Rightarrow>
          if cmd \<noteq> SOCKS_CMD_CONNECT then (SOCKS_REP_CMD_NOT_SUPPORTED, -1)
          else if se_socket e < 0 then (SOCKS_REP_GENERAL_FAILURE, se_socket e)
          else if se_connect e < 0 then
            (case se_errno e of
               ENETUNREACH \<Rightarrow> SOCKS_REP_NETWORK_UNREACHABLE
             | ETIMEDOUT \<Rightarrow> SOCKS_REP_HOST_UNREACHABLE
             | ECONNREFUSED \<Rightarrow> SOCKS_REP_CONNECTION_REFUSED
             | Eother \<Rightarrow> SOCKS_REP_GENERAL_FAILURE, se_socket e)
          else (SOCKS_REP_SUCCEEDED, se_socket e))"

definition socks_error :: "int \<Rightarrow> int \<Rightarrow> socks_eff list" where
  "socks_error rem_sock cli_sock =
     (if rem_sock \<ge> 0 then [E_close rem_sock] else []) @ [E_close cli_sock]"

definition add_msg :: "int \<Rightarrow> int \<Rightarrow> sockaddr \<Rightarrow> conmsg" where
  "add_msg pid rem_sock sa =
     \<lparr>cm_cmd = CONMGR_CMD_ADD, cm_pid = pid, cm_sockfd = rem_sock, cm_addrlen = sockaddr_len sa,
      cm_addr = sa\<rparr>"

definition socks_request :: "socks_env \<Rightarrow> int \<Rightarrow> int \<Rightarrow> socks_eff list cres" where
  "socks_request e cli_sock pid =
     (if se_len2 e \<le> 0 then Some (socks_error (-1) cli_sock)
      else if se_req e ! 0 \<noteq> SOCKS_V5 then Some (socks_error (-1) cli_sock)
      else
        (case pick_address (se_getaddrinfo e) (se_req e) of
           None \<Rightarrow> None
         | Some (Inl _) \<Rightarrow> Some (socks_error (-1) cli_sock)
         | Some (Inr rem) \<Rightarrow>
             (let (code, rem_sock) = connect_remote e rem (se_req e ! 1);
                  res = take (nat (se_len2 e)) ((se_req e)[1 := code]);
                  sent = [E_send cli_sock res]
              in if se_send2 e \<noteq> se_len2 e then Some (sent @ socks_error rem_sock cli_sock)
                 else if code = SOCKS_REP_SUCCEEDED then
                   (if se_malloc e then
                      Some (sent @ [E_conmgr (add_msg pid rem_sock (the rem))] @
                            (if se_thread e = 0 then [E_thread cli_sock rem_sock pid] else []))
                    else None)
                 else Some (sent @ socks_error rem_sock cli_sock))))"

definition socks_establish :: "socks_env \<Rightarrow> int \<Rightarrow> int \<Rightarrow> socks_eff list cres" where
  "socks_establish e cli_sock pid =
     (if se_len1 e \<le> 0 then Some (socks_error (-1) cli_sock)
      else if se_method e ! 0 \<noteq> SOCKS_V5 then Some (socks_error (-1) cli_sock)
      else if method_loop (unat (se_method e ! 1)) (drop 2 (se_method e)) then
        (if se_send1 e \<noteq> 2
         then Some (E_send cli_sock [SOCKS_V5, SOCKS_METHOD_NONE] # socks_error (-1) cli_sock)
         else map_option (\<lambda>effs. E_send cli_sock [SOCKS_V5, SOCKS_METHOD_NONE] # effs)
                (socks_request e cli_sock pid))
      else Some [E_send cli_sock [SOCKS_V5, SOCKS_METHOD_NOT_ACCEPTED], E_close cli_sock])"

section \<open>Forwarding\<close>

text \<open>
  What one side of a turn sees when its descriptor is ready: data and the result of passing it
  on, the end of the stream, or an error. The buffer takes \<open>SOCK_BUF_SIZE\<close> bytes.
\<close>

datatype fw_recv = Fw_data bytes int | Fw_closed | Fw_fail

record fw_turn =
  ft_select :: int
  ft_cli :: "fw_recv option"
  ft_rem :: "fw_recv option"

definition forward_side :: "int \<Rightarrow> fw_recv option \<Rightarrow> bool \<times> socks_eff list" where
  "forward_side to r =
     (case r of
        None \<Rightarrow> (True, [])
      | Some Fw_closed \<Rightarrow> (False, [])
      | Some Fw_fail \<Rightarrow> (False, [])
      | Some (Fw_data bs sent) \<Rightarrow>
          if sent > 0 then (True, [E_send to (take (nat sent) bs)]) else (False, []))"

definition remove_msg :: "conmsg \<Rightarrow> int \<Rightarrow> int \<Rightarrow> conmsg" where
  "remove_msg junk pid rem_sock =
     junk\<lparr>cm_cmd := CONMGR_CMD_REMOVE, cm_pid := pid, cm_sockfd := rem_sock\<rparr>"

definition forward_end :: "conmsg \<Rightarrow> int \<Rightarrow> int \<Rightarrow> int \<Rightarrow> socks_eff list" where
  "forward_end junk cli_sock rem_sock pid =
     [E_close cli_sock, E_close rem_sock, E_conmgr (remove_msg junk pid rem_sock)]"

text \<open>The turns the loop takes until \<open>exit_flag\<close> is seen.\<close>

fun forward_loop :: "conmsg \<Rightarrow> int \<Rightarrow> int \<Rightarrow> int \<Rightarrow> fw_turn list \<Rightarrow> socks_eff list" where
  "forward_loop junk cli_sock rem_sock pid [] = forward_end junk cli_sock rem_sock pid"
| "forward_loop junk cli_sock rem_sock pid (t # ts) =
     (if ft_select t = 0 then forward_loop junk cli_sock rem_sock pid ts
      else if ft_select t < 0 then forward_end junk cli_sock rem_sock pid
      else
        (let (go1, effs1) = forward_side rem_sock (ft_cli t)
         in if \<not> go1 then effs1 @ forward_end junk cli_sock rem_sock pid
            else
              (let (go2, effs2) = forward_side cli_sock (ft_rem t)
               in effs1 @ effs2 @
                  (if go2 then forward_loop junk cli_sock rem_sock pid ts
                   else forward_end junk cli_sock rem_sock pid))))"

section \<open>The server\<close>

record accept_env =
  ac_sock :: int
  ac_tcp :: "string list option"
  ac_proc :: "proc_dir list option"
  ac_buf :: "char list"
  ac_addr :: u32
  ac_port :: u16
  ac_env :: socks_env

datatype sk_event = Sk_select_fail | Sk_exit | Sk_accept accept_env | Sk_idle

definition serve_client :: "accept_env \<Rightarrow> socks_eff list cres" where
  "serve_client ac =
     (if ac_sock ac < 0 then Some []
      else
        (case get_pid_by_sockaddr (ac_tcp ac) (ac_proc ac) (ac_buf ac) (ac_addr ac) (ac_port ac) of
           None \<Rightarrow> None
         | Some pid \<Rightarrow>
             if pid < 0 then Some [E_close (ac_sock ac)]
             else socks_establish (ac_env ac) (ac_sock ac) pid))"

definition socks_cleanup :: "int \<Rightarrow> socks_eff list" where
  "socks_cleanup serv_sock = (if serv_sock \<ge> 0 then [E_close serv_sock] else [])"

fun socks_main_loop :: "int \<Rightarrow> sk_event list \<Rightarrow> socks_eff list cres" where
  "socks_main_loop serv_sock [] = Some (socks_cleanup serv_sock)"
| "socks_main_loop serv_sock (Sk_select_fail # _) = Some (socks_cleanup serv_sock)"
| "socks_main_loop serv_sock (Sk_exit # _) = Some (socks_cleanup serv_sock)"
| "socks_main_loop serv_sock (Sk_idle # es) = socks_main_loop serv_sock es"
| "socks_main_loop serv_sock (Sk_accept ac # es) =
     (case serve_client ac of
        None \<Rightarrow> None
      | Some effs \<Rightarrow> map_option (\<lambda>effs'. effs @ effs') (socks_main_loop serv_sock es))"

text \<open>The results of \<open>socket\<close>, \<open>setsockopt\<close>, \<open>bind\<close>, \<open>listen\<close> and \<open>pthread_create\<close>.\<close>

definition init_socks_server :: "int \<Rightarrow> int \<Rightarrow> int \<Rightarrow> int \<Rightarrow> int \<Rightarrow> int \<times> int \<times> socks_eff list" where
  "init_socks_server sock opt bound listening thread =
     (if sock < 0 then (-1, sock, [])
      else if opt \<noteq> 0 \<or> bound \<noteq> 0 \<or> listening \<noteq> 0 \<or> thread \<noteq> 0 then (-1, -1, [E_close sock])
      else (0, sock, []))"

section \<open>Lemmas\<close>

fun closes :: "socks_eff list \<Rightarrow> int list" where
  "closes [] = []"
| "closes (E_close fd # es) = fd # closes es"
| "closes (_ # es) = closes es"

fun handed_over :: "socks_eff list \<Rightarrow> (conmsg list \<times> (int \<times> int \<times> int) list)" where
  "handed_over [] = ([], [])"
| "handed_over (E_conmgr m # es) = (m # fst (handed_over es), snd (handed_over es))"
| "handed_over (E_thread c r p # es) = (fst (handed_over es), (c, r, p) # snd (handed_over es))"
| "handed_over (_ # es) = handed_over es"

fun sent_to :: "int \<Rightarrow> socks_eff list \<Rightarrow> bytes" where
  "sent_to fd [] = []"
| "sent_to fd (E_send fd' bs # es) = (if fd = fd' then bs else []) @ sent_to fd es"
| "sent_to fd (_ # es) = sent_to fd es"

lemma closes_append [simp]: "closes (xs @ ys) = closes xs @ closes ys"
  by (induction xs rule: closes.induct) simp_all

lemma sent_to_append [simp]: "sent_to fd (xs @ ys) = sent_to fd xs @ sent_to fd ys"
  by (induction fd xs rule: sent_to.induct) simp_all

lemma handed_over_append [simp]:
  "handed_over (xs @ ys) =
     (fst (handed_over xs) @ fst (handed_over ys), snd (handed_over xs) @ snd (handed_over ys))"
  by (induction xs rule: handed_over.induct) simp_all

lemma socks_error_simps [simp]:
  "closes (socks_error rem_sock cli) = (if rem_sock \<ge> 0 then [rem_sock] else []) @ [cli]"
  "handed_over (socks_error rem_sock cli) = ([], [])" "sent_to fd (socks_error rem_sock cli) = []"
  by (simp_all add: socks_error_def)

text \<open>The remote side is up when all of the following went well.\<close>

definition connected :: "socks_env \<Rightarrow> sockaddr option \<Rightarrow> bool" where
  "connected e rem \<longleftrightarrow> rem \<noteq> None \<and> se_req e ! 1 = SOCKS_CMD_CONNECT \<and> 0 \<le> se_socket e \<and> 0 \<le> se_connect e"

lemma connect_remote_code:
  "fst (connect_remote e rem (se_req e ! 1)) = 0 \<longleftrightarrow> connected e rem"
  by (auto simp: connect_remote_def connected_def split: option.splits errno.splits)

lemma connect_remote_sock:
  "connected e rem \<Longrightarrow> snd (connect_remote e rem (se_req e ! 1)) = se_socket e"
  "snd (connect_remote e rem (se_req e ! 1)) \<in> {-1, se_socket e}"
  by (auto simp: connect_remote_def connected_def split: option.splits)

text \<open>The request has been read, and the address it names was found.\<close>

definition request_read :: "socks_env \<Rightarrow> bool" where
  "request_read e \<longleftrightarrow> 0 < se_len1 e \<and> se_method e ! 0 = SOCKS_V5 \<and>
     method_loop (unat (se_method e ! 1)) (drop 2 (se_method e)) \<and> se_send1 e = 2 \<and>
     0 < se_len2 e \<and> se_req e ! 0 = SOCKS_V5"

definition remote_opened :: "socks_env \<Rightarrow> bool" where
  "remote_opened e \<longleftrightarrow> request_read e \<and> se_req e ! 1 = SOCKS_CMD_CONNECT \<and> 0 \<le> se_socket e \<and>
     (case pick_address (se_getaddrinfo e) (se_req e) of
        Some (Inr (Some _)) \<Rightarrow> True | _ \<Rightarrow> False)"

lemma socks_request_cases:
  assumes "socks_request e cli pid = Some effs" "request_read e"
  obtains (unresolved) "pick_address (se_getaddrinfo e) (se_req e) = Some (Inl ())"
      "effs = socks_error (-1) cli"
  | (refused) rem where "pick_address (se_getaddrinfo e) (se_req e) = Some (Inr rem)"
      "effs = E_send cli (take (nat (se_len2 e))
         ((se_req e)[1 := fst (connect_remote e rem (se_req e ! 1))])) #
         socks_error (snd (connect_remote e rem (se_req e ! 1))) cli"
      "se_send2 e \<noteq> se_len2 e \<or> \<not> connected e rem"
  | (accepted) sa where "pick_address (se_getaddrinfo e) (se_req e) = Some (Inr (Some sa))"
      "effs = [E_send cli (take (nat (se_len2 e)) ((se_req e)[1 := 0])),
         E_conmgr (add_msg pid (se_socket e) sa)] @
         (if se_thread e = 0 then [E_thread cli (se_socket e) pid] else [])"
      "connected e (Some sa)" "se_send2 e = se_len2 e"
proof -
  from assms(2) have r: "\<not> se_len2 e \<le> 0" "se_req e ! 0 = SOCKS_V5" by (auto simp: request_read_def)
  from assms(1) r obtain x where x: "pick_address (se_getaddrinfo e) (se_req e) = Some x"
    by (auto simp: socks_request_def split: option.splits)
  show ?thesis
  proof (cases x)
    case (Inl u)
    with assms(1) r x unresolved show ?thesis by (simp add: socks_request_def)
  next
    case (Inr rem)
    obtain code sock where c: "connect_remote e rem (se_req e ! 1) = (code, sock)" by fastforce
    have code: "code = 0 \<longleftrightarrow> connected e rem" using connect_remote_code [of e rem] c by simp
    show ?thesis
    proof (cases "se_send2 e = se_len2 e \<and> code = 0")
      case True
      with code have con: "connected e rem" by simp
      then obtain sa where sa: "rem = Some sa" by (auto simp: connected_def)
      have "sock = se_socket e" using connect_remote_sock(1) [OF con] c by simp
      with assms(1) r x Inr c True con sa accepted show ?thesis
        by (simp add: socks_request_def Let_def split: if_splits)
    next
      case False
      then have "effs = E_send cli (take (nat (se_len2 e)) ((se_req e)[1 := code])) #
          socks_error sock cli"
        using assms(1) r x Inr c by (auto simp: socks_request_def Let_def split: if_splits)
      with x Inr c code False show ?thesis by (intro refused [of rem]) auto
    qed
  qed
qed

lemma socks_establish_unread:
  assumes "socks_establish e cli pid = Some effs" "\<not> request_read e"
  shows "handed_over effs = ([], []) \<and> closes effs = [cli]"
  using assms
  by (auto simp: socks_establish_def socks_request_def request_read_def split: if_splits)

lemma socks_establish_read:
  assumes "request_read e"
  shows "socks_establish e cli pid =
    map_option (\<lambda>effs. E_send cli [SOCKS_V5, SOCKS_METHOD_NONE] # effs) (socks_request e cli pid)"
  using assms by (auto simp: socks_establish_def request_read_def)

lemma socks_establish_handed:
  assumes "socks_establish e cli pid = Some effs"
  shows "handed_over effs = ([], []) \<or>
    (\<exists>sa. handed_over effs = ([add_msg pid (se_socket e) sa],
       if se_thread e = 0 then [(cli, se_socket e, pid)] else []))"
proof (cases "request_read e")
  case True
  with assms obtain effs1 where e1: "socks_request e cli pid = Some effs1"
    "effs = E_send cli [SOCKS_V5, SOCKS_METHOD_NONE] # effs1"
    by (auto simp: socks_establish_read)
  from e1(1) True show ?thesis by (cases rule: socks_request_cases) (auto simp: e1(2))
qed (use socks_establish_unread [OF assms] in blast)

text \<open>The request was read, the remote side is up, and the client has the reply.\<close>

definition session_up :: "socks_env \<Rightarrow> bool" where
  "session_up e \<longleftrightarrow> request_read e \<and> se_send2 e = se_len2 e \<and>
     (case pick_address (se_getaddrinfo e) (se_req e) of Some (Inr rem) \<Rightarrow> connected e rem | _ \<Rightarrow> False)"

text \<open>
  C20. What happens to the descriptors of a handshake that returns. When the session is up, the
  connection is announced to the connection manager once, nothing is closed, and exactly one
  forwarding thread gets the two sockets if \<open>pthread_create\<close> succeeds; if it fails, nobody has
  them and they are lost, the only leak there is. When the session is not up, no thread starts,
  nothing is announced, and the client and, exactly when it was opened, the remote socket are
  closed once each.
\<close>

theorem socks_establish_discipline:
  assumes "socks_establish e cli pid = Some effs"
  shows "if session_up e
    then closes effs = [] \<and>
      (\<exists>sa. pick_address (se_getaddrinfo e) (se_req e) = Some (Inr (Some sa)) \<and>
         handed_over effs = ([add_msg pid (se_socket e) sa],
           if se_thread e = 0 then [(cli, se_socket e, pid)] else []))
    else handed_over effs = ([], []) \<and>
      closes effs = (if remote_opened e then [se_socket e] else []) @ [cli]"
proof (cases "request_read e")
  case False
  then show ?thesis using socks_establish_unread [OF assms] by (simp add: remote_opened_def session_up_def)
next
  case True
  with assms obtain effs1 where e1: "socks_request e cli pid = Some effs1"
    "effs = E_send cli [SOCKS_V5, SOCKS_METHOD_NONE] # effs1"
    by (auto simp: socks_establish_read)
  from e1(1) True show ?thesis
  proof (cases rule: socks_request_cases)
    case unresolved
    then show ?thesis using e1(2) by (simp add: remote_opened_def session_up_def)
  next
    case (refused rem)
    then have "\<not> session_up e" by (auto simp: session_up_def)
    moreover have "handed_over effs = ([], []) \<and>
        closes effs = (if remote_opened e then [se_socket e] else []) @ [cli]"
      using refused e1(2) True by (auto simp: remote_opened_def connect_remote_def split: option.splits)
    ultimately show ?thesis by simp
  next
    case (accepted sa)
    then show ?thesis using e1(2) True by (simp add: session_up_def)
  qed
qed

text \<open>A handshake that asks for 1.2.3.4 port 80 and succeeds.\<close>

definition env_ref :: socks_env where
  "env_ref = \<lparr>se_len1 = 3, se_method = [5, 1, 0], se_send1 = 2, se_len2 = 10,
     se_req = [5, 1, 0, 1, 1, 2, 3, 4, 0, 80], se_getaddrinfo = (\<lambda>_ _. None), se_socket = 9,
     se_connect = 0, se_errno = Eother, se_send2 = 10, se_malloc = True, se_thread = 0\<rparr>"

lemma env_ref_run:
  "socks_establish env_ref 8 42 = Some [E_send 8 [5, 0], E_send 8 [5, 0, 0, 1, 1, 2, 3, 4, 0, 80],
     E_conmgr (add_msg 42 9 (Sockaddr_in 0x01020304 80)), E_thread 8 9 42]"
  by (simp add: socks_establish_def socks_request_def env_ref_def pick_address_def connect_remote_def
      be32_def be16_def numeral_eq_Suc [of num.One])

lemma env_ref_read: "request_read env_ref"
  by (simp add: request_read_def env_ref_def)

lemma env_ref_pick:
  "pick_address (se_getaddrinfo env_ref) (se_req env_ref) = Some (Inr (Some (Sockaddr_in 0x01020304 80)))"
  by (simp add: pick_address_def env_ref_def be32_def be16_def)

theorem socks_establish_discipline_witness:
  "\<exists>effs. socks_establish env_ref 8 42 = Some effs \<and>
     handed_over effs = ([add_msg 42 9 (Sockaddr_in 0x01020304 80)], [(8, 9, 42)]) \<and> closes effs = []"
  using socks_establish_discipline [OF env_ref_run] env_ref_run env_ref_read env_ref_pick
  by (simp add: session_up_def connected_def env_ref_def)

text \<open>
  C21. The client is told the truth: once the request is read and its address determined, the
  reply is the request with its second byte replaced by a code, and the code is 0 exactly when
  the remote side is connected.
\<close>

theorem socks_reply_code:
  assumes "request_read e" "pick_address (se_getaddrinfo e) (se_req e) = Some (Inr rem)"
    "socks_establish e cli pid = Some effs"
  shows "\<exists>code. sent_to cli effs =
      [SOCKS_V5, SOCKS_METHOD_NONE] @ take (nat (se_len2 e)) ((se_req e)[1 := code]) \<and>
    (code = SOCKS_REP_SUCCEEDED \<longleftrightarrow> connected e rem)"
proof -
  from assms(1,3) obtain effs1 where e1: "socks_request e cli pid = Some effs1"
    "effs = E_send cli [SOCKS_V5, SOCKS_METHOD_NONE] # effs1"
    by (auto simp: socks_establish_read)
  from e1(1) assms(1) show ?thesis
  proof (cases rule: socks_request_cases)
    case unresolved
    then show ?thesis using assms(2) by simp
  next
    case (refused rem')
    then show ?thesis using assms(2) e1(2) connect_remote_code [of e rem]
      by (intro exI [where x = "fst (connect_remote e rem (se_req e ! 1))"]) simp
  next
    case (accepted sa)
    then show ?thesis using assms(2) e1(2) by (intro exI [where x = 0]) simp
  qed
qed

theorem socks_reply_code_witness:
  "\<exists>code. [5, 0] @ [5, 0, 0, 1, 1, 2, 3, 4, 0, 80] =
      [SOCKS_V5, SOCKS_METHOD_NONE] @ take 10 ([5, 1, 0, 1, 1, 2, 3, 4, 0, 80][1 := code]) \<and>
    (code = SOCKS_REP_SUCCEEDED \<longleftrightarrow> connected env_ref (Some (Sockaddr_in 0x01020304 80)))"
  using socks_reply_code [OF env_ref_read env_ref_pick env_ref_run] by (simp add: env_ref_def)

section \<open>Domain names\<close>

text \<open>A domain request as it is put on the wire.\<close>

definition domain_req :: "string \<Rightarrow> u16 \<Rightarrow> bytes \<Rightarrow> bytes" where
  "domain_req name port rest =
     [SOCKS_V5, SOCKS_CMD_CONNECT, 0, SOCKS_ATYP_DOMAIN, of_nat (length name)] @
     map of_char name @ [hi8 port, lo8 port] @ rest"

lemma of_char_less: "(of_char c :: nat) < 256"
proof -
  have "(of_char c :: nat) = of_char (char_of (of_char c :: nat) :: char)" by simp
  also have "\<dots> = of_char c mod 256" by (simp only: of_char_of)
  finally show ?thesis by (metis mod_less_divisor zero_less_numeral)
qed

lemma char_of_unat_of_char [simp]: "char_of (unat (of_char c :: u8)) = c"
proof -
  have "(of_char c :: u8) = of_nat (of_char c)" by (simp only: of_nat_of_char)
  then have "unat (of_char c :: u8) = take_bit 8 (of_char c :: nat)"
    by (simp only: unsigned_of_nat) simp
  also have "\<dots> = of_char c" using of_char_less [of c] by (simp add: take_bit_nat_eq_self)
  finally show ?thesis by simp
qed

lemma char_bracket: "(of_char c :: u8) = 0x5B \<longleftrightarrow> c = CHR ''[''"
proof
  assume "(of_char c :: u8) = 0x5B"
  then have "c = char_of (unat (0x5B :: u8))" using char_of_unat_of_char [of c] by simp
  also have "\<dots> = CHR ''[''" by code_simp
  finally show "c = CHR ''[''" .
qed simp

lemma strncpy_name:
  assumes "CHR 0x00 \<notin> set name"
  shows "cstr (strncpy (length name) (name @ rest)) = name"
proof -
  have "take (length name) (cstr (name @ rest) @ replicate (length name) (CHR 0x00)) = name"
    using assms by (simp add: cstr_append)
  with assms show ?thesis by (simp add: strncpy_def cstr_id)
qed

text \<open>
  C22. Reading a domain request inverts writing it: the name (without the brackets around an IPv6
  literal) and the port in decimal come back, for every name of 1 to 255 characters that does
  not consist of an opening bracket alone; and the 256 byte buffer for the name is large enough.
\<close>

theorem domain_node_roundtrip:
  assumes "name \<noteq> []" "length name \<le> 255" "CHR 0x00 \<notin> set name" "name \<noteq> ''[''"
  shows "domain_node (domain_req name port rest) =
    Some (if hd name = CHR ''['' then butlast (tl name) else name, nat_digits (unat port))"
proof -
  obtain c cs where name: "name = c # cs" using assms(1) by (cases name) auto
  have n: "unat (of_nat (length name) :: u8) = length name"
    using assms(2) by (simp add: unsigned_of_nat take_bit_nat_eq_self)
  define more where "more = [hi8 port, lo8 port] @ rest"
  define data where "data = map of_char name @ more"
  have req: "domain_req name port rest ! 4 = of_nat (length name)" "drop 5 (domain_req name port rest) = data"
    by (simp_all add: domain_req_def data_def more_def)
  have dat: "data ! 0 = of_char c" "data ! length name = hi8 port" "data ! Suc (length name) = lo8 port"
    by (simp_all add: data_def more_def name nth_append)
  have chars: "map (\<lambda>b. char_of (unat b)) data = name @ map (\<lambda>b. char_of (unat b)) more"
    by (simp add: data_def comp_def)
  let ?len = "ucast (of_nat (length name) :: u8) :: u32"
  have len: "unat ?len = length name" using n by simp
  have drop1: "drop 1 (name @ xs) = cs @ xs" for xs by (simp add: name)
  have node: "domain_node (domain_req name port rest) =
    (if c = CHR ''['' then
       (if unat (?len - 2) + 1 > 256 then None
        else Some (cstr (strncpy (unat (?len - 2)) (cs @ map (\<lambda>b. char_of (unat b)) more)),
          nat_digits (unat port)))
     else Some (name, nat_digits (unat port)))"
    unfolding domain_node_def req dat(1) Let_def chars char_bracket drop1
    using assms(2) strncpy_name [OF assms(3)] by (simp add: n len dat be16_hi_lo)
  show ?thesis
  proof (cases "c = CHR ''[''")
    case False
    with node name show ?thesis by simp
  next
    case True
    with assms(4) name have cs: "cs \<noteq> []" by auto
    then have "2 \<le> length name" using name by (cases cs) auto
    then have ge: "2 \<le> ?len" using len by (simp add: word_le_nat_alt)
    have sub: "unat (?len - 2) = length (butlast cs)"
      using unat_sub [OF ge] len name by simp
    have "CHR 0x00 \<notin> set (butlast cs)" using assms(3) name by (auto dest: in_set_butlastD)
    from strncpy_name [OF this, of "[last cs] @ map (\<lambda>b. char_of (unat b)) more"] cs
    have "cstr (strncpy (length (butlast cs)) (cs @ map (\<lambda>b. char_of (unat b)) more)) = butlast cs"
      by (metis append.assoc append_butlast_last_id)
    then show ?thesis using node True sub assms(2) name by simp
  qed
qed

theorem domain_node_roundtrip_witness:
  "domain_node (domain_req ''[fe80::1]'' 80 []) = Some (''fe80::1'', nat_digits 80)"
  using domain_node_roundtrip [of "''[fe80::1]''" 80 "[]"] by simp

text \<open>
  C23. The missing case: a domain of length 0 or 1 that starts with an opening bracket makes the
  unsigned length wrap around, and \<open>strncpy\<close> writes past the end of \<open>node\<close>.
\<close>

theorem domain_node_underflow:
  assumes "n \<in> {0, 1}"
  shows "domain_node ([SOCKS_V5, SOCKS_CMD_CONNECT, 0, SOCKS_ATYP_DOMAIN, n, 0x5B] @ rest) = None"
  using assms by (auto simp: domain_node_def Let_def unsigned_minus_1_eq_mask mask_eq_exp_minus_1)

theorem domain_node_underflow_witness:
  "domain_node ([SOCKS_V5, SOCKS_CMD_CONNECT, 0, SOCKS_ATYP_DOMAIN, 1, 0x5B] @ [0, 80]) = None"
  by (rule domain_node_underflow) simp

section \<open>Forwarding\<close>

text \<open>Turns in which nothing ends the loop and every \<open>send\<close> takes all the bytes.\<close>

definition side_full :: "fw_recv option \<Rightarrow> bool" where
  "side_full r = (case r of None \<Rightarrow> True | Some (Fw_data bs sent) \<Rightarrow> bs \<noteq> [] \<and> sent = int (length bs)
     | _ \<Rightarrow> False)"

definition side_bytes :: "fw_recv option \<Rightarrow> bytes" where
  "side_bytes r = (case r of Some (Fw_data bs _) \<Rightarrow> bs | _ \<Rightarrow> [])"

definition turn_full :: "fw_turn \<Rightarrow> bool" where
  "turn_full t \<longleftrightarrow> 0 < ft_select t \<and> side_full (ft_cli t) \<and> side_full (ft_rem t)"

lemma forward_side_full:
  "side_full r \<Longrightarrow> fst (forward_side fd r) \<and> sent_to fd' (snd (forward_side fd r)) =
     (if fd' = fd then side_bytes r else [])"
  by (auto simp: side_full_def forward_side_def side_bytes_def split: option.splits fw_recv.splits)

lemma forward_side_quiet:
  "closes (snd (forward_side fd r)) = [] \<and> handed_over (snd (forward_side fd r)) = ([], [])"
  by (auto simp: forward_side_def split: option.splits fw_recv.splits)

text \<open>
  C24. Forwarding is transparent while it lasts: when every \<open>send\<close> takes all it is given, the
  remote side gets exactly the bytes the client sent and the client exactly the bytes of the
  remote side, in order.
\<close>

theorem forward_loop_streams:
  assumes "cli \<noteq> rem_sock" "\<forall>t \<in> set ts. turn_full t"
  shows "sent_to rem_sock (forward_loop junk cli rem_sock pid ts) =
      concat (map (\<lambda>t. side_bytes (ft_cli t)) ts) \<and>
    sent_to cli (forward_loop junk cli rem_sock pid ts) =
      concat (map (\<lambda>t. side_bytes (ft_rem t)) ts)"
  using assms(2)
proof (induction ts)
  case Nil
  then show ?case by (simp add: forward_end_def)
next
  case (Cons t ts)
  obtain g1 e1 where s1: "forward_side rem_sock (ft_cli t) = (g1, e1)" by fastforce
  obtain g2 e2 where s2: "forward_side cli (ft_rem t) = (g2, e2)" by fastforce
  from Cons.prems have "side_full (ft_cli t)" "side_full (ft_rem t)" "0 < ft_select t"
    by (auto simp: turn_full_def)
  with forward_side_full [of "ft_cli t" rem_sock] forward_side_full [of "ft_rem t" cli] s1 s2 assms(1)
  have "g1" "g2" "sent_to rem_sock e1 = side_bytes (ft_cli t)" "sent_to cli e1 = []"
    "sent_to rem_sock e2 = []" "sent_to cli e2 = side_bytes (ft_rem t)" by auto
  then show ?case using Cons s1 s2 \<open>0 < ft_select t\<close> by simp
qed

theorem forward_loop_streams_witness:
  "sent_to 9 (forward_loop (add_msg 1 2 (Sockaddr_other 0)) 8 9 42
     [\<lparr>ft_select = 1, ft_cli = Some (Fw_data [1, 2] 2), ft_rem = None\<rparr>,
      \<lparr>ft_select = 2, ft_cli = Some (Fw_data [3] 1), ft_rem = Some (Fw_data [7] 1)\<rparr>]) = [1, 2, 3]"
  using forward_loop_streams [of 8 9 "[\<lparr>ft_select = 1, ft_cli = Some (Fw_data [1, 2] 2), ft_rem = None\<rparr>,
      \<lparr>ft_select = 2, ft_cli = Some (Fw_data [3] 1), ft_rem = Some (Fw_data [7] 1)\<rparr>]"
      "add_msg 1 2 (Sockaddr_other 0)" 42]
  by (simp add: turn_full_def side_full_def side_bytes_def)

lemma forward_loop_handed:
  "handed_over (forward_loop junk cli rem_sock pid ts) = ([remove_msg junk pid rem_sock], [])"
proof (induction ts)
  case Nil
  then show ?case by (simp add: forward_end_def)
next
  case (Cons t ts)
  obtain g1 e1 where s1: "forward_side rem_sock (ft_cli t) = (g1, e1)" by fastforce
  obtain g2 e2 where s2: "forward_side cli (ft_rem t) = (g2, e2)" by fastforce
  have "handed_over e1 = ([], [])" "handed_over e2 = ([], [])"
    using forward_side_quiet [of rem_sock "ft_cli t"] forward_side_quiet [of cli "ft_rem t"] s1 s2
    by simp_all
  then show ?case using Cons s1 s2 by (simp add: forward_end_def)
qed

lemma forward_loop_closes: "closes (forward_loop junk cli rem_sock pid ts) = [cli, rem_sock]"
proof (induction ts)
  case Nil
  then show ?case by (simp add: forward_end_def)
next
  case (Cons t ts)
  obtain g1 e1 where s1: "forward_side rem_sock (ft_cli t) = (g1, e1)" by fastforce
  obtain g2 e2 where s2: "forward_side cli (ft_rem t) = (g2, e2)" by fastforce
  have "closes e1 = []" "closes e2 = []"
    using forward_side_quiet [of rem_sock "ft_cli t"] forward_side_quiet [of cli "ft_rem t"] s1 s2
    by simp_all
  then show ?case using Cons s1 s2 by (simp add: forward_end_def)
qed

text \<open>
  C25. However forwarding ends, both sockets are closed once and the connection manager is told
  once to remove the connection that was announced for this thread.
\<close>

theorem forward_loop_ends:
  "closes (forward_loop junk cli rem_sock pid ts) = [cli, rem_sock] \<and>
   (\<exists>m. handed_over (forward_loop junk cli rem_sock pid ts) = ([m], []) \<and>
      cm_cmd m = CONMGR_CMD_REMOVE \<and> cm_pid m = cm_pid (add_msg pid rem_sock sa) \<and>
      cm_sockfd m = cm_sockfd (add_msg pid rem_sock sa))"
  using forward_loop_closes forward_loop_handed by (auto simp: remove_msg_def add_msg_def)

section \<open>The search for the process\<close>

text \<open>
  The first process, in the order of the directory, that has a link starting with the
  descriptor; links shorter than the descriptor must differ from it where they overlap, because
  the code compares the rest of a longer, older link then.
\<close>

definition links_to :: "string \<Rightarrow> string \<Rightarrow> bool" where
  "links_to desc target \<longleftrightarrow> take (length desc) (take PATH_BUF_SIZE target) = desc"

definition link_ok :: "string \<Rightarrow> string \<Rightarrow> bool" where
  "link_ok desc target \<longleftrightarrow> CHR 0x00 \<notin> set target \<and>
     (length target < length desc \<longrightarrow> take (length target) desc \<noteq> target)"

definition is_pid :: "string \<Rightarrow> bool" where
  "is_pid name \<longleftrightarrow> int_digits (to_int32 (strtol10 name)) = name"

definition owns :: "string \<Rightarrow> proc_dir \<Rightarrow> bool" where
  "owns desc d \<longleftrightarrow> is_pid (pd_name d) \<and>
     (case pd_fds d of None \<Rightarrow> False | Some fds \<Rightarrow> \<exists>n t. (n, Some t) \<in> set fds \<and> links_to desc t)"

definition proc_ok :: "string \<Rightarrow> proc_dir list \<Rightarrow> bool" where
  "proc_ok desc ds \<longleftrightarrow> (\<forall>d \<in> set ds. \<forall>fds. pd_fds d = Some fds \<longrightarrow>
     (\<forall>(n, l) \<in> set fds. length (''/proc/'' @ pd_name d @ ''/fd'') + 1 + length n + 1 \<le> PATH_BUF_SIZE \<and>
        (\<forall>t. l = Some t \<longrightarrow> link_ok desc t)))"

lemma length_overlay: "length buf = PATH_BUF_SIZE \<Longrightarrow> length (overlay t buf) = PATH_BUF_SIZE"
  by (simp add: overlay_def)

lemma cstr_terminated:
  assumes "n < length b" "CHR 0x00 \<notin> set d" "length d = n"
  shows "d = cstr (b[n := CHR 0x00]) \<longleftrightarrow> take n b = d"
proof -
  have b: "b[n := CHR 0x00] = take n b @ CHR 0x00 # drop (Suc n) b"
    using assms(1) by (rule upd_conv_take_nth_drop)
  have c: "cstr (xs @ CHR 0x00 # ys) = cstr xs" for xs ys
    by (induction xs) (auto simp: cstr_def)
  have "d = cstr (take n b) \<longleftrightarrow> take n b = d"
  proof
    assume d: "d = cstr (take n b)"
    then have "length (cstr (take n b)) = length (take n b)" using assms by simp
    then have "takeWhile (\<lambda>c. c \<noteq> CHR 0x00) (take n b) = take n b"
      by (metis cstr_def takeWhile_eq_take take_all_iff le_refl)
    with d show "take n b = d" by (simp add: cstr_def)
  qed (use assms(2) in \<open>simp add: cstr_id\<close>)
  then show ?thesis by (simp add: b c)
qed

lemma overlay_match:
  assumes "length buf = PATH_BUF_SIZE" "length desc < PATH_BUF_SIZE" "link_ok desc t"
  shows "take (length desc) (overlay t buf) = desc \<longleftrightarrow> links_to desc t"
proof (cases "length t < length desc")
  case True
  then have ov: "overlay t buf = t @ drop (length t) buf" using assms(2) by (simp add: overlay_def)
  have "take (length desc) (overlay t buf) \<noteq> desc"
  proof
    assume "take (length desc) (overlay t buf) = desc"
    then have "take (length t) desc = take (length t) (overlay t buf)"
      using True by (metis less_imp_le min.absorb1 take_take)
    then show False using assms(3) True ov by (simp add: link_ok_def)
  qed
  moreover have "\<not> links_to desc t"
  proof
    assume "links_to desc t"
    then have "length desc \<le> length t"
      unfolding links_to_def by (metis length_take min.cobounded1 min.cobounded2 le_trans)
    with True show False by simp
  qed
  ultimately show ?thesis by simp
next
  case False
  then show ?thesis using assms(2) by (simp add: overlay_def links_to_def)
qed

lemma scan_fds_result:
  assumes "length desc < PATH_BUF_SIZE" "CHR 0x00 \<notin> set desc"
    "\<forall>(n', l) \<in> set fds. n + 1 + length n' + 1 \<le> PATH_BUF_SIZE \<and> (\<forall>t. l = Some t \<longrightarrow> link_ok desc t)"
    "length buf = PATH_BUF_SIZE"
  shows "\<exists>buf'. scan_fds desc n fds buf =
      Some (\<exists>n' t. (n', Some t) \<in> set fds \<and> links_to desc t, buf') \<and> length buf' = PATH_BUF_SIZE"
  using assms(3,4)
proof (induction fds arbitrary: buf)
  case Nil
  then show ?case by simp
next
  case (Cons x fds)
  obtain n' l where x: "x = (n', l)" by (cases x)
  show ?case
  proof (cases l)
    case None
    with Cons x show ?thesis by simp
  next
    case (Some t)
    define buf2 where "buf2 = (overlay t buf)[length desc := CHR 0x00]"
    have l2: "length buf2 = PATH_BUF_SIZE" using Cons.prems(2) by (simp add: buf2_def length_overlay)
    have m: "desc = cstr buf2 \<longleftrightarrow> links_to desc t"
      using cstr_terminated [of "length desc" "overlay t buf" desc] assms(1,2) Cons.prems Some x
        overlay_match [of buf desc t] by (simp add: buf2_def length_overlay)
    have run: "scan_fds desc n (x # fds) buf =
        (if links_to desc t then Some (True, buf2) else scan_fds desc n fds buf2)"
      using Cons.prems Some x assms(1) m by (simp add: buf2_def length_overlay Let_def)
    from Cons.IH [OF _ l2] Cons.prems(1) obtain buf' where rest:
      "scan_fds desc n fds buf2 = Some (\<exists>n' t. (n', Some t) \<in> set fds \<and> links_to desc t, buf')"
      "length buf' = PATH_BUF_SIZE" by auto
    show ?thesis
    proof (cases "links_to desc t")
      case True
      then have "\<exists>n' t. (n', Some t) \<in> set (x # fds) \<and> links_to desc t" using x Some by auto
      then have yes: "(\<exists>n' t. (n', Some t) \<in> set (x # fds) \<and> links_to desc t) = True" by simp
      have "scan_fds desc n (x # fds) buf = Some (True, buf2)" using run True by (simp only: if_True)
      with l2 show ?thesis unfolding yes by blast
    next
      case False
      then have same: "(\<exists>n' t. (n', Some t) \<in> set (x # fds) \<and> links_to desc t) =
          (\<exists>n' t. (n', Some t) \<in> set fds \<and> links_to desc t)" using x Some by auto
      have "scan_fds desc n (x # fds) buf = scan_fds desc n fds buf2"
        using run False by (simp only: if_False)
      with rest show ?thesis unfolding same by (metis (no_types, lifting))
    qed
  qed
qed

text \<open>What \<open>fd_dir\<close> is after a fruitless search.\<close>

fun last_dir :: "proc_dir list \<Rightarrow> dirptr \<Rightarrow> dirptr" where
  "last_dir [] p = p"
| "last_dir (d # ds) p = last_dir ds
     (if is_pid (pd_name d) then (case pd_fds d of None \<Rightarrow> Dir_null | Some _ \<Rightarrow> Dir_closed) else p)"

lemma scan_proc_result:
  assumes "length desc < PATH_BUF_SIZE" "CHR 0x00 \<notin> set desc" "proc_ok desc ds"
    "length buf = PATH_BUF_SIZE"
  shows "scan_proc desc ds buf fd_dir =
    (case find (owns desc) ds of
       Some d \<Rightarrow> Some (to_int32 (strtol10 (pd_name d)))
     | None \<Rightarrow> (case last_dir ds fd_dir of Dir_null \<Rightarrow> Some (-1) | Dir_closed \<Rightarrow> None))"
  using assms(3,4)
proof (induction ds arbitrary: buf fd_dir)
  case Nil
  then show ?case by simp
next
  case (Cons d ds)
  define buf1 where "buf1 = overlay (int_digits (to_int32 (strtol10 (pd_name d))) @ [CHR 0x00]) buf"
  have b1: "length buf1 = PATH_BUF_SIZE" using Cons.prems(2) by (simp add: buf1_def length_overlay)
  have ok: "proc_ok desc ds" using Cons.prems(1) by (simp add: proc_ok_def)
  note IH = Cons.IH [OF ok]
  have sp: "scan_proc desc (d # ds) buf fd_dir =
    (if \<not> is_pid (pd_name d) then scan_proc desc ds buf1 fd_dir
     else case pd_fds d of
       None \<Rightarrow> scan_proc desc ds buf1 Dir_null
     | Some fds \<Rightarrow>
         (case scan_fds desc (length (''/proc/'' @ pd_name d @ ''/fd'')) fds buf1 of
            None \<Rightarrow> None
          | Some (True, _) \<Rightarrow> Some (to_int32 (strtol10 (pd_name d)))
          | Some (False, buf2) \<Rightarrow> scan_proc desc ds buf2 Dir_closed))"
    by (simp only: scan_proc.simps Let_def is_pid_def buf1_def)
  show ?case
  proof (cases "is_pid (pd_name d)")
    case False
    moreover from False have "\<not> owns desc d" by (simp add: owns_def)
    ultimately show ?thesis unfolding sp using IH [OF b1] by (simp split: option.split)
  next
    case pid: True
    show ?thesis
    proof (cases "pd_fds d")
      case None
      moreover from None have "\<not> owns desc d" by (simp add: owns_def)
      ultimately show ?thesis unfolding sp using IH [OF b1] pid by (simp split: option.split)
    next
      case (Some fds)
      have fds: "\<forall>(n', l) \<in> set fds. length (''/proc/'' @ pd_name d @ ''/fd'') + 1 + length n' + 1 \<le>
          PATH_BUF_SIZE \<and> (\<forall>t. l = Some t \<longrightarrow> link_ok desc t)"
        using Cons.prems(1) Some by (simp add: proc_ok_def)
      from scan_fds_result [OF assms(1,2) fds b1] obtain buf2 where
        sc: "scan_fds desc (length (''/proc/'' @ pd_name d @ ''/fd'')) fds buf1 =
          Some (owns desc d, buf2)" "length buf2 = PATH_BUF_SIZE"
        using pid Some by (auto simp: owns_def)
      show ?thesis
        unfolding sp using IH [OF sc(2)] sc(1) pid Some
        by (cases "owns desc d") (simp_all split: option.split)
    qed
  qed
qed

text \<open>
  C26. When the client's socket is listed in \<open>/proc/net/tcp\<close>, the search returns the first process
  in the order of \<open>/proc\<close> that has the socket open. When no process has it, the search returns
  -1 only if the descriptors of the last process it looked at could not be listed; otherwise the
  directory closed last is closed a second time.
\<close>

theorem get_pid_search:
  assumes "tcp_scan (tcp_src a p) (tcp_dst a) ls = Some desc" "desc \<noteq> []"
    "length desc < PATH_BUF_SIZE" "CHR 0x00 \<notin> set desc" "proc_ok desc ds" "length buf = PATH_BUF_SIZE"
  shows "get_pid_by_sockaddr (Some (title # ls)) (Some ds) buf a p =
    (case find (owns desc) ds of
       Some d \<Rightarrow> Some (to_int32 (strtol10 (pd_name d)))
     | None \<Rightarrow> (case last_dir ds Dir_null of Dir_null \<Rightarrow> Some (-1) | Dir_closed \<Rightarrow> None))"
  using scan_proc_result [OF assms(3-6), of Dir_null] assms(1,2)
  by (simp add: get_pid_by_sockaddr_def)

definition proc_ref :: "proc_dir list" where
  "proc_ref = [\<lparr>pd_name = ''self'', pd_fds = None\<rparr>,
     \<lparr>pd_name = ''7'', pd_fds = Some [(''0'', Some ''/dev/null''), (''3'', Some ''socket:[99]'')]\<rparr>]"

definition line_ref :: string where
  "line_ref = ''0: 00000000:0000 00000000:2A38 01 0:0 0:0 0 1000 0 99 1''"

lemma hex_pad_zero: "hex_pad k 0 = replicate k (hex_upper 0)"
  by (induction k) (simp_all add: replicate_append_same)

lemma tcp_ref: "tcp_scan (tcp_src 0 0) (tcp_dst 0) [line_ref] = Some ''socket:[99]''"
proof -
  have digits: "char_of (48 :: nat) = CHR ''0''" "char_of (50 :: nat) = CHR ''2''"
    "char_of (65 :: nat) = CHR ''A''" "char_of (51 :: nat) = CHR ''3''" "char_of (56 :: nat) = CHR ''8''"
    by code_simp+
  have zero: "hex_upper 0 = CHR ''0''" by (simp add: hex_upper_def digits)
  have rep: "replicate 8 c = [c, c, c, c, c, c, c, c]" "replicate 4 c = [c, c, c, c]" for c :: char
    by (simp_all add: numeral_eq_Suc)
  have four: "(4 :: nat) = Suc (Suc (Suc (Suc 0)))" by simp
  have port: "hex_pad 4 10808 = ''2A38''"
    unfolding four hex_pad.simps by (simp add: hex_upper_def digits)
  have src: "tcp_src 0 0 = ''00000000:0000''"
    by (simp add: tcp_src_def bswap32_def hex_pad_zero zero rep)
  have dst: "tcp_dst 0 = ''00000000:2A38''"
    by (simp add: tcp_dst_def bswap32_def SOCKS_PORT_def hex_pad_zero zero rep port)
  have "strtok_sp [] (cstr line_ref) = [''0:'', ''00000000:0000'', ''00000000:2A38'', ''01'', ''0:0'',
      ''0:0'', ''0'', ''1000'', ''0'', ''99'', ''1'']"
    by (simp add: line_ref_def cstr_def)
  then show ?thesis by (simp add: src dst tcp_line_def Let_def)
qed

lemma pid_ref: "is_pid ''7''" "\<not> is_pid ''self''" "to_int32 (strtol10 ''7'') = 7"
  by code_simp+

theorem get_pid_search_witness:
  "get_pid_by_sockaddr (Some [''title'', line_ref]) (Some proc_ref) (replicate PATH_BUF_SIZE (CHR 0x00))
     0 0 = Some 7"
proof -
  have "proc_ok ''socket:[99]'' proc_ref" by (simp add: proc_ok_def proc_ref_def link_ok_def)
  moreover have "find (owns ''socket:[99]'') proc_ref =
      Some \<lparr>pd_name = ''7'', pd_fds = Some [(''0'', Some ''/dev/null''), (''3'', Some ''socket:[99]'')]\<rparr>"
  proof -
    have "links_to ''socket:[99]'' ''socket:[99]''" by (simp add: links_to_def)
    then have "owns ''socket:[99]'' \<lparr>pd_name = ''7'',
        pd_fds = Some [(''0'', Some ''/dev/null''), (''3'', Some ''socket:[99]'')]\<rparr>"
      using pid_ref(1) by (auto simp: owns_def)
    then show ?thesis using pid_ref(2) by (simp add: proc_ref_def) (simp add: owns_def)
  qed
  ultimately show ?thesis
    using get_pid_search [OF tcp_ref, of proc_ref "replicate PATH_BUF_SIZE (CHR 0x00)" "''title''"] pid_ref
    by simp
qed

end
