(* ===== verification/Sined_Main.thy ===== *)
theory Sined_Main
  imports Prelude
begin

text \<open>
  The daemon's main program (\<open>src/sined/src/main.c\<close>): starting the helper processes, the five
  managers in their order, waiting for a child, and the orderly exit, which signals the threads
  through a pipe, kills the children in reverse order and joins the threads that were started.
\<close>

abbreviation (input) PID_NUM :: nat where "PID_NUM \<equiv> 8"
abbreviation (input) PID_MIH_USR :: nat where "PID_MIH_USR \<equiv> 5"

definition cmds :: "string list" where
  "cmds = [''odtone-mihf'', ''miis_rdf_server'', ''link_sap'', ''link_sap'', ''link_sap'', ''mih_usr'',
     ''hip'', ''mip6d'']"

definition args :: "string list list" where
  "args =
    [[''odtone-mihf'', ''--conf.file=/usr/local/etc/mih/odtone.conf''],
     [''miis_rdf_server'', ''--database=/usr/local/etc/mih/miis_database''],
     [''link_sap'', ''--conf.file=/usr/local/etc/mih/ethernet.conf''],
     [''link_sap'', ''--conf.file=/usr/local/etc/mih/wifi.conf''],
     [''link_sap'', ''--conf.file=/usr/local/etc/mih/lte.conf''],
     [''mih_usr'', ''--conf.file=/usr/local/etc/mih/mih_usr.conf'', ''--dest=mihf1''],
     [''hip'', ''-v''],
     [''mip6d'', ''-c'', ''/usr/local/etc/mip6d.conf'']]"

definition logs :: "string list" where
  "logs = [''/var/log/mihf.log'', ''/var/log/miis_server.log'', ''/var/log/link_eth.log'',
     ''/var/log/link_wifi.log'', ''/var/log/link_lte.log'', ''/var/log/mih_usr.log'',
     ''/var/log/hip.log'', ''/var/log/mip6d.log'']"

text \<open>The five managers, in the order they are started.\<close>

datatype manager = Netmgr_thread | Conmgr_thread | Locmgr_thread | Socks_thread | Pe_thread

definition managers :: "manager list" where
  "managers = [Netmgr_thread, Conmgr_thread, Locmgr_thread, Socks_thread, Pe_thread]"

datatype main_eff =
    M_sleep
  | M_kill int
  | M_write int
  | M_start nat
  | M_join nat
  | M_close int
  | M_exit int

text \<open>
  The global variables, and the five variables of type \<open>pthread_t\<close> that are local to \<open>main\<close>. The
  effects name a thread by its identifier.
\<close>

record sined =
  pids :: "int list"
  exit_flag :: bool
  exit_pipe :: "int \<times> int"
  pthreads :: "manager \<Rightarrow> nat"
  m_effs :: "main_eff list"

definition m_eff :: "main_eff \<Rightarrow> sined \<Rightarrow> sined" where
  "m_eff x s = s\<lparr>m_effs := m_effs s @ [x]\<rparr>"

section \<open>Leaving\<close>

text \<open>The loop of \<open>sine_exit\<close> from \<open>PID_NUM - 1\<close> down to 0.\<close>

fun kill_loop :: "nat \<Rightarrow> sined \<Rightarrow> sined" where
  "kill_loop 0 s = s"
| "kill_loop (Suc i) s =
     kill_loop i
       (if pids s ! i \<noteq> 0 then (m_eff (M_kill (pids s ! i)) s)\<lparr>pids := (pids s)[i := 0]\<rparr> else s)"

text \<open>
  \<open>sine_exit\<close>; \<open>written\<close> is what \<open>write\<close> returns. \<open>Inl\<close> is the call of \<open>exit(1)\<close>, which ends the
  process.
\<close>

definition sine_exit :: "int \<Rightarrow> sined \<Rightarrow> sined + sined" where
  "sine_exit written s =
     (let s1 = m_eff (M_write (snd (exit_pipe s))) (s\<lparr>exit_flag := True\<rparr>)
      in if written \<le> 0 then Inl (m_eff (M_exit 1) s1) else Inr (kill_loop PID_NUM s1))"

definition sig_handler :: "int \<Rightarrow> sined \<Rightarrow> sined + sined" where
  "sig_handler written s = sine_exit written s"

section \<open>Starting\<close>

text \<open>
  The results of the calls of \<open>main\<close>: the values of \<open>fork\<close> (in the parent), \<open>pipe\<close> and the two
  descriptors, the four calls of \<open>sigaction\<close>, \<open>pthread_self\<close>, the results of the five \<open>init\<close>
  functions and the thread each created and stored in its argument, if any, what the \<open>write\<close> of
  the signal handler returned if a signal ended the \<open>wait\<close>, and the \<open>write\<close> of the exit.
\<close>

record main_env =
  me_fork :: "nat \<Rightarrow> int"
  me_pipe :: int
  me_fds :: "int \<times> int"
  me_sigaction :: "nat \<Rightarrow> int"
  me_self :: nat
  me_init :: "manager \<Rightarrow> int"
  me_thread :: "manager \<Rightarrow> nat option"
  me_signal :: "int option"
  me_write :: int

text \<open>
  The child after \<open>fork\<close>: standard input from \<open>/dev/null\<close>, output to the log file, then the
  command. \<open>Inl\<close> is \<open>exit(1)\<close>; the results are those of the two calls of \<open>open\<close> and the three of
  \<open>dup2\<close>, and whether \<open>execvp\<close> came back.
\<close>

record child_env =
  ch_null :: int
  ch_dup_in :: int
  ch_log :: "string \<Rightarrow> int"
  ch_dup_out :: int
  ch_dup_err :: int
  ch_exec_fails :: bool

definition child_start :: "child_env \<Rightarrow> nat \<Rightarrow> int + string \<times> string list" where
  "child_start c i =
     (if ch_null c < 0 \<or> ch_dup_in c < 0 then Inl 1
      else if ch_log c (logs ! i) < 0 then Inl 1
      else if ch_dup_out c < 0 then Inl 1
      else if ch_dup_err c < 0 then Inl 1
      else if ch_exec_fails c then Inl 1
      else Inr (cmds ! i, args ! i))"

fun fork_loop :: "main_env \<Rightarrow> nat \<Rightarrow> nat \<Rightarrow> sined \<Rightarrow> sined + sined" where
  "fork_loop e i 0 s = Inr s"
| "fork_loop e i (Suc n) s =
     (let s1 = (if i = PID_MIH_USR then m_eff M_sleep s else s);
          s2 = s1\<lparr>pids := (pids s1)[i := me_fork e i]\<rparr>
      in if me_fork e i < 0 then Inl s2 else fork_loop e (Suc i) n s2)"

text \<open>An \<open>init\<close> function is given the address of its variable.\<close>

definition init_manager :: "main_env \<Rightarrow> manager \<Rightarrow> sined \<Rightarrow> sined" where
  "init_manager e m s =
     (case me_thread e m of
        None \<Rightarrow> s
      | Some t \<Rightarrow> (m_eff (M_start t) s)\<lparr>pthreads := (pthreads s)(m := t)\<rparr>)"

fun init_loop :: "main_env \<Rightarrow> manager list \<Rightarrow> sined \<Rightarrow> sined + sined" where
  "init_loop e [] s = Inr s"
| "init_loop e (m # ms) s =
     (let s1 = init_manager e m s
      in if me_init e m \<noteq> 0 then Inl s1 else init_loop e ms s1)"

definition main_start :: "main_env \<Rightarrow> sined \<Rightarrow> sined + sined" where
  "main_start e s =
     (case fork_loop e 0 PID_NUM (s\<lparr>pthreads := (\<lambda>_. me_self e)\<rparr>) of
        Inl s1 \<Rightarrow> Inl s1
      | Inr s1 \<Rightarrow>
          (let s2 = m_eff M_sleep s1
           in if me_pipe e \<noteq> 0 then Inl s2
              else
                (let s3 = s2\<lparr>exit_pipe := me_fds e\<rparr>
                 in if \<not> (\<forall>k < 4. me_sigaction e k = 0) then Inl s3
                    else init_loop e managers s3)))"

text \<open>A thread is joined when its variable no longer holds the identifier of the main thread.\<close>

definition join_thread :: "nat \<Rightarrow> manager \<Rightarrow> sined \<Rightarrow> sined" where
  "join_thread self m s = (if pthreads s m \<noteq> self then m_eff (M_join (pthreads s m)) s else s)"

definition join_all :: "nat \<Rightarrow> sined \<Rightarrow> sined" where
  "join_all self s =
     (let s1 = join_thread self Netmgr_thread s;
          s2 = join_thread self Conmgr_thread s1;
          s3 = join_thread self Locmgr_thread s2;
          s4 = join_thread self Socks_thread s3
      in join_thread self Pe_thread s4)"

text \<open>From the label \<open>error\<close>: \<open>sine_exit\<close> unless a handler has run it, join, close the pipe.\<close>

definition main_end :: "main_env \<Rightarrow> sined \<Rightarrow> sined" where
  "main_end e s =
     (case (if \<not> exit_flag s then sine_exit (me_write e) s else Inr s) of
        Inl s1 \<Rightarrow> s1
      | Inr s1 \<Rightarrow>
          m_eff (M_close (fst (exit_pipe s1)))
            (m_eff (M_close (snd (exit_pipe s1))) (join_all (me_self e) s1)))"

definition sined_main :: "main_env \<Rightarrow> sined \<Rightarrow> sined" where
  "sined_main e s =
     (case main_start e s of
        Inl s1 \<Rightarrow> main_end e s1
      | Inr s1 \<Rightarrow>
          (case me_signal e of
             None \<Rightarrow> main_end e s1
           | Some written \<Rightarrow>
               (case sig_handler written s1 of
                  Inl s2 \<Rightarrow> s2
                | Inr s2 \<Rightarrow> main_end e s2)))"

definition sined_zero :: sined where
  "sined_zero = \<lparr>pids = replicate PID_NUM 0, exit_flag = False, exit_pipe = (0, 0), pthreads = (\<lambda>_. 0), m_effs = []\<rparr>"

section \<open>Lemmas\<close>

fun killed :: "main_eff list \<Rightarrow> int list" where
  "killed [] = []"
| "killed (M_kill p # es) = p # killed es"
| "killed (_ # es) = killed es"

fun starts :: "main_eff list \<Rightarrow> nat list" where
  "starts [] = []"
| "starts (M_start m # es) = m # starts es"
| "starts (_ # es) = starts es"

fun joins :: "main_eff list \<Rightarrow> nat list" where
  "joins [] = []"
| "joins (M_join m # es) = m # joins es"
| "joins (_ # es) = joins es"

lemma killed_append [simp]: "killed (xs @ ys) = killed xs @ killed ys"
  by (induction xs rule: killed.induct) simp_all

lemma starts_append [simp]: "starts (xs @ ys) = starts xs @ starts ys"
  by (induction xs rule: starts.induct) simp_all

lemma joins_append [simp]: "joins (xs @ ys) = joins xs @ joins ys"
  by (induction xs rule: joins.induct) simp_all

text \<open>The identifiers the variables of the managers \<open>ms\<close> hold, the main thread's left out.\<close>

definition threads_of :: "nat \<Rightarrow> (manager \<Rightarrow> nat) \<Rightarrow> manager list \<Rightarrow> nat list" where
  "threads_of self p ms = filter (\<lambda>t. t \<noteq> self) (map p ms)"

lemma threads_append: "threads_of self p (xs @ ys) = threads_of self p xs @ threads_of self p ys"
  by (simp add: threads_of_def)

lemma join_all_result:
  "joins (m_effs (join_all self s)) = joins (m_effs s) @ threads_of self (pthreads s) managers \<and>
   killed (m_effs (join_all self s)) = killed (m_effs s) \<and> starts (m_effs (join_all self s)) = starts (m_effs s) \<and>
   pids (join_all self s) = pids s \<and> set (m_effs s) \<subseteq> set (m_effs (join_all self s))"
proof -
  have j: "joins (m_effs (join_thread self m s)) = joins (m_effs s) @ (if pthreads s m \<noteq> self then [pthreads s m] else [])"
    "killed (m_effs (join_thread self m s)) = killed (m_effs s)" "starts (m_effs (join_thread self m s)) = starts (m_effs s)"
    "pids (join_thread self m s) = pids s" "pthreads (join_thread self m s) = pthreads s"
    "set (m_effs s) \<subseteq> set (m_effs (join_thread self m s))" for m s
    by (auto simp: join_thread_def m_eff_def)
  have "set (m_effs s) \<subseteq> set (m_effs (join_all self s))"
    unfolding join_all_def Let_def by (intro order_trans [OF _ j(6)] order_refl)
  then show ?thesis by (simp add: join_all_def Let_def j(1-5) threads_of_def managers_def)
qed

lemma kill_loop_result:
  assumes "n \<le> length (pids s)"
  shows "killed (m_effs (kill_loop n s)) =
      killed (m_effs s) @ filter (\<lambda>p. p \<noteq> 0) (rev (take n (pids s))) \<and>
    pids (kill_loop n s) = replicate n 0 @ drop n (pids s) \<and>
    exit_pipe (kill_loop n s) = exit_pipe s \<and> exit_flag (kill_loop n s) = exit_flag s \<and>
    pthreads (kill_loop n s) = pthreads s \<and>
    starts (m_effs (kill_loop n s)) = starts (m_effs s) \<and>
    joins (m_effs (kill_loop n s)) = joins (m_effs s)"
  using assms
proof (induction n s rule: kill_loop.induct)
  case (1 s)
  then show ?case by simp
next
  case (2 i s)
  let ?s = "if pids s ! i \<noteq> 0 then (m_eff (M_kill (pids s ! i)) s)\<lparr>pids := (pids s)[i := 0]\<rparr> else s"
  have i: "i < length (pids s)" using 2(2) by simp
  have ps: "take i (pids ?s) = take i (pids s)" "drop i (pids ?s) = 0 # drop (Suc i) (pids s)"
    using i by (auto simp: m_eff_def drop_update_swap Cons_nth_drop_Suc [symmetric])
  have rev: "rev (take (Suc i) (pids s)) = pids s ! i # rev (take i (pids s))"
    using i by (simp add: take_Suc_conv_app_nth)
  have k: "killed (m_effs ?s) = killed (m_effs s) @ filter (\<lambda>p. p \<noteq> 0) [pids s ! i]"
    "starts (m_effs ?s) = starts (m_effs s)" "joins (m_effs ?s) = joins (m_effs s)"
    "exit_pipe ?s = exit_pipe s" "exit_flag ?s = exit_flag s" "length (pids ?s) = length (pids s)"
    "pthreads ?s = pthreads s"
    by (auto simp: m_eff_def)
  have IH: "killed (m_effs (kill_loop i ?s)) =
      killed (m_effs ?s) @ filter (\<lambda>p. p \<noteq> 0) (rev (take i (pids ?s))) \<and>
    pids (kill_loop i ?s) = replicate i 0 @ drop i (pids ?s) \<and>
    exit_pipe (kill_loop i ?s) = exit_pipe ?s \<and> exit_flag (kill_loop i ?s) = exit_flag ?s \<and>
    pthreads (kill_loop i ?s) = pthreads ?s \<and>
    starts (m_effs (kill_loop i ?s)) = starts (m_effs ?s) \<and>
    joins (m_effs (kill_loop i ?s)) = joins (m_effs ?s)"
    using 2(1) i k(6) by simp
  have "replicate i (0 :: int) @ 0 # drop (Suc i) (pids s) = replicate (Suc i) 0 @ drop (Suc i) (pids s)"
    by (metis append.assoc append_Cons append_Nil replicate_append_same replicate_Suc)
  with IH ps k rev show ?case unfolding kill_loop.simps by simp
qed

lemma fork_loop_ok:
  assumes "\<forall>k. i \<le> k \<and> k < i + n \<longrightarrow> 0 < me_fork e k" "length (pids s) = i + n"
  shows "\<exists>s'. fork_loop e i n s = Inr s' \<and> pids s' = take i (pids s) @ map (me_fork e) [i ..< i + n] \<and>
    exit_flag s' = exit_flag s \<and> killed (m_effs s') = killed (m_effs s) \<and>
    starts (m_effs s') = starts (m_effs s) \<and> joins (m_effs s') = joins (m_effs s) \<and> pthreads s' = pthreads s"
  using assms
proof (induction e i n s rule: fork_loop.induct)
  case (1 e i s)
  then show ?case by simp
next
  case (2 e i n s)
  define s1 where "s1 = (if i = PID_MIH_USR then m_eff M_sleep s else s)"
  define s2 where "s2 = s1\<lparr>pids := (pids s1)[i := me_fork e i]\<rparr>"
  have pos: "\<not> me_fork e i < 0" using 2(2) by (metis add_Suc_right less_add_Suc1 not_less_iff_gr_or_eq order_refl)
  have s2: "pids s2 = (pids s)[i := me_fork e i]" "exit_flag s2 = exit_flag s"
    "killed (m_effs s2) = killed (m_effs s)" "starts (m_effs s2) = starts (m_effs s)"
    "joins (m_effs s2) = joins (m_effs s)" "pthreads s2 = pthreads s"
    by (simp_all add: s2_def s1_def m_eff_def)
  have "\<exists>s'. fork_loop e (Suc i) n s2 = Inr s' \<and>
      pids s' = take (Suc i) (pids s2) @ map (me_fork e) [Suc i ..< Suc i + n] \<and>
      exit_flag s' = exit_flag s2 \<and> killed (m_effs s') = killed (m_effs s2) \<and>
      starts (m_effs s') = starts (m_effs s2) \<and> joins (m_effs s') = joins (m_effs s2) \<and> pthreads s' = pthreads s2"
    using 2(1) [OF s1_def s2_def pos] 2(2,3) s2(1) by simp
  moreover have "take (Suc i) ((pids s)[i := me_fork e i]) = take i (pids s) @ [me_fork e i]"
    using 2(3) by (simp add: take_Suc_conv_app_nth)
  moreover have "[i ..< i + Suc n] = i # [Suc i ..< Suc i + n]"
    by (simp add: upt_conv_Cons del: upt_Suc)
  moreover have "fork_loop e i (Suc n) s = fork_loop e (Suc i) n s2"
    using pos by (simp add: s1_def s2_def Let_def)
  ultimately show ?case using s2 by (simp del: fork_loop.simps)
qed

lemma fork_loop_fail:
  assumes "\<forall>k. i \<le> k \<and> k < j \<longrightarrow> 0 < me_fork e k" "me_fork e j = -1" "i \<le> j" "j < i + n"
    "length (pids s) = i + n"
  shows "\<exists>s'. fork_loop e i n s = Inl s' \<and>
    pids s' = take i (pids s) @ map (me_fork e) [i ..< j] @ [-1] @ drop (Suc j) (pids s) \<and>
    exit_flag s' = exit_flag s \<and> exit_pipe s' = exit_pipe s \<and> killed (m_effs s') = killed (m_effs s)"
  using assms
proof (induction e i n s rule: fork_loop.induct)
  case (1 e i s)
  then show ?case by simp
next
  case (2 e i n s)
  define s1 where "s1 = (if i = PID_MIH_USR then m_eff M_sleep s else s)"
  define s2 where "s2 = s1\<lparr>pids := (pids s1)[i := me_fork e i]\<rparr>"
  have i: "i < length (pids s)" using 2(6) by simp
  have s2: "pids s2 = (pids s)[i := me_fork e i]" "exit_flag s2 = exit_flag s"
    "exit_pipe s2 = exit_pipe s" "killed (m_effs s2) = killed (m_effs s)"
    by (simp_all add: s2_def s1_def m_eff_def)
  have take: "take (Suc i) ((pids s)[i := me_fork e i]) = take i (pids s) @ [me_fork e i]"
    using i by (simp add: take_Suc_conv_app_nth)
  show ?case
  proof (cases "i = j")
    case True
    then have "fork_loop e i (Suc n) s = Inl s2" using 2(3) by (simp add: s1_def s2_def Let_def)
    moreover have "pids s2 = take i (pids s) @ [-1] @ drop (Suc i) (pids s)"
      using s2(1) True 2(3) i by (simp add: upd_conv_take_nth_drop)
    ultimately show ?thesis using s2 True by (simp del: fork_loop.simps)
  next
    case False
    then have ij: "Suc i \<le> j" using 2(4) by simp
    have pos: "\<not> me_fork e i < 0" using 2(2) ij by (metis Suc_le_lessD not_less_iff_gr_or_eq order_refl)
    have "\<exists>s'. fork_loop e (Suc i) n s2 = Inl s' \<and>
        pids s' = take (Suc i) (pids s2) @ map (me_fork e) [Suc i ..< j] @ [-1] @ drop (Suc j) (pids s2) \<and>
        exit_flag s' = exit_flag s2 \<and> exit_pipe s' = exit_pipe s2 \<and>
        killed (m_effs s') = killed (m_effs s2)"
      using 2(1) [OF s1_def s2_def pos] 2(2,3,5,6) ij s2(1) by simp
    moreover have "fork_loop e i (Suc n) s = fork_loop e (Suc i) n s2"
      using pos by (simp add: s1_def s2_def Let_def)
    moreover have "[i ..< j] = i # [Suc i ..< j]" using ij by (simp add: upt_conv_Cons)
    moreover have "drop (Suc j) (pids s2) = drop (Suc j) (pids s)" using s2(1) ij by simp
    ultimately show ?thesis using s2 take by (simp del: fork_loop.simps)
  qed
qed

text \<open>While the managers start, the variables hold exactly the threads started so far, in their order.\<close>

lemma init_loop_keeps:
  assumes "\<forall>m t. me_thread e m = Some t \<longrightarrow> t \<noteq> me_self e" "distinct (ps @ ms)"
    and "starts (m_effs s) = threads_of (me_self e) (pthreads s) ps" "\<forall>m \<in> set ms. pthreads s m = me_self e"
    and "init_loop e ms s = Inl s' \<or> init_loop e ms s = Inr s'"
  shows "pids s' = pids s \<and> exit_flag s' = exit_flag s \<and> killed (m_effs s') = killed (m_effs s) \<and>
    joins (m_effs s') = joins (m_effs s) \<and> starts (m_effs s') = threads_of (me_self e) (pthreads s') (ps @ ms)"
  using assms(2-5)
proof (induction ms arbitrary: ps s)
  case Nil
  then show ?case by simp
next
  case (Cons m ms)
  let ?s = "init_manager e m s"
  have keep: "pids ?s = pids s" "exit_flag ?s = exit_flag s" "killed (m_effs ?s) = killed (m_effs s)"
    "joins (m_effs ?s) = joins (m_effs s)"
    by (simp_all add: init_manager_def m_eff_def split: option.split)
  have rest: "\<forall>x \<in> set ms. pthreads ?s x = me_self e"
    using Cons.prems(1,3) by (auto simp: init_manager_def split: option.split)
  have "m \<notin> set ps" using Cons.prems(1) by simp
  then have same: "threads_of (me_self e) ((pthreads s)(m := t)) ps = threads_of (me_self e) (pthreads s) ps" for t
    unfolding threads_of_def by (metis map_fun_upd)
  have st: "starts (m_effs ?s) = threads_of (me_self e) (pthreads ?s) (ps @ [m])"
    using Cons.prems(2,3) assms(1) same
    by (simp add: init_manager_def threads_append m_eff_def split: option.split) (simp add: threads_of_def)
  show ?case
  proof (cases "me_init e m \<noteq> 0")
    case True
    then have s': "s' = ?s" using Cons.prems(4) by (auto simp: Let_def)
    have "threads_of (me_self e) (pthreads ?s) (ps @ m # ms) = threads_of (me_self e) (pthreads ?s) (ps @ [m])"
      using rest by (simp add: threads_of_def filter_empty_conv)
    with s' keep st show ?thesis by simp
  next
    case False
    then have "init_loop e ms ?s = Inl s' \<or> init_loop e ms ?s = Inr s'" using Cons.prems(4) by (auto simp: Let_def)
    from Cons.IH [OF _ st rest this] Cons.prems(1) keep show ?thesis by simp
  qed
qed

lemma main_start_state:
  assumes "\<forall>k < PID_NUM. 0 < me_fork e k" "\<forall>m t. me_thread e m = Some t \<longrightarrow> t \<noteq> me_self e"
    and "main_start e sined_zero = Inl s' \<or> main_start e sined_zero = Inr s'"
  shows "pids s' = map (me_fork e) [0 ..< PID_NUM] \<and> \<not> exit_flag s' \<and> killed (m_effs s') = [] \<and>
    joins (m_effs s') = [] \<and> starts (m_effs s') = threads_of (me_self e) (pthreads s') managers"
proof -
  let ?s0 = "sined_zero\<lparr>pthreads := (\<lambda>_. me_self e)\<rparr>"
  obtain s1 where s1: "fork_loop e 0 PID_NUM ?s0 = Inr s1"
    "pids s1 = map (me_fork e) [0 ..< PID_NUM]" "\<not> exit_flag s1" "killed (m_effs s1) = []"
    "joins (m_effs s1) = []" "starts (m_effs s1) = []" "pthreads s1 = (\<lambda>_. me_self e)"
    using fork_loop_ok [where i = 0 and n = PID_NUM and e = e and s = ?s0] assms(1)
    by (auto simp: sined_zero_def simp del: fork_loop.simps)
  have none: "threads_of (me_self e) (\<lambda>_. me_self e) ms = []" for ms
    by (simp add: threads_of_def filter_empty_conv)
  let ?s3 = "(m_eff M_sleep s1)\<lparr>exit_pipe := me_fds e\<rparr>"
  consider (early) "s' = m_eff M_sleep s1 \<or> s' = ?s3"
    | (managers) "init_loop e managers ?s3 = Inl s' \<or> init_loop e managers ?s3 = Inr s'"
    using assms(3) s1(1) by (auto simp: main_start_def Let_def simp del: fork_loop.simps split: if_splits)
  then show ?thesis
  proof cases
    case early
    with s1 show ?thesis by (auto simp: m_eff_def none)
  next
    case managers
    from init_loop_keeps [OF assms(2) _ _ _ this, of "[]"] s1 show ?thesis
      by (simp add: m_eff_def none managers_def threads_of_def)
  qed
qed

text \<open>The orderly exit, whoever runs it.\<close>

lemma sine_exit_result:
  assumes "0 < written" "length (pids s) = PID_NUM"
  shows "\<exists>s'. sine_exit written s = Inr s' \<and> exit_flag s' \<and> pids s' = replicate PID_NUM 0 \<and>
    killed (m_effs s') = killed (m_effs s) @ filter (\<lambda>p. p \<noteq> 0) (rev (pids s)) \<and>
    starts (m_effs s') = starts (m_effs s) \<and> joins (m_effs s') = joins (m_effs s) \<and> pthreads s' = pthreads s"
  using assms kill_loop_result [of PID_NUM "m_eff (M_write (snd (exit_pipe s))) (s\<lparr>exit_flag := True\<rparr>)"]
  by (simp add: sine_exit_def Let_def m_eff_def del: kill_loop.simps)

lemma main_end_joins:
  assumes "exit_flag s"
  shows "killed (m_effs (main_end e s)) = killed (m_effs s) \<and> pids (main_end e s) = pids s \<and>
    starts (m_effs (main_end e s)) = starts (m_effs s) \<and>
    joins (m_effs (main_end e s)) = joins (m_effs s) @ threads_of (me_self e) (pthreads s) managers"
  using assms join_all_result [of "me_self e" s] by (simp add: main_end_def m_eff_def)

lemma main_end_result:
  assumes "\<not> exit_flag s" "0 < me_write e" "length (pids s) = PID_NUM"
  shows "killed (m_effs (main_end e s)) = killed (m_effs s) @ filter (\<lambda>p. p \<noteq> 0) (rev (pids s)) \<and>
    pids (main_end e s) = replicate PID_NUM 0 \<and> starts (m_effs (main_end e s)) = starts (m_effs s) \<and>
    joins (m_effs (main_end e s)) = joins (m_effs s) @ threads_of (me_self e) (pthreads s) managers"
proof -
  obtain s1 where s1: "sine_exit (me_write e) s = Inr s1" "exit_flag s1" "pids s1 = replicate PID_NUM 0"
    "killed (m_effs s1) = killed (m_effs s) @ filter (\<lambda>p. p \<noteq> 0) (rev (pids s))"
    "starts (m_effs s1) = starts (m_effs s)" "joins (m_effs s1) = joins (m_effs s)" "pthreads s1 = pthreads s"
    using sine_exit_result [OF assms(2,3)] by blast
  have "main_end e s = main_end e s1" using assms(1) s1(1,2) by (simp add: main_end_def)
  with main_end_joins [OF s1(2), of e] s1 show ?thesis by simp
qed

lemma kill_loop_effs: "set (m_effs s) \<subseteq> set (m_effs (kill_loop n s))"
proof (induction n s rule: kill_loop.induct)
  case (2 i s)
  then show ?case by (auto simp: m_eff_def split: if_splits)
qed simp

lemma main_end_writes:
  assumes "\<not> exit_flag s" "0 < me_write e"
  shows "M_write (snd (exit_pipe s)) \<in> set (m_effs (main_end e s))"
proof -
  let ?s1 = "m_eff (M_write (snd (exit_pipe s))) (s\<lparr>exit_flag := True\<rparr>)"
  have "M_write (snd (exit_pipe s)) \<in> set (m_effs (kill_loop PID_NUM ?s1))"
    using kill_loop_effs [of ?s1 PID_NUM] by (auto simp: m_eff_def simp del: kill_loop.simps)
  then show ?thesis using assms join_all_result [of "me_self e" "kill_loop PID_NUM ?s1"]
    by (auto simp: main_end_def sine_exit_def Let_def m_eff_def simp del: kill_loop.simps)
qed

text \<open>
  C27. The helper processes are running. However start-up goes from there, whichever manager fails to
  start and whether a child ends or a signal interrupts the wait: as long as the exit pipe can be
  written, every child is killed exactly once, in the reverse order of its start, and the threads
  that are joined are exactly the threads that were started, each once and in the order of their
  start. A new thread never has the identifier of the main thread.
\<close>

theorem sined_main_cleans_up:
  assumes "\<forall>k < PID_NUM. 0 < me_fork e k" "0 < me_write e" "\<forall>w. me_signal e = Some w \<longrightarrow> 0 < w"
    and "\<forall>m t. me_thread e m = Some t \<longrightarrow> t \<noteq> me_self e"
  shows "killed (m_effs (sined_main e sined_zero)) = rev (map (me_fork e) [0 ..< PID_NUM]) \<and>
    pids (sined_main e sined_zero) = replicate PID_NUM 0 \<and>
    joins (m_effs (sined_main e sined_zero)) = starts (m_effs (sined_main e sined_zero))"
proof -
  obtain s where s: "main_start e sined_zero = Inl s \<or> main_start e sined_zero = Inr s"
    by (cases "main_start e sined_zero") auto
  note st = main_start_state [OF assms(1,4) s]
  then have len: "length (pids s) = PID_NUM" by simp
  have pos: "filter (\<lambda>p. p \<noteq> 0) (rev (pids s)) = rev (map (me_fork e) [0 ..< PID_NUM])"
    using assms(1) st by (auto simp: filter_id_conv)
  consider (child) "sined_main e sined_zero = main_end e s"
    | (signal) w where "main_start e sined_zero = Inr s" "me_signal e = Some w"
    using s by (cases "me_signal e") (auto simp: sined_main_def)
  then show ?thesis
  proof cases
    case child
    then show ?thesis using main_end_result [of s e] st assms(2) len pos by simp
  next
    case (signal w)
    obtain s1 where s1: "sine_exit w s = Inr s1" "exit_flag s1" "pids s1 = replicate PID_NUM 0"
      "killed (m_effs s1) = killed (m_effs s) @ filter (\<lambda>p. p \<noteq> 0) (rev (pids s))"
      "starts (m_effs s1) = starts (m_effs s)" "joins (m_effs s1) = joins (m_effs s)" "pthreads s1 = pthreads s"
      using sine_exit_result [of w s] assms(3) signal(2) len by blast
    have "sined_main e sined_zero = main_end e s1"
      using signal s1(1) by (simp add: sined_main_def sig_handler_def)
    then show ?thesis using main_end_joins [OF s1(2), of e] s1 st pos by simp
  qed
qed

text \<open>The SOCKS server fails to start, and a run that a signal ends.\<close>

definition main_env_ref :: main_env where
  "main_env_ref = \<lparr>me_fork = (\<lambda>k. int k + 100), me_pipe = 0, me_fds = (3, 4),
     me_sigaction = (\<lambda>_. 0), me_self = 1, me_init = (\<lambda>m. if m = Socks_thread then -1 else 0),
     me_thread = (\<lambda>m. case m of Netmgr_thread \<Rightarrow> Some 2 | Conmgr_thread \<Rightarrow> Some 3 | Locmgr_thread \<Rightarrow> Some 4
       | Socks_thread \<Rightarrow> None | Pe_thread \<Rightarrow> Some 5), me_signal = None, me_write = 1\<rparr>"

theorem sined_main_cleans_up_witness:
  "killed (m_effs (sined_main main_env_ref sined_zero)) = [107, 106, 105, 104, 103, 102, 101, 100] \<and>
   joins (m_effs (sined_main main_env_ref sined_zero)) = starts (m_effs (sined_main main_env_ref sined_zero)) \<and>
   joins (m_effs (sined_main (main_env_ref\<lparr>me_signal := Some 1\<rparr>) sined_zero)) =
     starts (m_effs (sined_main (main_env_ref\<lparr>me_signal := Some 1\<rparr>) sined_zero))"
  using sined_main_cleans_up [of main_env_ref] sined_main_cleans_up [of "main_env_ref\<lparr>me_signal := Some 1\<rparr>"]
  by (simp add: main_env_ref_def upt_rec split: manager.splits)

text \<open>
  C28. When a \<open>fork\<close> fails, its -1 stays in the table of children and the exit kills process -1,
  that is every process the daemon may signal; and the exit byte goes to descriptor 0, because
  the exit pipe does not exist yet.
\<close>

theorem fork_failure_kills_all:
  assumes "j < PID_NUM" "me_fork e j = -1" "\<forall>k < j. 0 < me_fork e k" "0 < me_write e"
  shows "killed (m_effs (sined_main e sined_zero)) = -1 # rev (map (me_fork e) [0 ..< j]) \<and>
    M_write 0 \<in> set (m_effs (sined_main e sined_zero))"
proof -
  from fork_loop_fail [where i = 0 and n = PID_NUM and e = e and s = "sined_zero\<lparr>pthreads := (\<lambda>_. me_self e)\<rparr>" and j = j] assms
  obtain s where s: "fork_loop e 0 PID_NUM (sined_zero\<lparr>pthreads := (\<lambda>_. me_self e)\<rparr>) = Inl s"
    "pids s = map (me_fork e) [0 ..< j] @ [-1] @ drop (Suc j) (pids sined_zero)"
    "exit_flag s = exit_flag sined_zero" "exit_pipe s = exit_pipe sined_zero"
    "killed (m_effs s) = killed (m_effs sined_zero)"
    by (auto simp: sined_zero_def simp del: fork_loop.simps)
  have run: "sined_main e sined_zero = main_end e s"
    using s(1) by (simp add: sined_main_def main_start_def del: fork_loop.simps)
  have len: "length (pids s) = PID_NUM" using s(2) assms(1) by (simp add: sined_zero_def)
  have "filter (\<lambda>p. p \<noteq> 0) (rev (pids s)) = -1 # rev (map (me_fork e) [0 ..< j])"
    using s(2) assms(3) by (auto simp: sined_zero_def filter_id_conv)
  with main_end_result [of s e] s(3,5) assms(4) len run
  have "killed (m_effs (sined_main e sined_zero)) = -1 # rev (map (me_fork e) [0 ..< j])"
    by (simp add: sined_zero_def)
  moreover have "M_write (snd (exit_pipe s)) \<in> set (m_effs (main_end e s))"
    using main_end_writes [of s e] s(3) assms(4) by (simp add: sined_zero_def)
  ultimately show ?thesis using s(4) run by (simp add: sined_zero_def)
qed

theorem fork_failure_kills_all_witness:
  "killed (m_effs (sined_main (main_env_ref\<lparr>me_fork := (\<lambda>k. if k = 1 then -1 else 100)\<rparr>) sined_zero)) =
     [-1, 100]"
  using fork_failure_kills_all [of 1 "main_env_ref\<lparr>me_fork := (\<lambda>k. if k = 1 then -1 else 100)\<rparr>"]
  by (simp add: main_env_ref_def)

end
