(* ===== verification/Klist.thy ===== *)
theory Klist
  imports Prelude "HOL-Library.Monad_Syntax"
begin

text \<open>
  The circular doubly linked list of \<open>src/protocols/umip/src/list.h\<close>, on which the Mobile IPv6
  daemon keeps its timer queue, prefix lists and binding lists. A heap gives the two pointers of
  every allocated \<open>list_head\<close>; reading or writing through any other address is \<open>None\<close>. A ring
  of the heap is abstracted to the list of addresses after its head.
\<close>

record kheap =
  k_next :: "nat \<rightharpoonup> nat"
  k_prev :: "nat \<rightharpoonup> nat"

definition set_next :: "nat \<Rightarrow> nat \<Rightarrow> kheap \<Rightarrow> kheap cres" where
  "set_next p v m = (if k_next m p = None then None else Some (m\<lparr>k_next := (k_next m)(p \<mapsto> v)\<rparr>))"

definition set_prev :: "nat \<Rightarrow> nat \<Rightarrow> kheap \<Rightarrow> kheap cres" where
  "set_prev p v m = (if k_prev m p = None then None else Some (m\<lparr>k_prev := (k_prev m)(p \<mapsto> v)\<rparr>))"

definition init_list_head :: "nat \<Rightarrow> kheap \<Rightarrow> kheap cres" where
  "init_list_head p m = do { m \<leftarrow> set_next p p m; set_prev p p m }"

definition list_add_between :: "nat \<Rightarrow> nat \<Rightarrow> nat \<Rightarrow> kheap \<Rightarrow> kheap cres" where
  "list_add_between new prev nxt m = do {
     m \<leftarrow> set_prev nxt new m;
     m \<leftarrow> set_next new nxt m;
     m \<leftarrow> set_prev new prev m;
     set_next prev new m }"

definition list_add :: "nat \<Rightarrow> nat \<Rightarrow> kheap \<Rightarrow> kheap cres" where
  "list_add new head m = do { n \<leftarrow> k_next m head; list_add_between new head n m }"

definition list_add_tail :: "nat \<Rightarrow> nat \<Rightarrow> kheap \<Rightarrow> kheap cres" where
  "list_add_tail new head m = do { p \<leftarrow> k_prev m head; list_add_between new p head m }"

definition list_del_between :: "nat \<Rightarrow> nat \<Rightarrow> kheap \<Rightarrow> kheap cres" where
  "list_del_between prev nxt m = do { m \<leftarrow> set_prev nxt prev m; set_next prev nxt m }"

definition list_del :: "nat \<Rightarrow> kheap \<Rightarrow> kheap cres" where
  "list_del entry m = do {
     p \<leftarrow> k_prev m entry;
     n \<leftarrow> k_next m entry;
     m \<leftarrow> list_del_between p n m;
     init_list_head entry m }"

definition list_move :: "nat \<Rightarrow> nat \<Rightarrow> kheap \<Rightarrow> kheap cres" where
  "list_move l head m = do {
     p \<leftarrow> k_prev m l;
     n \<leftarrow> k_next m l;
     m \<leftarrow> list_del_between p n m;
     list_add l head m }"

definition list_move_tail :: "nat \<Rightarrow> nat \<Rightarrow> kheap \<Rightarrow> kheap cres" where
  "list_move_tail l head m = do {
     p \<leftarrow> k_prev m l;
     n \<leftarrow> k_next m l;
     m \<leftarrow> list_del_between p n m;
     list_add_tail l head m }"

definition list_empty :: "nat \<Rightarrow> kheap \<Rightarrow> bool cres" where
  "list_empty head m = do { n \<leftarrow> k_next m head; Some (n = head) }"

definition list_splice_nonempty :: "nat \<Rightarrow> nat \<Rightarrow> kheap \<Rightarrow> kheap cres" where
  "list_splice_nonempty l head m = do {
     first \<leftarrow> k_next m l;
     lst \<leftarrow> k_prev m l;
     at \<leftarrow> k_next m head;
     m \<leftarrow> set_prev first head m;
     m \<leftarrow> set_next head first m;
     m \<leftarrow> set_next lst at m;
     set_prev at lst m }"

definition list_splice :: "nat \<Rightarrow> nat \<Rightarrow> kheap \<Rightarrow> kheap cres" where
  "list_splice l head m = do {
     e \<leftarrow> list_empty l m;
     if e then Some m
     else do { m \<leftarrow> list_splice_nonempty l head m; init_list_head l m } }"

section \<open>Rings\<close>

definition k_link :: "kheap \<Rightarrow> nat \<Rightarrow> nat \<Rightarrow> bool" where
  "k_link m a b \<longleftrightarrow> k_next m a = Some b \<and> k_prev m b = Some a"

fun linked :: "kheap \<Rightarrow> nat list \<Rightarrow> bool" where
  "linked m (a # b # r) \<longleftrightarrow> k_link m a b \<and> linked m (b # r)"
| "linked m _ \<longleftrightarrow> True"

definition ring :: "kheap \<Rightarrow> nat \<Rightarrow> nat list \<Rightarrow> bool" where
  "ring m h xs \<longleftrightarrow> linked m (h # xs @ [h]) \<and> distinct (h # xs)"

definition k_alloc :: "kheap \<Rightarrow> nat \<Rightarrow> bool" where
  "k_alloc m p \<longleftrightarrow> k_next m p \<noteq> None \<and> k_prev m p \<noteq> None"

text \<open>The two heaps agree outside a set of addresses, and allocate the same.\<close>

definition k_frame :: "nat set \<Rightarrow> kheap \<Rightarrow> kheap \<Rightarrow> bool" where
  "k_frame A m m' \<longleftrightarrow> (\<forall>p. p \<notin> A \<longrightarrow> k_next m' p = k_next m p \<and> k_prev m' p = k_prev m p) \<and>
     (\<forall>p. k_alloc m p \<longrightarrow> k_alloc m' p)"

lemma linked_Cons: "vs \<noteq> [] \<Longrightarrow> linked m (a # vs) \<longleftrightarrow> k_link m a (hd vs) \<and> linked m vs"
  by (cases vs) auto

lemma linked_append:
  "us \<noteq> [] \<Longrightarrow> vs \<noteq> [] \<Longrightarrow>
     linked m (us @ vs) \<longleftrightarrow> linked m us \<and> k_link m (last us) (hd vs) \<and> linked m vs"
  by (induction us rule: linked.induct [of "\<lambda>_ us. P us" for P]) (auto simp: linked_Cons)

lemma linked_cong:
  assumes "\<And>p. p \<in> set (butlast ws) \<Longrightarrow> k_next m' p = k_next m p"
    and "\<And>p. p \<in> set (tl ws) \<Longrightarrow> k_prev m' p = k_prev m p"
  shows "linked m' ws = linked m ws"
  using assms
proof (induction ws rule: linked.induct [of "\<lambda>_ us. P us" for P])
  case (1 _ a b r)
  have "linked m' (b # r) = linked m (b # r)"
    using 1(2,3) by (intro 1(1)) auto
  then show ?case using 1(2) [of a] 1(3) [of b] by (simp add: k_link_def)
qed auto

lemma ring_frame:
  "k_frame A m m' \<Longrightarrow> A \<inter> set (h # xs) = {} \<Longrightarrow> ring m h xs \<Longrightarrow> ring m' h xs"
  unfolding ring_def using linked_cong [of "h # xs @ [h]" m' m]
  by (fastforce simp: k_frame_def butlast_append disjoint_iff)

lemma ring_split:
  "ring m h (ys @ zs) \<longleftrightarrow>
     linked m (h # ys) \<and> k_link m (last (h # ys)) (hd (zs @ [h])) \<and> linked m (zs @ [h]) \<and>
     distinct (h # ys @ zs)"
  using linked_append [of "h # ys" "zs @ [h]" m] by (auto simp: ring_def)

lemma k_link_alloc: "k_link m a b \<Longrightarrow> k_next m a = Some b \<and> k_prev m b = Some a"
  by (simp add: k_link_def)

lemma ring_ends:
  "ring m h xs \<Longrightarrow> k_next m h = Some (hd (xs @ [h])) \<and> k_prev m h = Some (last (h # xs))"
  using ring_split [of m h "[]" xs] ring_split [of m h xs "[]"] by (simp add: k_link_def)


section \<open>The operations on rings\<close>

lemma ring_ends_distinct:
  assumes "distinct (h # ys @ zs)"
  shows "last (h # ys) \<notin> set (butlast (h # ys))" "hd (zs @ [h]) \<notin> set (tl (zs @ [h]))"
    "last (h # ys) \<notin> set zs" "hd (zs @ [h]) \<notin> set ys"
proof -
  have "distinct (butlast (h # ys) @ [last (h # ys)])" using assms by (subst append_butlast_last_id) auto
  then show "last (h # ys) \<notin> set (butlast (h # ys))" by simp
  show "hd (zs @ [h]) \<notin> set (tl (zs @ [h]))" using assms by (cases zs) auto
  have "last (h # ys) \<in> set (h # ys)" by (rule last_in_set) simp
  then show "last (h # ys) \<notin> set zs" using assms by auto
  show "hd (zs @ [h]) \<notin> set ys" using assms by (cases zs) auto
qed

lemma list_add_between_ring:
  assumes r: "ring m h (ys @ zs)" and new: "new \<notin> set (h # ys @ zs)" "k_alloc m new"
  shows "\<exists>m'. list_add_between new (last (h # ys)) (hd (zs @ [h])) m = Some m' \<and>
    ring m' h (ys @ new # zs) \<and> k_frame (insert new (set (h # ys @ zs))) m m'"
proof -
  define p where "p = last (h # ys)"
  define n where "n = hd (zs @ [h])"
  define m' where "m' = m\<lparr>k_next := (k_next m)(new \<mapsto> n, p \<mapsto> new),
    k_prev := (k_prev m)(n \<mapsto> new, new \<mapsto> p)\<rparr>"
  have d: "distinct (h # ys @ zs)" and l: "linked m (h # ys)" "k_link m p n" "linked m (zs @ [h])"
    using r by (auto simp: ring_split p_def n_def)
  have mem: "p \<in> set (h # ys)" "n \<in> set (zs @ [h])"
    unfolding p_def n_def by (rule last_in_set, simp) (rule hd_in_set, simp)
  note e = ring_ends_distinct [OF d, folded p_def n_def]
  have ne: "new \<noteq> p" "new \<noteq> n" using mem new by auto
  have run: "list_add_between new p n m = Some m'"
    using l(2) new(2) ne
    by (auto simp: list_add_between_def set_next_def set_prev_def k_link_def k_alloc_def m'_def fun_upd_twist)
  have "linked m' (h # ys) = linked m (h # ys)"
    using new e ne by (intro linked_cong) (auto simp: m'_def dest: in_set_butlastD split: if_splits)
  moreover have "linked m' (zs @ [h]) = linked m (zs @ [h])"
    using new e ne
    by (intro linked_cong) (cases zs; auto simp: m'_def)+
  moreover have "k_link m' p new" "k_link m' new n"
    using ne by (auto simp: k_link_def m'_def)
  moreover have "linked m' (new # zs @ [h])"
    using calculation l(3) by (simp add: linked_Cons n_def)
  ultimately have "ring m' h (ys @ new # zs)"
    using l d new by (simp add: ring_split p_def)
  moreover have "k_frame (insert new (set (h # ys @ zs))) m m'"
    using mem by (auto simp: k_frame_def m'_def k_alloc_def)
  ultimately show ?thesis using run by (auto simp: p_def n_def)
qed

lemma list_add_ring:
  assumes "ring m h xs" "new \<notin> set (h # xs)" "k_alloc m new"
  shows "\<exists>m'. list_add new h m = Some m' \<and> ring m' h (new # xs) \<and> k_frame (insert new (set (h # xs))) m m'"
  using list_add_between_ring [of m h "[]" xs new] ring_ends [OF assms(1)] assms
  by (simp add: list_add_def)

text \<open>Adding before a member of the ring, or before its head.\<close>

lemma list_add_before_ring:
  assumes r: "ring m h (ys @ zs)" and new: "new \<notin> set (h # ys @ zs)" "k_alloc m new"
  shows "\<exists>m'. list_add_tail new (hd (zs @ [h])) m = Some m' \<and> ring m' h (ys @ new # zs) \<and>
    k_frame (insert new (set (h # ys @ zs))) m m'"
proof -
  have "k_prev m (hd (zs @ [h])) = Some (last (h # ys))"
    using r by (simp add: ring_split k_link_def)
  then show ?thesis
    using list_add_between_ring [OF assms] by (simp add: list_add_tail_def)
qed

lemma list_del_between_ring:
  assumes r: "ring m h (ys @ x # zs)"
  shows "\<exists>m'. k_prev m x = Some (last (h # ys)) \<and> k_next m x = Some (hd (zs @ [h])) \<and>
    list_del_between (last (h # ys)) (hd (zs @ [h])) m = Some m' \<and>
    ring m' h (ys @ zs) \<and> k_frame (set (h # ys @ zs)) m m'"
proof -
  define p where "p = last (h # ys)"
  define n where "n = hd (zs @ [h])"
  define m' where "m' = m\<lparr>k_next := (k_next m)(p \<mapsto> n), k_prev := (k_prev m)(n \<mapsto> p)\<rparr>"
  have d: "distinct (h # ys @ zs)" "x \<notin> set (h # ys @ zs)"
    and l: "linked m (h # ys)" "k_link m p x" "k_link m x n" "linked m (zs @ [h])"
    using r ring_split [of m h ys "x # zs"] by (auto simp: p_def n_def linked_Cons)
  have mem: "p \<in> set (h # ys)" "n \<in> set (zs @ [h])"
    unfolding p_def n_def by (rule last_in_set, simp) (rule hd_in_set, simp)
  note e = ring_ends_distinct [OF d(1), folded p_def n_def]
  obtain q where "k_prev m n = Some q" using l(3) by (auto simp: k_link_def)
  then have run: "list_del_between p n m = Some m'"
    using l(2,3) by (simp add: list_del_between_def set_next_def set_prev_def k_link_def m'_def)
  have "linked m' (h # ys) = linked m (h # ys)"
    using e by (intro linked_cong) (auto simp: m'_def)
  moreover have "linked m' (zs @ [h]) = linked m (zs @ [h])"
    using e by (intro linked_cong) (auto simp: m'_def)
  moreover have "k_link m' p n"
    by (simp add: k_link_def m'_def)
  ultimately have "ring m' h (ys @ zs)"
    using l d by (simp add: ring_split p_def n_def)
  moreover have "k_frame (set (h # ys @ zs)) m m'"
    using mem by (auto simp: k_frame_def m'_def k_alloc_def)
  ultimately show ?thesis using run l(2,3) by (auto simp: p_def n_def k_link_def)
qed

definition self_linked :: "kheap \<Rightarrow> nat \<Rightarrow> bool" where
  "self_linked m p \<longleftrightarrow> k_next m p = Some p \<and> k_prev m p = Some p"

lemma self_linked_ring: "self_linked m p \<longleftrightarrow> ring m p []"
  by (auto simp: self_linked_def ring_def k_link_def)

lemma init_list_head_self:
  assumes "k_alloc m p"
  shows "\<exists>m'. init_list_head p m = Some m' \<and> self_linked m' p \<and> k_frame {p} m m'"
  using assms
  by (auto simp: init_list_head_def set_next_def set_prev_def k_alloc_def self_linked_def k_frame_def)

lemma k_frame_trans: "k_frame A m m1 \<Longrightarrow> k_frame B m1 m2 \<Longrightarrow> k_frame (A \<union> B) m m2"
  by (auto simp: k_frame_def)

lemma k_frame_mono: "k_frame A m m1 \<Longrightarrow> A \<subseteq> B \<Longrightarrow> k_frame B m m1"
  by (auto simp: k_frame_def)

lemma ring_alloc: "ring m h xs \<Longrightarrow> p \<in> set (h # xs) \<Longrightarrow> k_alloc m p"
proof -
  assume r: "ring m h xs" and "p \<in> set (h # xs)"
  then consider "p = h" | ys zs where "xs = ys @ p # zs" by (auto dest: split_list)
  then show ?thesis
  proof cases
    case 1 then show ?thesis using ring_ends [OF r] by (simp add: k_alloc_def)
  next
    case 2 then show ?thesis using list_del_between_ring [of m h ys p zs] r by (auto simp: k_alloc_def)
  qed
qed

lemma list_del_ring:
  assumes r: "ring m h (ys @ x # zs)"
  shows "\<exists>m'. list_del x m = Some m' \<and> ring m' h (ys @ zs) \<and> self_linked m' x \<and>
    k_frame (set (h # ys @ x # zs)) m m'"
proof -
  obtain m1 where m1: "k_prev m x = Some (last (h # ys))" "k_next m x = Some (hd (zs @ [h]))"
    "list_del_between (last (h # ys)) (hd (zs @ [h])) m = Some m1"
    "ring m1 h (ys @ zs)" "k_frame (set (h # ys @ zs)) m m1"
    using list_del_between_ring [OF r] by blast
  have "k_alloc m1 x" using ring_alloc [OF r, of x] m1(5) by (simp add: k_frame_def)
  then obtain m2 where m2: "init_list_head x m1 = Some m2" "self_linked m2 x" "k_frame {x} m1 m2"
    using init_list_head_self by blast
  have "ring m2 h (ys @ zs)"
    using r by (intro ring_frame [OF m2(3) _ m1(4)]) (auto simp: ring_def)
  moreover have "k_frame (set (h # ys @ x # zs)) m m2"
    by (rule k_frame_mono [OF k_frame_trans [OF m1(5) m2(3)]]) auto
  ultimately show ?thesis using m1 m2 by (auto simp: list_del_def)
qed

text \<open>Deleting an entry that is on no list changes nothing, so a second deletion is harmless.\<close>

lemma list_del_self: "self_linked m p \<Longrightarrow> list_del p m = Some m"
  by (auto simp: self_linked_def list_del_def list_del_between_def init_list_head_def set_next_def
      set_prev_def fun_upd_idem)

lemma list_empty_ring: "ring m h xs \<Longrightarrow> list_empty h m = Some (xs = [])"
  using ring_ends [of m h xs] by (cases xs) (auto simp: list_empty_def ring_def)

lemma list_splice_nonempty_ring:
  assumes l: "ring m l xs" and r: "ring m h ys" and ne: "xs \<noteq> []"
    and disj: "set (l # xs) \<inter> set (h # ys) = {}"
  shows "\<exists>m'. list_splice_nonempty l h m = Some m' \<and> ring m' h (xs @ ys) \<and> k_alloc m' l \<and>
    k_frame (set (l # xs) \<union> set (h # ys)) m m'"
proof -
  define a where "a = hd xs"
  define z where "z = last xs"
  define n where "n = hd (ys @ [h])"
  define m' where "m' = m\<lparr>k_next := (k_next m)(h \<mapsto> a, z \<mapsto> n), k_prev := (k_prev m)(a \<mapsto> h, n \<mapsto> z)\<rparr>"
  have lk: "k_link m l a" "linked m xs" "k_link m z l" "distinct (l # xs)"
    using l ne ring_split [of m l "[]" xs] linked_append [of xs "[l]" m]
    by (auto simp: a_def z_def ring_split [of m l "[]" xs, simplified])
  have rk: "k_link m h n" "linked m (ys @ [h])" "distinct (h # ys)"
    using r ring_split [of m h "[]" ys] by (simp_all add: n_def)
  have az: "a \<in> set xs" "z \<in> set xs" "a \<notin> set (tl xs)" "z \<notin> set (butlast xs)"
    using ne lk(4) ring_ends_distinct(1) [of l xs "[]"]
    by (auto simp: a_def z_def) (cases xs; simp)
  have n: "n \<in> set (h # ys)" "n \<notin> set (tl (ys @ [h]))"
    using rk(3) ring_ends_distinct(2) [of h "[]" ys] by (cases ys; auto simp: n_def)+
  have run: "list_splice_nonempty l h m = Some m'"
    using lk rk az disj ring_alloc [OF l, of a] ring_alloc [OF l, of z] ring_alloc [OF r, of n] n(1)
    by (auto simp: list_splice_nonempty_def set_next_def set_prev_def k_link_def k_alloc_def m'_def)
  have xn: "n \<notin> set xs" "h \<notin> set xs" "a \<noteq> n" "a \<notin> set (ys @ [h])" "z \<notin> set ys" "z \<noteq> h"
    using disj n(1) az by (auto simp: disjoint_iff)
  have "linked m' xs = linked m xs"
    using az xn by (intro linked_cong) (auto simp: m'_def dest: in_set_butlastD list.set_sel(2) [OF ne])
  moreover have "linked m' (ys @ [h]) = linked m (ys @ [h])"
    using n xn rk(3) by (intro linked_cong) (cases ys; auto simp: m'_def)+
  moreover have "k_link m' h a" "k_link m' z n"
    using xn by (auto simp: k_link_def m'_def)
  ultimately have "linked m' (h # (xs @ ys) @ [h])"
    using lk(2) rk(2) ne linked_append [of xs "ys @ [h]" m']
    by (simp add: linked_Cons a_def z_def n_def)
  moreover have "distinct (h # xs @ ys)" using lk(4) rk(3) disj by auto
  moreover have "k_alloc m' l" using ring_alloc [OF l, of l] by (auto simp: k_alloc_def m'_def)
  moreover have "k_frame (set (l # xs) \<union> set (h # ys)) m m'"
    using az n(1) by (auto simp: k_frame_def m'_def k_alloc_def)
  ultimately show ?thesis using run by (simp add: ring_def)
qed

lemma list_splice_ring:
  assumes l: "ring m l xs" and r: "ring m h ys" and disj: "set (l # xs) \<inter> set (h # ys) = {}"
  shows "\<exists>m'. list_splice l h m = Some m' \<and> ring m' h (xs @ ys) \<and> ring m' l [] \<and>
    k_frame (set (l # xs) \<union> set (h # ys)) m m'"
proof (cases "xs = []")
  case True
  then show ?thesis using assms list_empty_ring [OF l] by (simp add: list_splice_def k_frame_def)
next
  case False
  obtain m1 where m1: "list_splice_nonempty l h m = Some m1" "ring m1 h (xs @ ys)" "k_alloc m1 l"
    "k_frame (set (l # xs) \<union> set (h # ys)) m m1"
    using list_splice_nonempty_ring [OF l r False disj] by blast
  obtain m2 where m2: "init_list_head l m1 = Some m2" "self_linked m2 l" "k_frame {l} m1 m2"
    using init_list_head_self [OF m1(3)] by blast
  have "l \<notin> set xs" using l by (simp add: ring_def)
  then have "ring m2 h (xs @ ys)"
    using disj by (intro ring_frame [OF m2(3) _ m1(2)]) auto
  moreover have "k_frame (set (l # xs) \<union> set (h # ys)) m m2"
    by (rule k_frame_mono [OF k_frame_trans [OF m1(4) m2(3)]]) auto
  ultimately show ?thesis
    using m1(1) m2(1,2) False list_empty_ring [OF l] by (simp add: list_splice_def self_linked_ring)
qed

lemma list_move_ring:
  assumes l: "ring m h (ys @ x # zs)" and r: "ring m g ws"
    and disj: "set (h # ys @ x # zs) \<inter> set (g # ws) = {}"
  shows "\<exists>m'. list_move x g m = Some m' \<and> ring m' h (ys @ zs) \<and> ring m' g (x # ws) \<and>
      k_frame (set (h # ys @ x # zs) \<union> set (g # ws)) m m'"
    and "\<exists>m'. list_move_tail x g m = Some m' \<and> ring m' h (ys @ zs) \<and> ring m' g (ws @ [x]) \<and>
      k_frame (set (h # ys @ x # zs) \<union> set (g # ws)) m m'"
proof -
  obtain m1 where m1: "k_prev m x = Some (last (h # ys))" "k_next m x = Some (hd (zs @ [h]))"
    "list_del_between (last (h # ys)) (hd (zs @ [h])) m = Some m1"
    "ring m1 h (ys @ zs)" "k_frame (set (h # ys @ zs)) m m1"
    using list_del_between_ring [OF l] by blast
  have g: "ring m1 g ws" using disj by (intro ring_frame [OF m1(5) _ r]) auto
  have x: "x \<notin> set (g # ws)" "k_alloc m1 x"
    using disj ring_alloc [OF l, of x] m1(5) by (auto simp: k_frame_def)
  have x': "x \<notin> set (h # ys @ zs)" using l by (auto simp: ring_def)
  have keep: "ring m2 h (ys @ zs)" if "k_frame (insert x (set (g # ws))) m1 m2" for m2
    using disj x' by (intro ring_frame [OF that _ m1(4)]) auto
  have fr: "k_frame (set (h # ys @ x # zs) \<union> set (g # ws)) m m2" if "k_frame (insert x (set (g # ws))) m1 m2" for m2
    by (rule k_frame_mono [OF k_frame_trans [OF m1(5) that]]) auto
  show "\<exists>m'. list_move x g m = Some m' \<and> ring m' h (ys @ zs) \<and> ring m' g (x # ws) \<and>
      k_frame (set (h # ys @ x # zs) \<union> set (g # ws)) m m'"
    using list_add_ring [OF g x] keep fr m1(1-3) by (auto simp: list_move_def)
  show "\<exists>m'. list_move_tail x g m = Some m' \<and> ring m' h (ys @ zs) \<and> ring m' g (ws @ [x]) \<and>
      k_frame (set (h # ys @ x # zs) \<union> set (g # ws)) m m'"
    using list_add_before_ring [of m1 g ws "[]" x] g x keep fr m1(1-3) by (auto simp: list_move_tail_def)
qed

text \<open>The rings that have no address in \<open>A\<close> are as before.\<close>

definition rings_kept :: "nat set \<Rightarrow> kheap \<Rightarrow> kheap \<Rightarrow> bool" where
  "rings_kept A m m' \<longleftrightarrow> (\<forall>f vs. ring m f vs \<and> A \<inter> set (f # vs) = {} \<longrightarrow> ring m' f vs)"

lemma k_frame_rings: "k_frame A m m' \<Longrightarrow> rings_kept A m m'"
  unfolding rings_kept_def using ring_frame by blast

text \<open>
  C34. The pointer operations implement list operations. Take two disjoint, well linked rings, one
  with members \<open>ys @ x # zs\<close> and one with members \<open>ws\<close>, and a fresh entry. Deleting \<open>x\<close> leaves
  \<open>ys @ zs\<close>; moving it puts it at the front or at the end of the other ring; adding the fresh entry
  puts it at the front, or at the place before \<open>x\<close>; splicing the other ring in puts its members in
  front and leaves that ring empty. Each operation returns, and every ring that it is not called on
  is as before.
\<close>

theorem klist_refines:
  assumes h: "ring m h (ys @ x # zs)" and g: "ring m g ws" and disj: "set (h # ys @ x # zs) \<inter> set (g # ws) = {}"
    and new: "new \<notin> set (h # ys @ x # zs)" "k_alloc m new"
  shows "(\<exists>m'. list_del x m = Some m' \<and> ring m' h (ys @ zs) \<and> rings_kept (set (h # ys @ x # zs)) m m') \<and>
    (\<exists>m'. list_move x g m = Some m' \<and> ring m' h (ys @ zs) \<and> ring m' g (x # ws) \<and>
       rings_kept (set (h # ys @ x # zs) \<union> set (g # ws)) m m') \<and>
    (\<exists>m'. list_move_tail x g m = Some m' \<and> ring m' h (ys @ zs) \<and> ring m' g (ws @ [x]) \<and>
       rings_kept (set (h # ys @ x # zs) \<union> set (g # ws)) m m') \<and>
    (\<exists>m'. list_add new h m = Some m' \<and> ring m' h (new # ys @ x # zs) \<and>
       rings_kept (insert new (set (h # ys @ x # zs))) m m') \<and>
    (\<exists>m'. list_add_tail new x m = Some m' \<and> ring m' h (ys @ new # x # zs) \<and>
       rings_kept (insert new (set (h # ys @ x # zs))) m m') \<and>
    (\<exists>m'. list_splice g h m = Some m' \<and> ring m' h (ws @ ys @ x # zs) \<and> ring m' g [] \<and>
       rings_kept (set (g # ws) \<union> set (h # ys @ x # zs)) m m')"
proof (intro conjI)
  show "\<exists>m'. list_del x m = Some m' \<and> ring m' h (ys @ zs) \<and> rings_kept (set (h # ys @ x # zs)) m m'"
    using list_del_ring [OF h] k_frame_rings by blast
  show "\<exists>m'. list_move x g m = Some m' \<and> ring m' h (ys @ zs) \<and> ring m' g (x # ws) \<and>
      rings_kept (set (h # ys @ x # zs) \<union> set (g # ws)) m m'"
    using list_move_ring(1) [OF h g disj] k_frame_rings by blast
  show "\<exists>m'. list_move_tail x g m = Some m' \<and> ring m' h (ys @ zs) \<and> ring m' g (ws @ [x]) \<and>
      rings_kept (set (h # ys @ x # zs) \<union> set (g # ws)) m m'"
    using list_move_ring(2) [OF h g disj] k_frame_rings by blast
  show "\<exists>m'. list_add new h m = Some m' \<and> ring m' h (new # ys @ x # zs) \<and>
      rings_kept (insert new (set (h # ys @ x # zs))) m m'"
    using list_add_ring [OF h new] k_frame_rings by blast
  show "\<exists>m'. list_add_tail new x m = Some m' \<and> ring m' h (ys @ new # x # zs) \<and>
      rings_kept (insert new (set (h # ys @ x # zs))) m m'"
    using list_add_before_ring [of m h ys "x # zs" new] h new k_frame_rings by fastforce
  have "set (g # ws) \<inter> set (h # ys @ x # zs) = {}" using disj by blast
  from list_splice_ring [OF g h this]
  show "\<exists>m'. list_splice g h m = Some m' \<and> ring m' h (ws @ ys @ x # zs) \<and> ring m' g [] \<and>
      rings_kept (set (g # ws) \<union> set (h # ys @ x # zs)) m m'"
    using k_frame_rings by blast
qed

definition two_rings :: kheap where
  "two_rings = \<lparr>k_next = [1 \<mapsto> 2, 2 \<mapsto> 1, 3 \<mapsto> 4, 4 \<mapsto> 3, 5 \<mapsto> 5], k_prev = [1 \<mapsto> 2, 2 \<mapsto> 1, 3 \<mapsto> 4, 4 \<mapsto> 3, 5 \<mapsto> 5]\<rparr>"

theorem klist_refines_witness:
  "\<exists>m'. list_splice 3 1 two_rings = Some m' \<and> ring m' 1 [4, 2] \<and> ring m' 3 [] \<and> ring m' 5 []"
proof -
  have r: "ring two_rings 1 ([] @ 2 # [])" "ring two_rings 3 [4]" "ring two_rings 5 []" "k_alloc two_rings 5"
    by (simp_all add: two_rings_def ring_def k_link_def k_alloc_def)
  obtain m' where "list_splice 3 1 two_rings = Some m'" "ring m' 1 [4, 2]" "ring m' 3 []"
    "rings_kept (set [3, 4] \<union> set [1, 2]) two_rings m'"
    using klist_refines [OF r(1,2) _ _ r(4)] by auto
  moreover from this(4) have "ring m' 5 []" using r(3) by (simp add: rings_kept_def)
  ultimately show ?thesis by blast
qed

end
