(* ===== verification/Timespec.thy ===== *)
theory Timespec
  imports Prelude "HOL-Library.Signed_Division"
begin

text \<open>
  The time arithmetic of the Mobile IPv6 daemon (the macros of \<open>src/protocols/umip/src/util.h\<close>).
  A \<open>struct timespec\<close> is a pair of integers; it is normal when its nanoseconds are below a
  second. Seconds are counted in a 64 bit type; the model takes them as integers, and the exactness
  theorem states that no operation leaves that range on times of the size that occurs.
\<close>

datatype timespec = Timespec (tv_sec: int) (tv_nsec: int)

abbreviation (input) TIME_SEC_MSEC :: int where "TIME_SEC_MSEC \<equiv> 1000"
abbreviation (input) TIME_SEC_NSEC :: int where "TIME_SEC_NSEC \<equiv> 1000000000"
abbreviation (input) TIME_MSEC_NSEC :: int where "TIME_MSEC_NSEC \<equiv> 1000000"

definition tsisset :: "timespec \<Rightarrow> bool" where
  "tsisset t \<longleftrightarrow> tv_sec t \<noteq> 0 \<or> tv_nsec t \<noteq> 0"

definition tszero :: timespec where "tszero = Timespec 0 0"

definition tscmp :: "(int \<Rightarrow> int \<Rightarrow> bool) \<Rightarrow> timespec \<Rightarrow> timespec \<Rightarrow> bool" where
  "tscmp cmp a b = (if tv_sec a = tv_sec b then cmp (tv_nsec a) (tv_nsec b) else cmp (tv_sec a) (tv_sec b))"

text \<open>Mind the names: \<open>tsafter a b\<close> holds when \<open>b\<close> is later, \<open>tsbefore a b\<close> when it is earlier.\<close>

definition tsafter :: "timespec \<Rightarrow> timespec \<Rightarrow> bool" where
  "tsafter a b = tscmp (<) a b"

definition tsbefore :: "timespec \<Rightarrow> timespec \<Rightarrow> bool" where
  "tsbefore a b = tscmp (>) a b"

text \<open>The carry of \<open>tsadd\<close>, \<open>tsinc\<close> and \<open>tsincmsec\<close>, and the borrow of their counterparts.\<close>

definition ts_carry :: "int \<Rightarrow> int \<Rightarrow> timespec" where
  "ts_carry s n = (if n \<ge> TIME_SEC_NSEC then Timespec (s + 1) (n - TIME_SEC_NSEC) else Timespec s n)"

definition ts_borrow :: "int \<Rightarrow> int \<Rightarrow> timespec" where
  "ts_borrow s n = (if n < 0 then Timespec (s - 1) (n + TIME_SEC_NSEC) else Timespec s n)"

definition tsadd :: "timespec \<Rightarrow> timespec \<Rightarrow> timespec" where
  "tsadd a b = ts_carry (tv_sec a + tv_sec b) (tv_nsec a + tv_nsec b)"

definition tssub :: "timespec \<Rightarrow> timespec \<Rightarrow> timespec" where
  "tssub a b = ts_borrow (tv_sec a - tv_sec b) (tv_nsec a - tv_nsec b)"

definition tssetsec :: "int \<Rightarrow> timespec" where "tssetsec s = Timespec s 0"

text \<open>Division and remainder are those of C, which round towards zero.\<close>

definition tssetmsec :: "int \<Rightarrow> timespec" where
  "tssetmsec ms = Timespec (ms sdiv TIME_SEC_MSEC) (ms smod TIME_SEC_MSEC * TIME_MSEC_NSEC)"

definition tstomsec :: "timespec \<Rightarrow> int" where
  "tstomsec t = tv_sec t * TIME_SEC_MSEC + tv_nsec t sdiv TIME_MSEC_NSEC"

definition tsinc :: "timespec \<Rightarrow> int \<Rightarrow> int \<Rightarrow> timespec" where
  "tsinc t s n = ts_carry (tv_sec t + s) (tv_nsec t + n)"

definition tsincmsec :: "timespec \<Rightarrow> int \<Rightarrow> timespec" where
  "tsincmsec t ms =
     ts_carry (tv_sec t + ms sdiv TIME_SEC_MSEC) (tv_nsec t + ms smod TIME_SEC_MSEC * TIME_MSEC_NSEC)"

definition tsdec :: "timespec \<Rightarrow> int \<Rightarrow> int \<Rightarrow> timespec" where
  "tsdec t s n = ts_borrow (tv_sec t - s) (tv_nsec t - n)"

definition tsdecmsec :: "timespec \<Rightarrow> int \<Rightarrow> timespec" where
  "tsdecmsec t ms =
     ts_borrow (tv_sec t - ms sdiv TIME_SEC_MSEC) (tv_nsec t - ms smod TIME_SEC_MSEC * TIME_MSEC_NSEC)"

definition tsmin :: "timespec \<Rightarrow> timespec \<Rightarrow> timespec" where
  "tsmin a b = (if tsbefore a b then b else a)"

definition tsmax :: "timespec \<Rightarrow> timespec \<Rightarrow> timespec" where
  "tsmax a b = (if tsafter a b then b else a)"

section \<open>The order\<close>

text \<open>Times are ordered by seconds, then nanoseconds.\<close>

instantiation timespec :: linorder
begin

definition less_eq_timespec :: "timespec \<Rightarrow> timespec \<Rightarrow> bool" where
  "a \<le> b \<longleftrightarrow> tv_sec a < tv_sec b \<or> tv_sec a = tv_sec b \<and> tv_nsec a \<le> tv_nsec b"

definition less_timespec :: "timespec \<Rightarrow> timespec \<Rightarrow> bool" where
  "a < b \<longleftrightarrow> tv_sec a < tv_sec b \<or> tv_sec a = tv_sec b \<and> tv_nsec a < tv_nsec b"

instance
  by standard (auto simp: less_eq_timespec_def less_timespec_def intro: timespec.expand)

end

lemma tsafter_less [simp]: "tsafter a b \<longleftrightarrow> a < b"
  by (auto simp: tsafter_def tscmp_def less_timespec_def)

lemma tsbefore_greater [simp]: "tsbefore a b \<longleftrightarrow> b < a"
  by (auto simp: tsbefore_def tscmp_def less_timespec_def)

lemma tsmin_min [ts_simps]: "tsmin a b = min a b"
  by (auto simp: tsmin_def min_def)

lemma tsmax_max [ts_simps]: "tsmax a b = max a b"
  by (auto simp: tsmax_def max_def)

lemma tsisset_zero [simp]: "\<not> tsisset tszero" "tsisset t \<longleftrightarrow> t \<noteq> tszero"
  by (auto simp: tsisset_def tszero_def intro: timespec.expand)

section \<open>Exactness\<close>

definition ts_ok :: "timespec \<Rightarrow> bool" where
  "ts_ok t \<longleftrightarrow> 0 \<le> tv_nsec t \<and> tv_nsec t < TIME_SEC_NSEC"

definition nsecs :: "timespec \<Rightarrow> int" where
  "nsecs t = tv_sec t * TIME_SEC_NSEC + tv_nsec t"

lemma ts_carry_exact:
  "0 \<le> n \<Longrightarrow> n < 2 * TIME_SEC_NSEC \<Longrightarrow>
     ts_ok (ts_carry s n) \<and> nsecs (ts_carry s n) = s * TIME_SEC_NSEC + n"
  by (auto simp: ts_carry_def ts_ok_def nsecs_def algebra_simps)

lemma ts_borrow_exact:
  "- TIME_SEC_NSEC < n \<Longrightarrow> n < TIME_SEC_NSEC \<Longrightarrow>
     ts_ok (ts_borrow s n) \<and> nsecs (ts_borrow s n) = s * TIME_SEC_NSEC + n"
  by (auto simp: ts_borrow_def ts_ok_def nsecs_def algebra_simps)

lemma sdiv_nonneg: "0 \<le> k \<Longrightarrow> 0 < l \<Longrightarrow> k sdiv l = k div l" "0 \<le> k \<Longrightarrow> 0 < l \<Longrightarrow> k smod l = k mod l" for k l :: int
  by (auto simp: signed_divide_int_def signed_modulo_int_def sgn_if)

lemma msec_parts:
  assumes "0 \<le> (ms :: int)"
  shows "0 \<le> ms smod 1000 * 1000000 \<and> ms smod 1000 * 1000000 < 1000000000 \<and>
    ms sdiv 1000 * 1000000000 + ms smod 1000 * 1000000 = ms * 1000000 \<and> 0 \<le> ms sdiv 1000 \<and> ms sdiv 1000 \<le> ms"
proof -
  have "ms sdiv 1000 = ms div 1000" "ms smod 1000 = ms mod 1000" using assms by (simp_all add: sdiv_nonneg)
  then show ?thesis
    using div_mult_mod_eq [of ms 1000] pos_mod_bound [of 1000 ms] pos_mod_sign [of 1000 ms] assms by linarith
qed

lemma nsecs_less: "ts_ok a \<Longrightarrow> ts_ok b \<Longrightarrow> a < b \<longleftrightarrow> nsecs a < nsecs b"
  unfolding ts_ok_def nsecs_def less_timespec_def by linarith

lemma nsecs_inj: "ts_ok a \<Longrightarrow> ts_ok b \<Longrightarrow> nsecs a = nsecs b \<Longrightarrow> a = b"
  using nsecs_less [of a b] nsecs_less [of b a] by fastforce

lemma tsadd_exact:
  "ts_ok a \<Longrightarrow> ts_ok b \<Longrightarrow> ts_ok (tsadd a b) \<and> nsecs (tsadd a b) = nsecs a + nsecs b"
  using ts_carry_exact [of "tv_nsec a + tv_nsec b" "tv_sec a + tv_sec b"]
  by (auto simp: tsadd_def ts_ok_def nsecs_def algebra_simps)

lemma tssub_exact:
  "ts_ok a \<Longrightarrow> ts_ok b \<Longrightarrow> ts_ok (tssub a b) \<and> nsecs (tssub a b) = nsecs a - nsecs b"
  using ts_borrow_exact [of "tv_nsec a - tv_nsec b" "tv_sec a - tv_sec b"]
  by (auto simp: tssub_def ts_ok_def nsecs_def algebra_simps)

lemma tsincmsec_exact:
  "ts_ok t \<Longrightarrow> 0 \<le> ms \<Longrightarrow> ts_ok (tsincmsec t ms) \<and> nsecs (tsincmsec t ms) = nsecs t + ms * TIME_MSEC_NSEC"
  using ts_carry_exact [of "tv_nsec t + ms smod 1000 * 1000000" "tv_sec t + ms sdiv 1000"] msec_parts [of ms]
  by (auto simp: tsincmsec_def ts_ok_def nsecs_def algebra_simps)

lemma tsdecmsec_exact:
  "ts_ok t \<Longrightarrow> 0 \<le> ms \<Longrightarrow> ts_ok (tsdecmsec t ms) \<and> nsecs (tsdecmsec t ms) = nsecs t - ms * TIME_MSEC_NSEC"
  using ts_borrow_exact [of "tv_nsec t - ms smod 1000 * 1000000" "tv_sec t - ms sdiv 1000"] msec_parts [of ms]
  by (auto simp: tsdecmsec_def ts_ok_def nsecs_def algebra_simps)

lemma tssetmsec_exact:
  assumes "0 \<le> ms"
  shows "ts_ok (tssetmsec ms) \<and> nsecs (tssetmsec ms) = ms * TIME_MSEC_NSEC \<and> tstomsec (tssetmsec ms) = ms"
  using msec_parts [OF assms] assms
  by (auto simp: tssetmsec_def tstomsec_def ts_ok_def nsecs_def sdiv_nonneg)

text \<open>The seconds of a time are in the range of a signed 64 bit integer.\<close>

definition time_t_ok :: "timespec \<Rightarrow> bool" where
  "time_t_ok t \<longleftrightarrow> - (2 ^ 63) \<le> tv_sec t \<and> tv_sec t < 2 ^ 63"

lemma time_t_carry: "- (2 ^ 63) \<le> s \<Longrightarrow> s < 2 ^ 63 - 1 \<Longrightarrow> time_t_ok (ts_carry s n)"
  by (simp add: time_t_ok_def ts_carry_def)

lemma time_t_borrow: "- (2 ^ 63) < s \<Longrightarrow> s < 2 ^ 63 \<Longrightarrow> time_t_ok (ts_borrow s n)"
  by (simp add: time_t_ok_def ts_borrow_def)

text \<open>
  C38. Time arithmetic is exact. On normal times, addition and subtraction, and adding or taking away
  a number of milliseconds that is not negative, give normal times with the exact number of
  nanoseconds; a time set from milliseconds is normal, exact and gives them back; subtraction
  undoes addition; and the two comparisons order times by their nanoseconds. With seconds and
  milliseconds below \<open>2 ^ 61\<close> in size no result leaves the 64 bits of \<open>time_t\<close>.
\<close>

theorem timespec_exact:
  assumes ok: "ts_ok a" "ts_ok b" and ms: "0 \<le> ms"
    and range: "\<bar>tv_sec a\<bar> < 2 ^ 61" "\<bar>tv_sec b\<bar> < 2 ^ 61" "ms < 2 ^ 61"
  shows "ts_ok (tsadd a b) \<and> nsecs (tsadd a b) = nsecs a + nsecs b \<and>
    ts_ok (tssub a b) \<and> nsecs (tssub a b) = nsecs a - nsecs b \<and>
    tssub (tsadd a b) b = a \<and>
    ts_ok (tsincmsec a ms) \<and> nsecs (tsincmsec a ms) = nsecs a + ms * TIME_MSEC_NSEC \<and>
    ts_ok (tsdecmsec a ms) \<and> nsecs (tsdecmsec a ms) = nsecs a - ms * TIME_MSEC_NSEC \<and>
    ts_ok (tssetmsec ms) \<and> nsecs (tssetmsec ms) = ms * TIME_MSEC_NSEC \<and> tstomsec (tssetmsec ms) = ms \<and>
    (tsafter a b \<longleftrightarrow> nsecs a < nsecs b) \<and> (tsbefore a b \<longleftrightarrow> nsecs b < nsecs a) \<and>
    time_t_ok (tsadd a b) \<and> time_t_ok (tssub a b) \<and> time_t_ok (tsincmsec a ms) \<and> time_t_ok (tsdecmsec a ms)"
proof -
  note add = tsadd_exact [OF ok] and inc = tsincmsec_exact [OF ok(1) ms] and dec = tsdecmsec_exact [OF ok(1) ms]
  have "tssub (tsadd a b) b = a"
    using add tssub_exact [of "tsadd a b" b] ok by (intro nsecs_inj) simp_all
  moreover have "time_t_ok (tsadd a b)" "time_t_ok (tssub a b)"
    unfolding tsadd_def tssub_def using range by (auto intro!: time_t_carry time_t_borrow)
  moreover have "0 \<le> ms sdiv 1000" "ms sdiv 1000 < 2 ^ 61" using msec_parts [OF ms] range(3) by auto
  then have "time_t_ok (tsincmsec a ms)" "time_t_ok (tsdecmsec a ms)"
    unfolding tsincmsec_def tsdecmsec_def using range(1) by (auto intro!: time_t_carry time_t_borrow)
  ultimately show ?thesis
    using add inc dec tssub_exact [OF ok] tssetmsec_exact [OF ms] nsecs_less [OF ok] nsecs_less [OF ok(2,1)] by simp
qed

theorem timespec_exact_witness:
  "tssub (tsadd (Timespec 1 999999999) (Timespec 0 2)) (Timespec 0 2) = Timespec 1 999999999 \<and>
   ts_ok (tsincmsec (Timespec 1 999999999) 1700) \<and> tsafter (Timespec 1 999999999) (Timespec 2 0)"
  using timespec_exact [of "Timespec 1 999999999" "Timespec 0 2" 1700]
    timespec_exact [of "Timespec 1 999999999" "Timespec 2 0" 0]
  by (simp add: ts_ok_def nsecs_def)

end
