(* ===== verification/Tqueue.thy ===== *)
theory Tqueue
  imports Klist Timespec
begin

text \<open>
  The timer queue of the Mobile IPv6 daemon (\<open>src/protocols/umip/src/tqueue.c\<close>): a ring of timer
  elements in order of expiry and a thread that runs the due ones. A \<open>tq_elem\<close> is identified with
  the address of its embedded \<open>list_head\<close>, its first member. Every operation holds the mutex
  throughout, so it is one step; the runner releases it only while a task runs and while it waits.
\<close>

definition tq_list :: nat where "tq_list = 1"

record tqueue =
  tq_links :: kheap
  tq_expires :: "nat \<Rightarrow> timespec"
  tq_task :: "nat \<Rightarrow> nat"
  tq_killed :: bool
  tq_curr :: nat
  tq_signals :: nat

definition is_first_task :: "nat \<Rightarrow> tqueue \<Rightarrow> bool cres" where
  "is_first_task e s = do { n \<leftarrow> k_next (tq_links s) tq_list; Some (n = e) }"

partial_function (option) destroy_loop :: "nat \<Rightarrow> tqueue \<Rightarrow> tqueue cres" where
  "destroy_loop l s =
     (if l = tq_list then Some s
      else do {
        n \<leftarrow> k_next (tq_links s) l;
        m \<leftarrow> list_del l (tq_links s);
        destroy_loop n (s\<lparr>tq_links := m, tq_expires := (tq_expires s)(l := tszero)\<rparr>) })"

definition taskqueue_destroy :: "tqueue \<Rightarrow> tqueue cres" where
  "taskqueue_destroy s = do {
     l \<leftarrow> k_next (tq_links s) tq_list;
     s \<leftarrow> destroy_loop l s;
     Some (s\<lparr>tq_killed := True, tq_signals := Suc (tq_signals s)\<rparr>) }"

partial_function (option) sorted_insert_loop :: "nat \<Rightarrow> nat \<Rightarrow> tqueue \<Rightarrow> tqueue cres" where
  "sorted_insert_loop tqi l s =
     (if l = tq_list then do {
        m \<leftarrow> list_add_tail tqi tq_list (tq_links s);
        Some (s\<lparr>tq_links := m\<rparr>) }
      else if tsbefore (tq_expires s l) (tq_expires s tqi) then do {
        m \<leftarrow> list_add_tail tqi l (tq_links s);
        Some (s\<lparr>tq_links := m\<rparr>) }
      else do {
        n \<leftarrow> k_next (tq_links s) l;
        sorted_insert_loop tqi n s })"

definition sorted_insert :: "nat \<Rightarrow> tqueue \<Rightarrow> tqueue cres" where
  "sorted_insert tqi s = do { l \<leftarrow> k_next (tq_links s) tq_list; sorted_insert_loop tqi l s }"

definition clear_curr :: "nat \<Rightarrow> tqueue \<Rightarrow> tqueue" where
  "clear_curr e s = (if e = tq_curr s then s\<lparr>tq_curr := 0\<rparr> else s)"

text \<open>A null element fails the assertion.\<close>

definition del_task :: "nat \<Rightarrow> tqueue \<Rightarrow> tqueue cres" where
  "del_task e s =
     (if e = 0 then None
      else do {
        m \<leftarrow> list_del e (tq_links s);
        Some (clear_curr e (s\<lparr>tq_links := m, tq_expires := (tq_expires s)(e := tszero)\<rparr>)) })"

definition add_task_abs :: "timespec \<Rightarrow> nat \<Rightarrow> nat \<Rightarrow> tqueue \<Rightarrow> tqueue cres" where
  "add_task_abs expires tqi task s = do {
     m \<leftarrow> (if tsisset (tq_expires s tqi) then list_del tqi (tq_links s) else Some (tq_links s));
     s \<leftarrow> sorted_insert tqi ((clear_curr tqi (s\<lparr>tq_links := m\<rparr>))
             \<lparr>tq_expires := (tq_expires s)(tqi := expires), tq_task := (tq_task s)(tqi := task)\<rparr>);
     first \<leftarrow> is_first_task tqi s;
     Some (if first then s\<lparr>tq_signals := Suc (tq_signals s)\<rparr> else s) }"

definition add_task_rel :: "timespec \<Rightarrow> timespec \<Rightarrow> nat \<Rightarrow> nat \<Rightarrow> tqueue \<Rightarrow> tqueue cres" where
  "add_task_rel now expires_in tqi task s = add_task_abs (tsadd now expires_in) tqi task s"

definition task_interrupted :: "tqueue \<Rightarrow> bool" where
  "task_interrupted s \<longleftrightarrow> tq_curr s = 0"

text \<open>
  One turn of the inner loop of \<open>runner\<close>: nothing is queued, the first task is still in the future
  (sleep until then), or it is taken off the queue to be run.
\<close>

datatype wakeup = Queue_empty | Sleep_until timespec | Run_task nat

definition runner_poll :: "timespec \<Rightarrow> tqueue \<Rightarrow> (wakeup \<times> tqueue) cres" where
  "runner_poll now s = do {
     e \<leftarrow> list_empty tq_list (tq_links s);
     if e then Some (Queue_empty, s)
     else do {
       first \<leftarrow> k_next (tq_links s) tq_list;
       if tsbefore (tq_expires s first) now then Some (Sleep_until (tq_expires s first), s)
       else do {
         m \<leftarrow> list_del first (tq_links s);
         Some (Run_task first, s\<lparr>tq_links := m, tq_expires := (tq_expires s)(first := tszero), tq_curr := first\<rparr>) } } }"

text \<open>
  The inner loop. \<open>run e s\<close> is the state after the task of \<open>e\<close> has run with the mutex released,
  and after what other threads did meanwhile; the list is the tasks run so far.
\<close>

partial_function (option) runner_loop ::
  "(nat \<Rightarrow> tqueue \<Rightarrow> tqueue) \<Rightarrow> timespec \<Rightarrow> nat list \<Rightarrow> tqueue \<Rightarrow> (nat list \<times> wakeup \<times> tqueue) cres" where
  "runner_loop run now tr s = do {
     (w, s) \<leftarrow> runner_poll now s;
     (case w of
        Run_task e \<Rightarrow> runner_loop run now (tr @ [e]) ((run e s)\<lparr>tq_curr := 0\<rparr>)
      | _ \<Rightarrow> Some (tr, w, s)) }"

text \<open>
  One turn of the outer loop: leave when killed (\<open>None\<close> inside), else wait if nothing is queued
  (\<open>wait\<close> is what other threads do meanwhile), read the clock and run what is due.
\<close>

definition runner_turn ::
  "(nat \<Rightarrow> tqueue \<Rightarrow> tqueue) \<Rightarrow> (tqueue \<Rightarrow> tqueue) \<Rightarrow> timespec \<Rightarrow> tqueue \<Rightarrow>
     ((nat list \<times> wakeup \<times> tqueue) option) cres" where
  "runner_turn run wait now s =
     (if tq_killed s then Some None
      else do {
        e \<leftarrow> list_empty tq_list (tq_links s);
        r \<leftarrow> runner_loop run now [] (if e then wait s else s);
        Some (Some r) })"

section \<open>The invariant\<close>

text \<open>
  The queue holds exactly the elements with an expiry time, in order of expiry.
\<close>

definition tq_inv :: "tqueue \<Rightarrow> nat list \<Rightarrow> bool" where
  "tq_inv s xs \<longleftrightarrow> ring (tq_links s) tq_list xs \<and> 0 \<notin> set xs \<and> sorted (map (tq_expires s) xs) \<and>
     (\<forall>e. tsisset (tq_expires s e) \<longleftrightarrow> e \<in> set xs)"

text \<open>An element that may be handed to the queue: queued, or linked to itself.\<close>

definition tq_ready :: "tqueue \<Rightarrow> nat \<Rightarrow> bool" where
  "tq_ready s e \<longleftrightarrow> e \<noteq> 0 \<and> e \<noteq> tq_list \<and> (tsisset (tq_expires s e) \<or> self_linked (tq_links s) e)"

text \<open>The position of a new element: after all that expire no later.\<close>

definition tq_place :: "(nat \<Rightarrow> timespec) \<Rightarrow> nat \<Rightarrow> nat list \<Rightarrow> nat list" where
  "tq_place f e xs = takeWhile (\<lambda>c. f c \<le> f e) xs @ e # dropWhile (\<lambda>c. f c \<le> f e) xs"

lemma set_tq_place [simp]: "set (tq_place f e xs) = insert e (set xs)"
  unfolding tq_place_def using set_append [of "takeWhile P xs" "dropWhile P xs" for P] by auto

lemma sorted_tq_place:
  assumes "sorted (map f xs)"
  shows "sorted (map f (tq_place f e xs))"
  unfolding tq_place_def using assms
proof (induction xs)
  case (Cons x xs)
  then have IH: "sorted (map f (takeWhile (\<lambda>c. f c \<le> f e) xs @ e # dropWhile (\<lambda>c. f c \<le> f e) xs))"
    and x: "\<forall>y\<in>set xs. f x \<le> f y" by simp_all
  show ?case
  proof (cases "f x \<le> f e")
    case True
    then show ?thesis using IH x by (auto dest: set_takeWhileD set_dropWhileD)
  next
    case False
    then show ?thesis using x Cons.prems by auto
  qed
qed simp

lemma sorted_insert_loop_place:
  assumes "ring (tq_links s) tq_list (ys @ zs)"
  shows "sorted_insert_loop tqi (hd (zs @ [tq_list])) s =
    (case list_add_tail tqi (hd (dropWhile (\<lambda>c. tq_expires s c \<le> tq_expires s tqi) zs @ [tq_list])) (tq_links s) of
       None \<Rightarrow> None | Some m \<Rightarrow> Some (s\<lparr>tq_links := m\<rparr>))"
  using assms
proof (induction zs arbitrary: ys)
  case Nil
  then show ?case by (subst sorted_insert_loop.simps) (simp split: option.split)
next
  case (Cons z zs)
  have z: "z \<noteq> tq_list" "k_next (tq_links s) z = Some (hd (zs @ [tq_list]))"
    using list_del_between_ring [OF Cons.prems] Cons.prems by (auto simp: ring_def)
  show ?case
  proof (cases "tq_expires s z \<le> tq_expires s tqi")
    case True
    moreover have "\<not> tq_expires s tqi < tq_expires s z" using True by simp
    ultimately show ?thesis
      using z Cons.IH [of "ys @ [z]"] Cons.prems by (subst sorted_insert_loop.simps) simp
  next
    case False
    then show ?thesis
      using z by (subst sorted_insert_loop.simps) (simp add: not_le split: option.split)
  qed
qed

lemma sorted_insert_ring:
  assumes r: "ring (tq_links s) tq_list xs" and e: "e \<notin> set (tq_list # xs)" "k_alloc (tq_links s) e"
  shows "\<exists>m. sorted_insert e s = Some (s\<lparr>tq_links := m\<rparr>) \<and>
    ring m tq_list (tq_place (tq_expires s) e xs) \<and> k_frame (insert e (set (tq_list # xs))) (tq_links s) m"
proof -
  define P where "P = (\<lambda>c. tq_expires s c \<le> tq_expires s e)"
  have "xs = takeWhile P xs @ dropWhile P xs" by simp
  then obtain m where "list_add_tail e (hd (dropWhile P xs @ [tq_list])) (tq_links s) = Some m"
    "ring m tq_list (takeWhile P xs @ e # dropWhile P xs)"
    "k_frame (insert e (set (tq_list # xs))) (tq_links s) m"
    using list_add_before_ring [of "tq_links s" tq_list "takeWhile P xs" "dropWhile P xs" e] r e by auto
  then show ?thesis
    using sorted_insert_loop_place [of s "[]" xs e, folded P_def] r ring_ends [OF r]
    by (auto simp: sorted_insert_def tq_place_def [of "tq_expires s" e xs, folded P_def])
qed

section \<open>The operations keep the invariant\<close>

lemma tq_inv_ring: "tq_inv s xs \<Longrightarrow> ring (tq_links s) tq_list xs"
  by (simp add: tq_inv_def)

lemma tq_inv_distinct: "tq_inv s xs \<Longrightarrow> distinct xs \<and> tq_list \<notin> set xs"
  by (simp add: tq_inv_def ring_def)

lemma k_frame_refl: "k_frame A m m"
  by (simp add: k_frame_def)

lemma tq_unlink:
  assumes inv: "tq_inv s xs" and e: "tq_ready s e"
  shows "\<exists>m. list_del e (tq_links s) = Some m \<and> ring m tq_list (remove1 e xs) \<and> self_linked m e \<and>
    k_frame (set (tq_list # e # xs)) (tq_links s) m"
proof (cases "e \<in> set xs")
  case True
  then obtain ys zs where xs: "xs = ys @ e # zs" "e \<notin> set ys" by (meson split_list_first)
  have "remove1 e xs = ys @ zs" using xs by (simp add: remove1_append)
  moreover have "set (tq_list # e # xs) = set (tq_list # ys @ e # zs)" using xs by auto
  ultimately show ?thesis
    using list_del_ring [of "tq_links s" tq_list ys e zs] tq_inv_ring [OF inv] by (simp only: xs(1))
next
  case False
  then have "self_linked (tq_links s) e" using e inv by (auto simp: tq_ready_def tq_inv_def)
  then show ?thesis
    using list_del_self tq_inv_ring [OF inv] False by (auto simp: remove1_idem k_frame_refl)
qed

lemma sorted_map_cong: "sorted (map f xs) \<Longrightarrow> (\<And>x. x \<in> set xs \<Longrightarrow> g x = f x) \<Longrightarrow> sorted (map g xs)"
  by (metis map_eq_conv)

lemma sorted_map_remove1': "sorted (map f xs) \<Longrightarrow> sorted (map f (remove1 e xs))"
  by (induction xs) (auto dest: set_remove1_subset [THEN subsetD])

text \<open>What stays fit for use when only the queue and one element change.\<close>

lemma tq_ready_frame:
  assumes "tq_inv s xs" "k_frame (set (tq_list # e # xs)) (tq_links s) (tq_links s')"
    and "tq_expires s' = (tq_expires s)(e := t)" "tq_ready s' e \<or> p \<noteq> e" "tq_ready s p"
  shows "tq_ready s' p"
  using assms by (auto simp: tq_ready_def tq_inv_def k_frame_def self_linked_def)

lemma self_linked_alloc: "self_linked m e \<Longrightarrow> k_alloc m e"
  by (simp add: self_linked_def k_alloc_def)

lemma tq_inv_mem: "tq_inv s xs \<Longrightarrow> e \<in> set xs \<longleftrightarrow> tq_expires s e \<noteq> tszero"
  by (simp add: tq_inv_def)

lemma tq_ready_alloc:
  assumes "tq_inv s xs" "tq_ready s e"
  shows "k_alloc (tq_links s) e"
proof (cases "e \<in> set xs")
  case True
  then show ?thesis using ring_alloc [OF tq_inv_ring [OF assms(1)], of e] by simp
next
  case False
  then show ?thesis using assms by (simp add: tq_ready_def tq_inv_mem [OF assms(1)] self_linked_alloc)
qed

lemma clear_curr_fields [simp]:
  "tq_links (clear_curr e s) = tq_links s" "tq_expires (clear_curr e s) = tq_expires s"
  "tq_task (clear_curr e s) = tq_task s"
  by (simp_all add: clear_curr_def)

lemma del_task_inv:
  assumes inv: "tq_inv s xs" and e: "tq_ready s e"
  shows "\<exists>s'. del_task e s = Some s' \<and> tq_inv s' (remove1 e xs) \<and>
    tq_expires s' = (tq_expires s)(e := tszero) \<and> tq_curr s' = (if tq_curr s = e then 0 else tq_curr s) \<and>
    (\<forall>p. tq_ready s p \<longrightarrow> tq_ready s' p) \<and> self_linked (tq_links s') e \<and>
    (\<forall>p. k_alloc (tq_links s) p \<longrightarrow> k_alloc (tq_links s') p)"
proof -
  obtain m where m: "list_del e (tq_links s) = Some m" "ring m tq_list (remove1 e xs)" "self_linked m e"
    "k_frame (set (tq_list # e # xs)) (tq_links s) m"
    using tq_unlink [OF assms] by blast
  define s' where "s' = clear_curr e (s\<lparr>tq_links := m, tq_expires := (tq_expires s)(e := tszero)\<rparr>)"
  have f: "tq_links s' = m" "tq_expires s' = (tq_expires s)(e := tszero)" by (simp_all add: s'_def)
  have "sorted (map (tq_expires s') (remove1 e xs))"
    using inv tq_inv_distinct [OF inv]
    by (intro sorted_map_cong [OF sorted_map_remove1']) (auto simp: f tq_inv_def)
  then have "tq_inv s' (remove1 e xs)"
    using m(2) inv tq_inv_distinct [OF inv] by (auto simp: tq_inv_def f)
  moreover have "tq_ready s' p" if "tq_ready s p" for p
    using that e m(3,4) by (intro tq_ready_frame [OF inv, of e s' tszero]) (auto simp: f tq_ready_def)
  moreover have "del_task e s = Some s'"
    using e m(1) by (simp add: del_task_def s'_def tq_ready_def)
  moreover have "tq_curr s' = (if tq_curr s = e then 0 else tq_curr s)"
    by (simp add: s'_def clear_curr_def)
  moreover have "k_alloc m p" if "k_alloc (tq_links s) p" for p
    using that m(4) by (simp add: k_frame_def)
  ultimately show ?thesis using f m(3) by auto
qed

lemma add_task_abs_inv:
  assumes inv: "tq_inv s xs" and e: "e \<noteq> 0" "e \<noteq> tq_list" "k_alloc (tq_links s) e" and t: "tsisset t"
  shows "\<exists>s'. add_task_abs t e k s = Some s' \<and>
    tq_inv s' (tq_place ((tq_expires s)(e := t)) e (remove1 e xs)) \<and>
    tq_expires s' = (tq_expires s)(e := t) \<and> tq_task s' = (tq_task s)(e := k) \<and>
    tq_killed s' = tq_killed s \<and>
    (\<forall>p. tq_ready s p \<longrightarrow> tq_ready s' p) \<and> tq_ready s' e \<and>
    (\<forall>p. k_alloc (tq_links s) p \<longrightarrow> k_alloc (tq_links s') p)"
proof -
  let ?f = "(tq_expires s)(e := t)"
  let ?ys = "remove1 e xs"
  obtain m where m: "(if tsisset (tq_expires s e) then list_del e (tq_links s) else Some (tq_links s)) = Some m"
    "ring m tq_list ?ys" "k_alloc m e" "k_frame (set (tq_list # e # xs)) (tq_links s) m"
  proof (cases "tsisset (tq_expires s e)")
    case True
    then have "tq_ready s e" using e by (simp add: tq_ready_def)
    then obtain m where "list_del e (tq_links s) = Some m" "ring m tq_list ?ys" "self_linked m e"
      "k_frame (set (tq_list # e # xs)) (tq_links s) m"
      using tq_unlink [OF inv] by blast
    then show ?thesis using that [of m] True self_linked_alloc by simp
  next
    case False
    then have "e \<notin> set xs" by (simp add: tq_inv_mem [OF inv])
    then show ?thesis
      using that [of "tq_links s"] False tq_inv_ring [OF inv] e(3) by (simp add: remove1_idem k_frame_refl)
  qed
  define s1 where "s1 = (clear_curr e (s\<lparr>tq_links := m\<rparr>))\<lparr>tq_expires := ?f, tq_task := (tq_task s)(e := k)\<rparr>"
  have notin: "e \<notin> set (tq_list # ?ys)" using e tq_inv_distinct [OF inv] by simp
  obtain m2 where m2: "sorted_insert e s1 = Some (s1\<lparr>tq_links := m2\<rparr>)"
    "ring m2 tq_list (tq_place ?f e ?ys)" "k_frame (insert e (set (tq_list # ?ys))) m m2"
    using sorted_insert_ring [of s1 ?ys e] m(2,3) notin unfolding s1_def by fastforce
  obtain s' where s': "add_task_abs t e k s = Some s'" "tq_links s' = m2" "tq_expires s' = ?f"
    "tq_task s' = (tq_task s)(e := k)" "tq_killed s' = tq_killed s"
    using m(1) m2(1) ring_ends [OF m2(2)]
    by (simp add: add_task_abs_def is_first_task_def s1_def [symmetric] del: tsisset_zero) (simp add: s1_def clear_curr_def)
  have "sorted (map (tq_expires s) ?ys)"
    using inv sorted_map_remove1' by (auto simp: tq_inv_def)
  then have "sorted (map ?f ?ys)" using notin by (elim sorted_map_cong) auto
  then have "sorted (map ?f (tq_place ?f e ?ys))" by (rule sorted_tq_place)
  moreover have "tsisset (?f p) \<longleftrightarrow> p \<in> set (tq_place ?f e ?ys)" for p
    using t tq_inv_mem [OF inv, of p] tq_inv_distinct [OF inv] by simp
  ultimately have "tq_inv s' (tq_place ?f e ?ys)"
    using m2(2) inv e(1) tq_inv_distinct [OF inv] by (simp add: tq_inv_def s' del: tsisset_zero)
  moreover have re: "tq_ready s' e" using e t by (simp add: tq_ready_def s')
  moreover have fr: "k_frame (set (tq_list # e # xs)) (tq_links s) m2"
    by (rule k_frame_mono [OF k_frame_trans [OF m(4) m2(3)]]) (auto dest: set_remove1_subset [THEN subsetD])
  moreover have "tq_ready s' p" if "tq_ready s p" for p
    using that re fr by (intro tq_ready_frame [OF inv, of e s' t]) (auto simp: s')
  ultimately show ?thesis
    using s' fr by (intro exI [of _ s'] conjI) (simp_all add: k_frame_def)
qed

lemma tq_inv_cong:
  "tq_links s' = tq_links s \<Longrightarrow> tq_expires s' = tq_expires s \<Longrightarrow> tq_inv s' xs = tq_inv s xs"
  by (simp add: tq_inv_def)

lemma tq_pop:
  assumes inv: "tq_inv s (x # xs)"
  shows "\<exists>m. list_del x (tq_links s) = Some m \<and> self_linked m x \<and> k_next (tq_links s) tq_list = Some x \<and>
    k_next (tq_links s) x = Some (hd (xs @ [tq_list])) \<and> x \<noteq> tq_list \<and> x \<noteq> 0 \<and>
    (\<forall>p. k_alloc (tq_links s) p \<longrightarrow> k_alloc m p) \<and>
    tq_inv (s\<lparr>tq_links := m, tq_expires := (tq_expires s)(x := tszero)\<rparr>) xs"
proof -
  note r = tq_inv_ring [OF inv]
  have x: "x \<notin> set xs" "x \<noteq> tq_list" "x \<noteq> 0"
    using tq_inv_distinct [OF inv] inv by (auto simp: tq_inv_def)
  obtain m where m: "list_del x (tq_links s) = Some m" "ring m tq_list xs" "self_linked m x"
    "\<forall>p. k_alloc (tq_links s) p \<longrightarrow> k_alloc m p"
    using list_del_ring [of "tq_links s" tq_list "[]" x xs] r by (auto simp: k_frame_def)
  have "sorted (map (tq_expires s) xs)" using inv by (simp add: tq_inv_def)
  then have "sorted (map ((tq_expires s)(x := tszero)) xs)" using x by (elim sorted_map_cong) auto
  moreover have "tsisset (((tq_expires s)(x := tszero)) e) \<longleftrightarrow> e \<in> set xs" for e
    using tq_inv_mem [OF inv, of e] x by auto
  ultimately have "tq_inv (s\<lparr>tq_links := m, tq_expires := (tq_expires s)(x := tszero)\<rparr>) xs"
    using m(2) inv by (simp add: tq_inv_def)
  then show ?thesis
    using m x ring_ends [OF r] list_del_between_ring [of "tq_links s" tq_list "[]" x xs] r by simp
qed

lemma destroy_loop_empties:
  "tq_inv s xs \<Longrightarrow> \<exists>s'. destroy_loop (hd (xs @ [tq_list])) s = Some s' \<and> tq_inv s' []"
proof (induction xs arbitrary: s)
  case Nil
  then show ?case by (simp add: destroy_loop.simps)
next
  case (Cons x xs)
  from tq_pop [OF Cons.prems] obtain m where m: "list_del x (tq_links s) = Some m" "x \<noteq> tq_list"
    "k_next (tq_links s) x = Some (hd (xs @ [tq_list]))"
    "tq_inv (s\<lparr>tq_links := m, tq_expires := (tq_expires s)(x := tszero)\<rparr>) xs" by blast
  show ?case using Cons.IH [OF m(4)] m(1-3) by (subst destroy_loop.simps) simp
qed

lemma taskqueue_destroy_empties:
  assumes "tq_inv s xs"
  shows "\<exists>s'. taskqueue_destroy s = Some s' \<and> tq_inv s' [] \<and> tq_killed s'"
proof -
  obtain s1 where s1: "destroy_loop (hd (xs @ [tq_list])) s = Some s1" "tq_inv s1 []"
    using destroy_loop_empties [OF assms] by blast
  moreover have "tq_inv (s1\<lparr>tq_killed := True, tq_signals := Suc (tq_signals s1)\<rparr>) []"
    using s1(2) by (subst tq_inv_cong [of _ s1]) simp_all
  ultimately show ?thesis
    using ring_ends [OF tq_inv_ring [OF assms]] by (simp add: taskqueue_destroy_def)
qed

section \<open>The timer interface\<close>

text \<open>
  What the binding cache and the other users of timers rely on: arming sets the expiry of one
  element, cancelling clears it, neither disturbs another, and an element that may be cancelled
  stays so.
\<close>

datatype timer_op = Arm timespec nat nat | Cancel nat

fun timer_elem :: "timer_op \<Rightarrow> nat" where
  "timer_elem (Arm t e k) = e"
| "timer_elem (Cancel e) = e"

fun timer_effect :: "timer_op \<Rightarrow> (nat \<rightharpoonup> timespec) \<Rightarrow> (nat \<rightharpoonup> timespec)" where
  "timer_effect (Arm t e k) p = p(e \<mapsto> t)"
| "timer_effect (Cancel e) p = p(e := None)"

fun timer_arms :: "timer_op \<Rightarrow> bool" where
  "timer_arms (Arm t e k) = tsisset t"
| "timer_arms (Cancel e) = True"

fun timer_run ::
  "(timespec \<Rightarrow> nat \<Rightarrow> nat \<Rightarrow> 's \<Rightarrow> 's cres) \<Rightarrow> (nat \<Rightarrow> 's \<Rightarrow> 's cres) \<Rightarrow> timer_op list \<Rightarrow> 's \<Rightarrow> 's cres" where
  "timer_run add del [] s = Some s"
| "timer_run add del (Arm t e k # ops) s = do { s \<leftarrow> add t e k s; timer_run add del ops s }"
| "timer_run add del (Cancel e # ops) s = do { s \<leftarrow> del e s; timer_run add del ops s }"

locale timer_queue =
  fixes wf :: "'s \<Rightarrow> bool" and ready :: "'s \<Rightarrow> nat \<Rightarrow> bool" and pending :: "'s \<Rightarrow> nat \<rightharpoonup> timespec"
    and add :: "timespec \<Rightarrow> nat \<Rightarrow> nat \<Rightarrow> 's \<Rightarrow> 's cres" and del :: "nat \<Rightarrow> 's \<Rightarrow> 's cres"
  assumes add_law: "wf s \<Longrightarrow> ready s e \<Longrightarrow> tsisset t \<Longrightarrow>
      \<exists>s'. add t e k s = Some s' \<and> wf s' \<and> pending s' = (pending s)(e \<mapsto> t) \<and> (\<forall>p. ready s p \<longrightarrow> ready s' p)"
    and del_law: "wf s \<Longrightarrow> ready s e \<Longrightarrow>
      \<exists>s'. del e s = Some s' \<and> wf s' \<and> pending s' = (pending s)(e := None) \<and> (\<forall>p. ready s p \<longrightarrow> ready s' p)"
begin

lemma run_effect:
  assumes "wf s" "\<forall>op \<in> set ops. ready s (timer_elem op) \<and> timer_arms op"
  shows "\<exists>s'. timer_run add del ops s = Some s' \<and> wf s' \<and> pending s' = fold timer_effect ops (pending s) \<and>
    (\<forall>p. ready s p \<longrightarrow> ready s' p)"
  using assms
proof (induction ops arbitrary: s)
  case (Cons op ops)
  show ?case
  proof (cases op)
    case (Arm t e k)
    with Cons.prems obtain s1 where s1: "add t e k s = Some s1" "wf s1" "pending s1 = timer_effect op (pending s)"
      "\<forall>p. ready s p \<longrightarrow> ready s1 p"
      using add_law [of s e t k] by auto
    then show ?thesis using Arm Cons.prems Cons.IH [of s1] by (simp del: timer_effect.simps) metis
  next
    case (Cancel e)
    with Cons.prems obtain s1 where "del e s = Some s1" "wf s1" "pending s1 = timer_effect op (pending s)"
      "\<forall>p. ready s p \<longrightarrow> ready s1 p"
      using del_law [of s e] by auto
    then show ?thesis using Cancel Cons.prems Cons.IH [of s1] by (simp del: timer_effect.simps) metis
  qed
qed simp

end

definition tq_wf :: "tqueue \<Rightarrow> bool" where
  "tq_wf s \<longleftrightarrow> (\<exists>xs. tq_inv s xs)"

definition tq_pending :: "tqueue \<Rightarrow> nat \<rightharpoonup> timespec" where
  "tq_pending s e = (if tsisset (tq_expires s e) then Some (tq_expires s e) else None)"

lemma add_task_abs_law:
  assumes "tq_wf s" "tq_ready s e" "tsisset t"
  shows "\<exists>s'. add_task_abs t e k s = Some s' \<and> tq_wf s' \<and> tq_pending s' = (tq_pending s)(e \<mapsto> t) \<and>
    (\<forall>p. tq_ready s p \<longrightarrow> tq_ready s' p)"
proof -
  obtain xs where inv: "tq_inv s xs" using assms(1) by (auto simp: tq_wf_def)
  obtain s' where "add_task_abs t e k s = Some s'"
    "tq_inv s' (tq_place ((tq_expires s)(e := t)) e (remove1 e xs))" "tq_expires s' = (tq_expires s)(e := t)"
    "\<forall>p. tq_ready s p \<longrightarrow> tq_ready s' p"
    using add_task_abs_inv [OF inv _ _ tq_ready_alloc [OF inv assms(2)] assms(3), of k] assms(2)
    by (auto simp: tq_ready_def)
  then show ?thesis using assms(3) by (auto simp: tq_wf_def tq_pending_def)
qed

lemma del_task_law:
  assumes "tq_wf s" "tq_ready s e"
  shows "\<exists>s'. del_task e s = Some s' \<and> tq_wf s' \<and> tq_pending s' = (tq_pending s)(e := None) \<and>
    (\<forall>p. tq_ready s p \<longrightarrow> tq_ready s' p)"
proof -
  obtain xs where inv: "tq_inv s xs" using assms(1) by (auto simp: tq_wf_def)
  obtain s' where "del_task e s = Some s'" "tq_inv s' (remove1 e xs)"
    "tq_expires s' = (tq_expires s)(e := tszero)" "\<forall>p. tq_ready s p \<longrightarrow> tq_ready s' p"
    using del_task_inv [OF inv assms(2)] by blast
  then show ?thesis by (auto simp: tq_wf_def tq_pending_def)
qed

interpretation tmr: timer_queue tq_wf tq_ready tq_pending add_task_abs del_task
  by unfold_locales (rule add_task_abs_law, assumption+, rule del_task_law)

text \<open>
  C32. The pointer queue implements a map of timers. Any sequence of arming and cancelling on usable
  elements runs to its end; afterwards the pending timers are what the sequence says of each element
  (the last operation on it decides), and the ring holds exactly the pending elements in order of
  expiry.
\<close>

theorem timer_ops_pending:
  assumes "tq_wf s" "\<forall>op \<in> set ops. tq_ready s (timer_elem op) \<and> timer_arms op"
  shows "\<exists>s' xs. timer_run add_task_abs del_task ops s = Some s' \<and>
    tq_pending s' = fold timer_effect ops (tq_pending s) \<and>
    ring (tq_links s') tq_list xs \<and> set xs = dom (tq_pending s') \<and> sorted (map (tq_expires s') xs)"
proof -
  obtain s' where s': "timer_run add_task_abs del_task ops s = Some s'" "tq_wf s'"
    "tq_pending s' = fold timer_effect ops (tq_pending s)"
    using tmr.run_effect [OF assms] by blast
  then obtain xs where xs: "tq_inv s' xs" by (auto simp: tq_wf_def)
  have "e \<in> set xs \<longleftrightarrow> e \<in> dom (tq_pending s')" for e
    using tq_inv_mem [OF xs, of e] by (simp add: tq_pending_def domIff)
  moreover have "ring (tq_links s') tq_list xs" "sorted (map (tq_expires s') xs)"
    using xs by (simp_all add: tq_inv_def)
  ultimately show ?thesis using s'(1,3) by blast
qed

definition empty_queue :: tqueue where
  "empty_queue = \<lparr>tq_links = \<lparr>k_next = [1 \<mapsto> 1, 2 \<mapsto> 2, 3 \<mapsto> 3], k_prev = [1 \<mapsto> 1, 2 \<mapsto> 2, 3 \<mapsto> 3]\<rparr>,
     tq_expires = (\<lambda>_. tszero), tq_task = (\<lambda>_. 0), tq_killed = False, tq_curr = 0, tq_signals = 0\<rparr>"

lemma empty_queue_inv: "tq_inv empty_queue []"
  by (simp add: tq_inv_def empty_queue_def tq_list_def ring_def k_link_def)

lemma empty_queue_ready: "tq_ready empty_queue 2" "tq_ready empty_queue 3"
  by (simp_all add: tq_ready_def empty_queue_def tq_list_def self_linked_def)

theorem timer_ops_pending_witness:
  "\<exists>s' xs. timer_run add_task_abs del_task
      [Arm (Timespec 9 0) 2 7, Arm (Timespec 5 0) 3 7, Cancel 2] empty_queue = Some s' \<and>
     tq_pending s' = [3 \<mapsto> Timespec 5 0] \<and> ring (tq_links s') tq_list xs \<and> set xs = {3}"
proof -
  have p: "tq_pending empty_queue = Map.empty"
    by (rule ext) (simp add: tq_pending_def empty_queue_def)
  have eff: "fold timer_effect [Arm (Timespec 9 0) 2 7, Arm (Timespec 5 0) 3 7, Cancel 2] Map.empty = [3 \<mapsto> Timespec 5 0]"
    by (rule ext) simp
  have wf: "tq_wf empty_queue" using empty_queue_inv by (auto simp: tq_wf_def)
  show ?thesis
    using timer_ops_pending [OF wf, of "[Arm (Timespec 9 0) 2 7, Arm (Timespec 5 0) 3 7, Cancel 2]",
        unfolded p eff] empty_queue_ready by (auto simp: tszero_def)
qed

section \<open>The runner\<close>

definition tq_due :: "timespec \<Rightarrow> tqueue \<Rightarrow> nat list \<Rightarrow> nat list" where
  "tq_due now s xs = filter (\<lambda>e. tq_expires s e \<le> now) xs"

text \<open>What the runner waits for when nothing is due.\<close>

fun tq_next :: "tqueue \<Rightarrow> nat list \<Rightarrow> wakeup" where
  "tq_next s [] = Queue_empty"
| "tq_next s (x # xs) = Sleep_until (tq_expires s x)"

lemma runner_poll_empty: "tq_inv s [] \<Longrightarrow> runner_poll now s = Some (Queue_empty, s)"
  using list_empty_ring [OF tq_inv_ring] by (simp add: runner_poll_def)

lemma runner_poll_early:
  assumes "tq_inv s (x # xs)" "now < tq_expires s x"
  shows "runner_poll now s = Some (Sleep_until (tq_expires s x), s) \<and> tq_due now s (x # xs) = []"
proof -
  have "now < tq_expires s y" if "y \<in> set (x # xs)" for y
    using that assms by (auto simp: tq_inv_def)
  then have "tq_due now s (x # xs) = []" by (auto simp: tq_due_def filter_empty_conv not_le)
  then show ?thesis
    using assms tq_pop [OF assms(1)] list_empty_ring [OF tq_inv_ring [OF assms(1)]]
    by (auto simp: runner_poll_def)
qed

lemma runner_poll_due:
  assumes inv: "tq_inv s (x # xs)" and x: "tq_expires s x \<le> now"
  shows "\<exists>s'. runner_poll now s = Some (Run_task x, s') \<and> tq_inv s' xs \<and> x \<notin> set xs \<and> tq_ready s' x \<and>
    tq_curr s' = x \<and> tq_due now s (x # xs) = x # tq_due now s' xs \<and>
    tq_expires s' = (tq_expires s)(x := tszero) \<and> (\<forall>p. k_alloc (tq_links s) p \<longrightarrow> k_alloc (tq_links s') p) \<and>
    (\<forall>p. tq_ready s p \<longrightarrow> tq_ready s' p)"
proof -
  obtain m where m: "list_del x (tq_links s) = Some m" "self_linked m x" "k_next (tq_links s) tq_list = Some x"
    "x \<noteq> tq_list" "x \<noteq> 0" "tq_inv (s\<lparr>tq_links := m, tq_expires := (tq_expires s)(x := tszero)\<rparr>) xs"
    "\<forall>p. k_alloc (tq_links s) p \<longrightarrow> k_alloc m p"
    using tq_pop [OF inv] by blast
  define s' where "s' = s\<lparr>tq_links := m, tq_expires := (tq_expires s)(x := tszero), tq_curr := x\<rparr>"
  have "x \<notin> set xs" using tq_inv_distinct [OF inv] by simp
  moreover have "tq_inv s' xs" using m(6) by (subst (asm) tq_inv_cong [of _ s']) (simp_all add: s'_def)
  moreover have "runner_poll now s = Some (Run_task x, s')"
    using m(1,3) x list_empty_ring [OF tq_inv_ring [OF inv]] by (simp add: runner_poll_def s'_def not_less [symmetric])
  moreover have "tq_due now s (x # xs) = x # tq_due now s' xs"
    using x calculation(1) by (auto simp: tq_due_def s'_def intro!: filter_cong)
  moreover have "tq_ready s' x" using m by (simp add: tq_ready_def s'_def)
  moreover have f: "tq_curr s' = x" "tq_expires s' = (tq_expires s)(x := tszero)" "tq_links s' = m"
    by (simp_all add: s'_def)
  moreover have "tq_ready s' p" if "tq_ready s p" for p
  proof -
    have "tq_ready s x" using m(4,5) tq_inv_mem [OF inv, of x] by (simp add: tq_ready_def)
    then have "k_frame (set (tq_list # x # x # xs)) (tq_links s) m" using tq_unlink [OF inv] m(1) by fastforce
    then show ?thesis
      using that \<open>tq_ready s' x\<close> by (intro tq_ready_frame [OF inv, of x s' tszero]) (simp_all add: f)
  qed
  ultimately show ?thesis using m(7) by (intro exI [of _ s']) simp
qed

text \<open>A task the runner takes is the first of the queue, and due.\<close>

lemma runner_poll_run:
  assumes inv: "tq_inv s xs" and run: "runner_poll now s = Some (Run_task e, s')"
  shows "\<exists>ys. xs = e # ys \<and> tq_expires s e \<le> now \<and> tq_inv s' ys \<and>
    tq_expires s' = (tq_expires s)(e := tszero) \<and> (\<forall>p. k_alloc (tq_links s) p \<longrightarrow> k_alloc (tq_links s') p) \<and>
    tq_curr s' = e \<and> (\<forall>p. tq_ready s p \<longrightarrow> tq_ready s' p)"
proof (cases xs)
  case Nil
  then show ?thesis using run runner_poll_empty inv by simp
next
  case (Cons x ys)
  show ?thesis
  proof (cases "tq_expires s x \<le> now")
    case True
    then show ?thesis using runner_poll_due [of s x ys now] inv run Cons by auto
  next
    case False
    then show ?thesis using runner_poll_early [of s x ys now] inv run Cons by (simp add: not_le)
  qed
qed

lemma runner_loop_due:
  assumes run: "\<And>e s xs. tq_inv s xs \<Longrightarrow> e \<notin> set xs \<Longrightarrow> tq_ready s e \<Longrightarrow>
      \<exists>xs'. tq_inv (run e s) xs' \<and> tq_due now (run e s) xs' = tq_due now s xs"
  shows "tq_inv s xs \<Longrightarrow> \<exists>s' ys. runner_loop run now tr s = Some (tr @ tq_due now s xs, tq_next s' ys, s') \<and>
    tq_inv s' ys \<and> tq_due now s' ys = []"
proof (induction "length (tq_due now s xs)" arbitrary: s xs tr rule: less_induct)
  case less
  consider "xs = []" | x xs' where "xs = x # xs'" "now < tq_expires s x"
    | x xs' where "xs = x # xs'" "tq_expires s x \<le> now"
    by (cases xs) (auto simp: not_le [symmetric])
  then show ?case
  proof cases
    case 1
    then show ?thesis using less.prems runner_poll_empty
      by (subst runner_loop.simps) (auto simp: tq_due_def intro!: exI [of _ "[]"])
  next
    case 2
    then show ?thesis using less.prems runner_poll_early [of s x xs' now]
      by (subst runner_loop.simps) (auto intro!: exI [of _ "x # xs'"])
  next
    case 3
    obtain s1 where s1: "runner_poll now s = Some (Run_task x, s1)" "tq_inv s1 xs'" "x \<notin> set xs'"
      "tq_ready s1 x" "tq_due now s xs = x # tq_due now s1 xs'"
      using runner_poll_due [of s x xs' now] 3 less.prems by blast
    obtain ys where ys: "tq_inv (run x s1) ys" "tq_due now (run x s1) ys = tq_due now s1 xs'"
      using run [OF s1(2-4)] by blast
    define s2 where "s2 = (run x s1)\<lparr>tq_curr := 0\<rparr>"
    have s2: "tq_inv s2 ys" "tq_due now s2 ys = tq_due now s1 xs'"
      using ys tq_inv_cong [of s2 "run x s1" ys] by (simp_all add: s2_def tq_due_def)
    show ?thesis
      using less.hyps [of s2 ys "tr @ [x]"] s2 s1(1,5) by (subst runner_loop.simps) (simp add: s2_def)
  qed
qed

text \<open>
  The outer loop for tasks that leave the due part of the queue as it is: a turn returns, has run all
  tasks due at its reading of the clock in order of expiry and no other, and goes on to wait for the
  expiry of the first remaining one, or for a signal when there is none. The tasks of the binding
  cache may arm a timer for a time that is past; for them see \<open>Cn_Run\<close>.
\<close>

lemma runner_turn_runs_due:
  assumes run: "\<forall>e s xs. tq_inv s xs \<and> e \<notin> set xs \<and> tq_ready s e \<longrightarrow>
      (\<exists>xs'. tq_inv (run e s) xs' \<and> tq_due now (run e s) xs' = tq_due now s xs)"
    and inv: "tq_inv s xs" "\<not> tq_killed s"
    and s0: "s0 = (if xs = [] then wait s else s)" "tq_inv s0 zs"
  shows "\<exists>s' ys. runner_turn run wait now s = Some (Some (tq_due now s0 zs, tq_next s' ys, s')) \<and>
    tq_inv s' ys \<and> tq_due now s' ys = []"
proof -
  obtain s' ys where "runner_loop run now [] s0 = Some (tq_due now s0 zs, tq_next s' ys, s')"
    "tq_inv s' ys" "tq_due now s' ys = []"
    using runner_loop_due [where run = run and now = now and s = s0 and xs = zs and tr = "[]"] run s0(2) by auto
  then show ?thesis
    using inv(2) s0(1) list_empty_ring [OF tq_inv_ring [OF inv(1)]] by (simp add: runner_turn_def) blast
qed

end
