(* ===== verification/Hash.thy ===== *)
theory Hash
  imports Prelude "HOL-Library.Monad_Syntax"
begin

text \<open>
  The hash table of the Mobile IPv6 daemon (\<open>src/protocols/umip/src/hash.c\<close>), keyed by one or two
  IPv6 addresses. An address is its sixteen bytes in memory. A bucket is the list of its entries in
  chain order; the addresses of an entry are pointers into its data, which no caller changes while
  the entry is in the table, so they are kept by value. A failed assertion is \<open>None\<close>.
\<close>

type_synonym in6_addr = bytes

definition in6_ok :: "in6_addr \<Rightarrow> bool" where
  "in6_ok a \<longleftrightarrow> length a = 16"

text \<open>The word at index \<open>i\<close> of an address as a little-endian host loads it.\<close>

definition s6_addr32 :: "in6_addr \<Rightarrow> nat \<Rightarrow> u32" where
  "s6_addr32 a i = ucast (a ! (4 * i)) OR push_bit 8 (ucast (a ! (4 * i + 1))) OR
     push_bit 16 (ucast (a ! (4 * i + 2))) OR push_bit 24 (ucast (a ! (4 * i + 3)))"

datatype hash_type = DOUBLE_ADDR | SINGLE_ADDR

record 'd hash_entry =
  he_our :: "in6_addr option"
  he_peer :: in6_addr
  he_data :: 'd

record 'd hash =
  h_buckets :: nat
  h_type :: hash_type
  h_chains :: "'d hash_entry list list"

abbreviation (input) ENOMEM :: int where "ENOMEM \<equiv> 12"
abbreviation (input) EEXIST :: int where "EEXIST \<equiv> 17"

definition addr_fold :: "in6_addr \<Rightarrow> u32" where
  "addr_fold a = s6_addr32 a 0 XOR s6_addr32 a 1 XOR s6_addr32 a 2 XOR s6_addr32 a 3"

definition calc_hash2 :: "nat \<Rightarrow> in6_addr option \<Rightarrow> in6_addr \<Rightarrow> nat cres" where
  "calc_hash2 s our peer = do { o' \<leftarrow> our; Some (unat (addr_fold o' XOR addr_fold peer) mod s) }"

definition calc_hash1 :: "nat \<Rightarrow> in6_addr option \<Rightarrow> in6_addr \<Rightarrow> nat cres" where
  "calc_hash1 s our peer = Some (unat (addr_fold peer) mod s)"

definition match2 :: "'d hash_entry \<Rightarrow> in6_addr option \<Rightarrow> in6_addr \<Rightarrow> bool cres" where
  "match2 h our peer = do {
     a \<leftarrow> our;
     b \<leftarrow> he_our h;
     Some (he_peer h = peer \<and> b = a) }"

definition match1 :: "'d hash_entry \<Rightarrow> in6_addr option \<Rightarrow> in6_addr \<Rightarrow> bool cres" where
  "match1 h our peer = Some (he_peer h = peer)"

definition calc_hash :: "'d hash \<Rightarrow> in6_addr option \<Rightarrow> in6_addr \<Rightarrow> nat cres" where
  "calc_hash h our peer =
     (case h_type h of DOUBLE_ADDR \<Rightarrow> calc_hash2 (h_buckets h) our peer
      | SINGLE_ADDR \<Rightarrow> calc_hash1 (h_buckets h) our peer)"

definition hash_match :: "hash_type \<Rightarrow> 'd hash_entry \<Rightarrow> in6_addr option \<Rightarrow> in6_addr \<Rightarrow> bool cres" where
  "hash_match t e our peer =
     (case t of DOUBLE_ADDR \<Rightarrow> match2 e our peer | SINGLE_ADDR \<Rightarrow> match1 e our peer)"

text \<open>The number of buckets is asserted to be non-zero; \<open>ok\<close> says whether \<open>malloc\<close> succeeds.\<close>

definition hash_init :: "bool \<Rightarrow> hash_type \<Rightarrow> nat \<Rightarrow> (int \<times> 'd hash option) cres" where
  "hash_init ok t buckets =
     (if buckets = 0 then None
      else if \<not> ok then Some (- ENOMEM, None)
      else Some (0, Some \<lparr>h_buckets = buckets, h_type = t, h_chains = replicate buckets []\<rparr>))"

text \<open>The number of entries \<open>hash_cleanup\<close> frees, the table being gone after it.\<close>

definition hash_cleanup :: "'d hash \<Rightarrow> nat" where
  "hash_cleanup h = sum_list (map length (h_chains h))"

fun chain_get :: "('d hash_entry \<Rightarrow> bool cres) \<Rightarrow> 'd hash_entry list \<Rightarrow> 'd option cres" where
  "chain_get P [] = Some None"
| "chain_get P (e # es) = do { m \<leftarrow> P e; if m then Some (Some (he_data e)) else chain_get P es }"

definition hash_get :: "'d hash \<Rightarrow> in6_addr option \<Rightarrow> in6_addr \<Rightarrow> 'd option cres" where
  "hash_get h our peer = do {
     i \<leftarrow> calc_hash h our peer;
     chain_get (\<lambda>e. hash_match (h_type h) e our peer) (h_chains h ! i) }"

text \<open>
  The insertion loop walks while there is a next entry, comparing each entry it leaves; the last
  entry of the chain is not compared. \<open>None\<close> inside says that an equal entry was met.
\<close>

fun chain_add :: "('d hash_entry \<Rightarrow> bool cres) \<Rightarrow> 'd hash_entry \<Rightarrow> 'd hash_entry list \<Rightarrow> 'd hash_entry list option cres" where
  "chain_add P new [] = Some (Some [new])"
| "chain_add P new [e] = Some (Some [e, new])"
| "chain_add P new (e # e' # es) = do {
     m \<leftarrow> P e;
     if m then Some None
     else do { r \<leftarrow> chain_add P new (e' # es); Some (map_option (Cons e) r) } }"

definition hash_add :: "bool \<Rightarrow> 'd hash \<Rightarrow> 'd \<Rightarrow> in6_addr option \<Rightarrow> in6_addr \<Rightarrow> (int \<times> 'd hash) cres" where
  "hash_add ok h d our peer =
     (if h_type h = DOUBLE_ADDR \<and> our = None then None
      else if \<not> ok then Some (- ENOMEM, h)
      else do {
        i \<leftarrow> calc_hash h our peer;
        r \<leftarrow> chain_add (\<lambda>e. hash_match (h_type h) e our peer)
               \<lparr>he_our = our, he_peer = peer, he_data = d\<rparr> (h_chains h ! i);
        (case r of
           None \<Rightarrow> Some (- EEXIST, h)
         | Some es \<Rightarrow> Some (0, h\<lparr>h_chains := (h_chains h)[i := es]\<rparr>)) })"

fun chain_delete :: "('d hash_entry \<Rightarrow> bool cres) \<Rightarrow> 'd hash_entry list \<Rightarrow> 'd hash_entry list cres" where
  "chain_delete P [] = Some []"
| "chain_delete P (e # es) = do {
     m \<leftarrow> P e;
     if m then Some es else do { r \<leftarrow> chain_delete P es; Some (e # r) } }"

definition hash_delete :: "'d hash \<Rightarrow> in6_addr option \<Rightarrow> in6_addr \<Rightarrow> 'd hash cres" where
  "hash_delete h our peer =
     (if h_type h = DOUBLE_ADDR \<and> our = None then None
      else do {
        i \<leftarrow> calc_hash h our peer;
        es \<leftarrow> chain_delete (\<lambda>e. hash_match (h_type h) e our peer) (h_chains h ! i);
        Some (h\<lparr>h_chains := (h_chains h)[i := es]\<rparr>) })"

text \<open>
  Iteration. The callback works on a state that contains the table, and may delete the entry it is
  called on: the next pointer is read before the call. Meeting an entry that is no longer in its
  chain is a use of freed memory.
\<close>

fun iterate_chain ::
  "('s \<Rightarrow> 'd hash) \<Rightarrow> ('d \<Rightarrow> 's \<Rightarrow> (int \<times> 's) cres) \<Rightarrow> nat \<Rightarrow> 'd hash_entry list \<Rightarrow> 's \<Rightarrow> (int \<times> 's) cres" where
  "iterate_chain tbl func i [] s = Some (0, s)"
| "iterate_chain tbl func i (e # es) s =
     (if e \<notin> set (h_chains (tbl s) ! i) then None
      else do {
        (err, s') \<leftarrow> func (he_data e) s;
        if err \<noteq> 0 then Some (err, s') else iterate_chain tbl func i es s' })"

fun iterate_buckets ::
  "('s \<Rightarrow> 'd hash) \<Rightarrow> ('d \<Rightarrow> 's \<Rightarrow> (int \<times> 's) cres) \<Rightarrow> nat list \<Rightarrow> 's \<Rightarrow> (int \<times> 's) cres" where
  "iterate_buckets tbl func [] s = Some (0, s)"
| "iterate_buckets tbl func (i # is) s = do {
     (err, s') \<leftarrow> iterate_chain tbl func i (h_chains (tbl s) ! i) s;
     if err \<noteq> 0 then Some (err, s') else iterate_buckets tbl func is s' }"

definition hash_iterate ::
  "('s \<Rightarrow> 'd hash) \<Rightarrow> ('d \<Rightarrow> 's \<Rightarrow> (int \<times> 's) cres) \<Rightarrow> 's \<Rightarrow> (int \<times> 's) cres" where
  "hash_iterate tbl func s = iterate_buckets tbl func [0..<h_buckets (tbl s)] s"

section \<open>The table as a map\<close>

type_synonym addr_key = "in6_addr option \<times> in6_addr"

definition key_of :: "hash_type \<Rightarrow> in6_addr option \<Rightarrow> in6_addr \<Rightarrow> addr_key" where
  "key_of t our peer = ((case t of DOUBLE_ADDR \<Rightarrow> our | SINGLE_ADDR \<Rightarrow> None), peer)"

definition ekey :: "hash_type \<Rightarrow> 'd hash_entry \<Rightarrow> addr_key" where
  "ekey t e = key_of t (he_our e) (he_peer e)"

definition key_ok :: "hash_type \<Rightarrow> in6_addr option \<Rightarrow> bool" where
  "key_ok t our \<longleftrightarrow> t = SINGLE_ADDR \<or> our \<noteq> None"

definition slot :: "'d hash \<Rightarrow> addr_key \<Rightarrow> nat" where
  "slot h k = unat ((case fst k of Some a \<Rightarrow> addr_fold a | None \<Rightarrow> 0) XOR addr_fold (snd k)) mod h_buckets h"

definition chain_of :: "'d hash \<Rightarrow> addr_key \<Rightarrow> 'd hash_entry list" where
  "chain_of h k = h_chains h ! slot h k"

definition chain_map :: "hash_type \<Rightarrow> 'd hash_entry list \<Rightarrow> addr_key \<rightharpoonup> 'd" where
  "chain_map t es = map_of (map (\<lambda>e. (ekey t e, he_data e)) es)"

definition hash_map :: "'d hash \<Rightarrow> addr_key \<rightharpoonup> 'd" where
  "hash_map h k = chain_map (h_type h) (chain_of h k) k"

definition chain_wf :: "'d hash \<Rightarrow> nat \<Rightarrow> 'd hash_entry list \<Rightarrow> bool" where
  "chain_wf h i es \<longleftrightarrow> distinct (map (ekey (h_type h)) es) \<and>
     (\<forall>e \<in> set es. key_ok (h_type h) (he_our e) \<and> slot h (ekey (h_type h) e) = i)"

definition hash_wf :: "'d hash \<Rightarrow> bool" where
  "hash_wf h \<longleftrightarrow> 0 < h_buckets h \<and> length (h_chains h) = h_buckets h \<and>
     (\<forall>i < h_buckets h. chain_wf h i (h_chains h ! i))"

lemma calc_hash_slot: "key_ok (h_type h) our \<Longrightarrow> calc_hash h our peer = Some (slot h (key_of (h_type h) our peer))"
  by (auto simp: calc_hash_def calc_hash1_def calc_hash2_def key_of_def key_ok_def slot_def
      split: hash_type.split)

lemma hash_match_key:
  "key_ok t our \<Longrightarrow> key_ok t (he_our e) \<Longrightarrow> hash_match t e our peer = Some (ekey t e = key_of t our peer)"
  by (auto simp: hash_match_def match1_def match2_def ekey_def key_of_def key_ok_def split: hash_type.split)

lemma slot_less: "hash_wf h \<Longrightarrow> slot h k < h_buckets h"
  by (simp add: hash_wf_def slot_def)

lemma chain_of_wf: "hash_wf h \<Longrightarrow> chain_wf h (slot h k) (chain_of h k)"
  using slot_less [of h k] by (simp add: hash_wf_def chain_of_def)

text \<open>The walks over a chain, for a test that compares keys.\<close>

lemma chain_get_map:
  "\<forall>e \<in> set es. P e = Some (ekey t e = k) \<Longrightarrow> chain_get P es = Some (chain_map t es k)"
  by (induction es) (auto simp: chain_map_def)

lemma chain_add_fresh:
  "\<forall>e \<in> set (butlast es). P e = Some False \<Longrightarrow> chain_add P new es = Some (Some (es @ [new]))"
  by (induction es rule: induct_list012) auto

lemma chain_add_exists:
  "\<forall>e \<in> set es. P e = Some (Q e) \<Longrightarrow> \<exists>e \<in> set (butlast es). Q e \<Longrightarrow> chain_add P new es = Some None"
proof (induction es rule: induct_list012)
  case (3 x y zs)
  then show ?case by (cases "Q x") auto
qed auto

lemma chain_delete_filter:
  "\<forall>e \<in> set es. P e = Some (ekey t e = k) \<Longrightarrow> distinct (map (ekey t) es) \<Longrightarrow>
     chain_delete P es = Some (filter (\<lambda>e. ekey t e \<noteq> k) es)"
proof (induction es)
  case (Cons e es)
  then have "filter (\<lambda>e. ekey t e \<noteq> k) es = es" if "ekey t e = k"
    using that by (intro filter_True) (auto simp: image_iff)
  then show ?case using Cons by auto
qed simp

lemma chain_map_filter:
  "chain_map t (filter (\<lambda>e. ekey t e \<noteq> k) es) = (chain_map t es)(k := None)"
  by (induction es) (auto simp: chain_map_def)

text \<open>Replacing a chain replaces that part of the map.\<close>

lemma slot_upd [simp]: "slot (h\<lparr>h_chains := c\<rparr>) k = slot h k"
  by (simp add: slot_def)

lemma chain_wf_upd [simp]: "chain_wf (h\<lparr>h_chains := c\<rparr>) i es = chain_wf h i es"
  by (simp add: chain_wf_def)

lemma hash_wf_upd:
  "hash_wf h \<Longrightarrow> chain_wf h i es \<Longrightarrow> hash_wf (h\<lparr>h_chains := (h_chains h)[i := es]\<rparr>)"
  by (simp add: hash_wf_def) (metis nth_list_update_eq nth_list_update_neq)

lemma hash_map_upd:
  assumes "hash_wf h"
  shows "hash_map (h\<lparr>h_chains := (h_chains h)[i := es]\<rparr>) k =
    (if slot h k = i then chain_map (h_type h) es k else hash_map h k)"
  using assms slot_less [OF assms, of k] by (auto simp: hash_map_def chain_of_def hash_wf_def)

lemma hash_map_other_slot:
  assumes "hash_wf h" "slot h k \<noteq> slot h k'" 
  shows "chain_map (h_type h) (chain_of h k) k' = None"
  using chain_of_wf [OF assms(1), of k] assms(2)
  by (force simp: chain_wf_def chain_map_def map_of_eq_None_iff)

lemma hash_map_chain: "slot h k' = slot h k \<Longrightarrow> hash_map h k' = chain_map (h_type h) (chain_of h k) k'"
  by (simp add: hash_map_def chain_of_def)

section \<open>The operations\<close>

lemma hash_tests:
  assumes "hash_wf h" "key_ok (h_type h) our"
  shows "\<forall>e \<in> set (chain_of h (key_of (h_type h) our peer)).
    hash_match (h_type h) e our peer = Some (ekey (h_type h) e = key_of (h_type h) our peer)"
  using chain_of_wf [OF assms(1), of "key_of (h_type h) our peer"]
  by (simp add: chain_wf_def hash_match_key [OF assms(2)])

lemma hash_get_map:
  assumes "hash_wf h" "key_ok (h_type h) our"
  shows "hash_get h our peer = Some (hash_map h (key_of (h_type h) our peer))"
  using chain_get_map [OF hash_tests [OF assms, of peer]] calc_hash_slot [OF assms(2)]
  by (simp add: hash_get_def hash_map_def chain_of_def)

lemma hash_add_new:
  assumes wf: "hash_wf h" and ok: "key_ok (h_type h) our" and k: "k = key_of (h_type h) our peer"
    and new: "hash_map h k = None"
  shows "\<exists>h'. hash_add True h d our peer = Some (0, h') \<and> hash_wf h' \<and> h_type h' = h_type h \<and>
    hash_map h' = (hash_map h)(k \<mapsto> d)"
proof -
  let ?t = "h_type h"
  let ?e = "\<lparr>he_our = our, he_peer = peer, he_data = d\<rparr>"
  let ?es = "chain_of h k @ [?e]"
  let ?h = "h\<lparr>h_chains := (h_chains h)[slot h k := ?es]\<rparr>"
  have none: "chain_map ?t (chain_of h k) k = None" using new by (simp add: hash_map_def)
  then have fresh: "k \<notin> ekey ?t ` set (chain_of h k)"
    by (simp add: chain_map_def map_of_eq_None_iff image_comp)
  have "hash_match ?t e our peer = Some False" if "e \<in> set (butlast (chain_of h k))" for e
  proof -
    have e: "e \<in> set (chain_of h k)" using that by (rule in_set_butlastD)
    then have "ekey ?t e \<noteq> k" using fresh by auto
    then show ?thesis using e hash_tests [OF wf ok, of peer] by (simp add: k)
  qed
  then have "chain_add (\<lambda>e. hash_match ?t e our peer) ?e (chain_of h k) = Some (Some ?es)"
    by (intro chain_add_fresh) blast
  moreover have "\<not> (?t = DOUBLE_ADDR \<and> our = None)" using ok by (auto simp: key_ok_def)
  ultimately have run: "hash_add True h d our peer = Some (0, ?h)"
    using calc_hash_slot [OF ok, of peer] by (simp add: hash_add_def k chain_of_def)
  have "chain_wf h (slot h k) ?es"
    using chain_of_wf [OF wf, of k] fresh ok by (auto simp: chain_wf_def k ekey_def)
  then have "hash_wf ?h" by (rule hash_wf_upd [OF wf])
  moreover have "hash_map ?h x = ((hash_map h)(k \<mapsto> d)) x" for x
    using none
    by (auto simp: hash_map_upd [OF wf] hash_map_chain [of h x k] chain_map_def k ekey_def map_add_def
        split: option.split)
  ultimately show ?thesis using run by auto
qed

lemma hash_delete_key:
  assumes wf: "hash_wf h" and ok: "key_ok (h_type h) our" and k: "k = key_of (h_type h) our peer"
  shows "\<exists>h'. hash_delete h our peer = Some h' \<and> hash_wf h' \<and> h_type h' = h_type h \<and>
    hash_map h' = (hash_map h)(k := None)"
proof -
  let ?t = "h_type h"
  let ?es = "filter (\<lambda>e. ekey ?t e \<noteq> k) (chain_of h k)"
  let ?h = "h\<lparr>h_chains := (h_chains h)[slot h k := ?es]\<rparr>"
  have w: "chain_wf h (slot h k) (chain_of h k)" by (rule chain_of_wf [OF wf])
  then have "hash_delete h our peer = Some ?h"
    using chain_delete_filter [OF hash_tests [OF wf ok, of peer]] calc_hash_slot [OF ok] ok
    by (auto simp: hash_delete_def k key_ok_def chain_of_def chain_wf_def)
  moreover have "hash_wf ?h"
    using w by (intro hash_wf_upd [OF wf]) (auto simp: chain_wf_def distinct_map_filter)
  moreover have "hash_map ?h x = ((hash_map h)(k := None)) x" for x
    by (simp add: hash_map_upd [OF wf] hash_map_chain [of h x k] chain_map_filter)
  ultimately show ?thesis by auto
qed

lemma hash_add_present:
  assumes wf: "hash_wf h" and ok: "key_ok (h_type h) our" and k: "k = key_of (h_type h) our peer"
    and e: "e \<in> set (butlast (chain_of h k))" "ekey (h_type h) e = k"
  shows "hash_add True h d our peer = Some (- EEXIST, h)"
proof -
  have "chain_add (\<lambda>e. hash_match (h_type h) e our peer) new (chain_of h k) = Some None" for new
    by (rule chain_add_exists [OF hash_tests [OF wf ok, of peer, folded k]]) (use e in blast)
  moreover have "\<not> (h_type h = DOUBLE_ADDR \<and> our = None)" using ok by (auto simp: key_ok_def)
  ultimately show ?thesis
    using calc_hash_slot [OF ok, of peer] by (simp add: hash_add_def k chain_of_def)
qed

lemma hash_init_wf:
  "0 < n \<Longrightarrow> hash_init True t n = Some (0, Some h) \<Longrightarrow> hash_wf h \<and> h_type h = t \<and> hash_map h = Map.empty"
  by (auto simp: hash_init_def hash_wf_def chain_wf_def hash_map_def chain_of_def chain_map_def slot_def)

section \<open>The table interface\<close>

text \<open>
  What the binding cache and the other tables of the daemon rely on, for tables keyed by two
  addresses: looking up reads a map, adding an absent key extends it, deleting removes a key.
\<close>

locale addr_table =
  fixes wf :: "'t \<Rightarrow> bool" and lookup :: "'t \<Rightarrow> 'k \<rightharpoonup> 'd"
    and get :: "'t \<Rightarrow> 'k \<Rightarrow> 'd option cres" and add :: "'t \<Rightarrow> 'k \<Rightarrow> 'd \<Rightarrow> (int \<times> 't) cres"
    and del :: "'t \<Rightarrow> 'k \<Rightarrow> 't cres"
  assumes get_law: "wf h \<Longrightarrow> get h k = Some (lookup h k)"
    and add_law: "wf h \<Longrightarrow> lookup h k = None \<Longrightarrow>
      \<exists>h'. add h k d = Some (0, h') \<and> wf h' \<and> lookup h' = (lookup h)(k \<mapsto> d)"
    and del_law: "wf h \<Longrightarrow> \<exists>h'. del h k = Some h' \<and> wf h' \<and> lookup h' = (lookup h)(k := None)"
begin

text \<open>An entry just added is found, and deleting it restores every lookup.\<close>

lemma added_found:
  assumes "wf h" "lookup h k = None"
  shows "\<exists>h'. add h k d = Some (0, h') \<and> wf h' \<and> get h' k = Some (Some d) \<and>
    (\<forall>j. j \<noteq> k \<longrightarrow> get h' j = get h j) \<and> (\<exists>h2. del h' k = Some h2 \<and> wf h2 \<and> lookup h2 = lookup h)"
proof -
  obtain h' where h': "add h k d = Some (0, h')" "wf h'" "lookup h' = (lookup h)(k \<mapsto> d)"
    using add_law [OF assms] by blast
  moreover obtain h2 where "del h' k = Some h2" "wf h2" "lookup h2 = (lookup h')(k := None)"
    using del_law [OF h'(2)] by blast
  moreover have "(lookup h')(k := None) = lookup h" using h'(3) assms(2) by auto
  ultimately show ?thesis using get_law assms(1) by auto
qed

text \<open>Replacing an entry by deleting and adding it again.\<close>

lemma replaced:
  assumes "wf h"
  shows "\<exists>h1 h2. del h k = Some h1 \<and> add h1 k d = Some (0, h2) \<and> wf h2 \<and> lookup h2 = (lookup h)(k \<mapsto> d)"
proof -
  obtain h1 where h1: "del h k = Some h1" "wf h1" "lookup h1 = (lookup h)(k := None)"
    using del_law [OF assms] by blast
  then show ?thesis using add_law [of h1 k d] by auto
qed

end

definition pair_wf :: "'d hash \<Rightarrow> bool" where
  "pair_wf h \<longleftrightarrow> hash_wf h \<and> h_type h = DOUBLE_ADDR"

definition pair_lookup :: "'d hash \<Rightarrow> in6_addr \<times> in6_addr \<rightharpoonup> 'd" where
  "pair_lookup h k = hash_map h (Some (fst k), snd k)"

lemma pair_key [simp]: "key_of DOUBLE_ADDR (Some a) p = (Some a, p)" "key_ok DOUBLE_ADDR (Some a)"
  by (simp_all add: key_of_def key_ok_def)

lemma pair_get_law: "pair_wf h \<Longrightarrow> hash_get h (Some (fst k)) (snd k) = Some (pair_lookup h k)"
  using hash_get_map [of h "Some (fst k)" "snd k"] by (simp add: pair_wf_def pair_lookup_def)

lemma pair_lookup_upd:
  "hash_map h' = (hash_map h)((Some (fst k), snd k) := v) \<Longrightarrow> pair_lookup h' = (pair_lookup h)(k := v)"
  by (auto simp: pair_lookup_def fun_eq_iff prod_eq_iff)

lemma pair_add_law:
  assumes "pair_wf h" "pair_lookup h k = None"
  shows "\<exists>h'. hash_add True h d (Some (fst k)) (snd k) = Some (0, h') \<and> pair_wf h' \<and>
    pair_lookup h' = (pair_lookup h)(k \<mapsto> d)"
proof -
  obtain h' where "hash_add True h d (Some (fst k)) (snd k) = Some (0, h')" "hash_wf h'"
    "h_type h' = h_type h" "hash_map h' = (hash_map h)((Some (fst k), snd k) \<mapsto> d)"
    using hash_add_new [of h "Some (fst k)" _ "snd k" d] assms by (auto simp: pair_wf_def pair_lookup_def)
  then show ?thesis using assms(1) pair_lookup_upd [of h' h k] by (simp add: pair_wf_def)
qed

lemma pair_del_law:
  assumes "pair_wf h"
  shows "\<exists>h'. hash_delete h (Some (fst k)) (snd k) = Some h' \<and> pair_wf h' \<and>
    pair_lookup h' = (pair_lookup h)(k := None)"
proof -
  obtain h' where "hash_delete h (Some (fst k)) (snd k) = Some h'" "hash_wf h'"
    "h_type h' = h_type h" "hash_map h' = (hash_map h)((Some (fst k), snd k) := None)"
    using hash_delete_key [of h "Some (fst k)" _ "snd k"] assms by (auto simp: pair_wf_def)
  then show ?thesis using assms(1) pair_lookup_upd [of h' h k] by (simp add: pair_wf_def)
qed

interpretation pt: addr_table pair_wf pair_lookup "\<lambda>h k. hash_get h (Some (fst k)) (snd k)"
  "\<lambda>h k d. hash_add True h d (Some (fst k)) (snd k)" "\<lambda>h k. hash_delete h (Some (fst k)) (snd k)"
  by unfold_locales (rule pair_get_law, assumption, rule pair_add_law, assumption+, rule pair_del_law)

text \<open>
  C35. The hash table is a map on pairs of addresses, for callers that add absent keys. Adding an
  absent pair succeeds; the pair is then found, every other pair is looked up as before, and deleting
  it again restores all lookups. This holds whatever the number of buckets and however the
  addresses collide.
\<close>

theorem hash_add_get_delete:
  assumes "pair_wf h" "hash_get h (Some a) p = Some None"
  shows "\<exists>h'. hash_add True h d (Some a) p = Some (0, h') \<and> hash_get h' (Some a) p = Some (Some d) \<and>
    (\<forall>b q. (b, q) \<noteq> (a, p) \<longrightarrow> hash_get h' (Some b) q = hash_get h (Some b) q) \<and>
    (\<exists>h2. hash_delete h' (Some a) p = Some h2 \<and>
      (\<forall>b q. hash_get h2 (Some b) q = hash_get h (Some b) q))"
proof -
  have "pair_lookup h (a, p) = None" using assms pair_get_law [of h "(a, p)"] by simp
  then obtain h' h2 where h: "hash_add True h d (Some a) p = Some (0, h')" "pair_wf h'"
    "hash_get h' (Some a) p = Some (Some d)"
    "\<forall>j. j \<noteq> (a, p) \<longrightarrow> hash_get h' (Some (fst j)) (snd j) = hash_get h (Some (fst j)) (snd j)"
    "hash_delete h' (Some a) p = Some h2" "pair_wf h2" "pair_lookup h2 = pair_lookup h"
    using pt.added_found [OF assms(1), of "(a, p)" d] by auto
  have "hash_get h2 (Some b) q = hash_get h (Some b) q" for b q
    using pair_get_law [OF h(6), of "(b, q)"] pair_get_law [OF assms(1), of "(b, q)"] h(7) by simp
  then show ?thesis using h(1,3,4,5) by auto
qed

definition two_buckets :: "nat hash" where
  "two_buckets = \<lparr>h_buckets = 2, h_type = DOUBLE_ADDR, h_chains = [[], []]\<rparr>"

lemma two_buckets_wf: "pair_wf two_buckets"
  by (auto simp: pair_wf_def hash_wf_def two_buckets_def chain_wf_def less_2_cases_iff)

lemma two_buckets_empty: "hash_get two_buckets (Some a) p = Some None"
proof -
  have "chain_of two_buckets k = []" for k
    using slot_less [of two_buckets k] two_buckets_wf
    by (auto simp: pair_wf_def chain_of_def two_buckets_def less_2_cases_iff)
  then show ?thesis
    using pair_get_law [OF two_buckets_wf, of "(a, p)"]
    by (simp add: pair_lookup_def hash_map_def chain_map_def)
qed

theorem hash_add_get_delete_witness:
  "\<exists>h'. hash_add True two_buckets 7 (Some (replicate 16 1)) (replicate 16 2) = Some (0, h') \<and>
     hash_get h' (Some (replicate 16 1)) (replicate 16 2) = Some (Some 7)"
  using hash_add_get_delete [OF two_buckets_wf two_buckets_empty, where d = 7] by blast

text \<open>
  C40. An equal entry at the end of its chain is not noticed. The insertion loop compares all entries
  of a chain but the last, so adding a pair that is already there as the last (or only) entry of its
  chain is accepted: lookups keep returning the old data, and deleting the pair uncovers the new
  entry instead of removing the pair.
\<close>

theorem hash_add_duplicate:
  assumes "pair_wf h" "chain_of h (Some a, p) = es @ [\<lparr>he_our = Some a, he_peer = p, he_data = old\<rparr>]"
  shows "\<exists>h' h2. hash_add True h d (Some a) p = Some (0, h') \<and> hash_get h' (Some a) p = Some (Some old) \<and>
    hash_delete h' (Some a) p = Some h2 \<and> hash_get h2 (Some a) p = Some (Some d)"
proof -
  let ?k = "(Some a, p)"
  let ?P = "\<lambda>e. hash_match DOUBLE_ADDR e (Some a) p"
  let ?old = "\<lparr>he_our = Some a, he_peer = p, he_data = old\<rparr>"
  let ?new = "\<lparr>he_our = Some a, he_peer = p, he_data = d\<rparr>"
  have wf: "hash_wf h" and t: "h_type h = DOUBLE_ADDR" using assms(1) by (simp_all add: pair_wf_def)
  have "chain_wf h (slot h ?k) (es @ [?old])" using chain_of_wf [OF wf, of ?k] assms(2) by simp
  then have fresh: "\<forall>e \<in> set es. ?P e = Some False"
    by (auto simp: chain_wf_def t hash_match_key ekey_def image_iff)
  have P: "?P ?old = Some True" "?P ?new = Some True" by (simp_all add: hash_match_def match2_def)
  have calc: "calc_hash (h\<lparr>h_chains := c\<rparr>) (Some a) p = Some (slot h ?k)" for c
    using calc_hash_slot [of "h\<lparr>h_chains := c\<rparr>" "Some a" p] t by simp
  have len: "slot h ?k < length (h_chains h)" using slot_less [OF wf] wf by (simp add: hash_wf_def)
  have walk: "chain_get ?P (es @ e # r) = Some (Some (he_data e)) \<and> chain_delete ?P (es @ e # r) = Some (es @ r)"
    if "?P e = Some True" for e r
    using fresh that by (induction es) auto
  define h' where "h' = h\<lparr>h_chains := (h_chains h)[slot h ?k := es @ [?old, ?new]]\<rparr>"
  define h2 where "h2 = h\<lparr>h_chains := (h_chains h)[slot h ?k := es @ [?new]]\<rparr>"
  have "chain_add ?P ?new (es @ [?old]) = Some (Some (es @ [?old, ?new]))"
    using chain_add_fresh [of "es @ [?old]" ?P ?new] fresh by simp
  then have "hash_add True h d (Some a) p = Some (0, h')"
    using calc [of "h_chains h"] assms(2) t by (simp add: hash_add_def h'_def chain_of_def)
  moreover have "hash_get h' (Some a) p = Some (Some old)" "hash_get h2 (Some a) p = Some (Some d)"
    using walk [OF P(1), of "[?new]"] walk [OF P(2), of "[]"] calc t len
    by (simp_all add: hash_get_def h'_def h2_def)
  moreover have "hash_delete h' (Some a) p = Some h2"
    using walk [OF P(1), of "[?new]"] calc t len by (simp add: hash_delete_def h'_def h2_def)
  ultimately show ?thesis by blast
qed

definition one_entry :: "nat hash" where
  "one_entry = \<lparr>h_buckets = 1, h_type = DOUBLE_ADDR,
     h_chains = [[\<lparr>he_our = Some (replicate 16 1), he_peer = replicate 16 2, he_data = 7\<rparr>]]\<rparr>"

theorem hash_add_duplicate_witness:
  "\<exists>h' h2. hash_add True one_entry 8 (Some (replicate 16 1)) (replicate 16 2) = Some (0, h') \<and>
     hash_get h' (Some (replicate 16 1)) (replicate 16 2) = Some (Some 7) \<and>
     hash_delete h' (Some (replicate 16 1)) (replicate 16 2) = Some h2 \<and>
     hash_get h2 (Some (replicate 16 1)) (replicate 16 2) = Some (Some 8)"
proof -
  have "pair_wf one_entry"
    by (simp add: pair_wf_def hash_wf_def one_entry_def chain_wf_def slot_def)
  moreover have "chain_of one_entry (Some (replicate 16 1), replicate 16 2) =
      [] @ [\<lparr>he_our = Some (replicate 16 1), he_peer = replicate 16 2, he_data = 7\<rparr>]"
    by (simp add: chain_of_def one_entry_def slot_def)
  ultimately show ?thesis by (rule hash_add_duplicate)
qed

end
