(* ===== verification/Keygen.thy ===== *)
theory Keygen
  imports Tqueue Hash
begin

text \<open>
  The return routability keys of a correspondent node (\<open>src/protocols/umip/src/keygen.c\<close>): a ring of
  sixteen nonces that are handed out, expire and are regenerated by the timer queue, and the tokens
  and binding keys computed from them. HMAC-SHA1 (\<open>hmac key data\<close>), SHA-1 and the random
  bytes come from libcrypto and are parameters. A nonce holder is its index in the array.
\<close>

abbreviation (input) MAX_NONCES :: nat where "MAX_NONCES \<equiv> 16"
abbreviation (input) NONCE_LENGTH :: nat where "NONCE_LENGTH \<equiv> 8"
abbreviation (input) MAX_TOKEN_LIFETIME :: int where "MAX_TOKEN_LIFETIME \<equiv> 210"

definition max_nonce_lifetime_ts :: timespec where
  "max_nonce_lifetime_ts = Timespec 240 0"

record nonce_holder =
  nh_index :: u16
  nh_nonce :: bytes
  nh_until :: timespec

record keygen =
  kg_nonces :: "nonce_holder list"
  kg_max :: u16
  kg_min :: u16
  kg_key :: bytes
  kg_tq :: tqueue

text \<open>The timer element of each holder, and the task it carries.\<close>

definition nonce_tqe :: "nat \<Rightarrow> nat" where "nonce_tqe i = 100 + i"
definition nonce_regen_task :: nat where "nonce_regen_task = 1"

definition nonce_regen :: "bytes \<Rightarrow> nat \<Rightarrow> keygen \<Rightarrow> keygen" where
  "nonce_regen rnd i s =
     (let n = kg_nonces s ! i
      in s\<lparr>kg_max := kg_max s + 1, kg_min := kg_min s + 1,
           kg_nonces := (kg_nonces s)[i := n\<lparr>nh_index := nh_index n + 16, nh_until := tszero, nh_nonce := rnd\<rparr>]\<rparr>)"

text \<open>
  The initialisation of holders \<open>i\<close>, \<open>i + 1\<close>, \<dots>, where \<open>rnd i\<close> is the randomness obtained for it, or
  \<open>None\<close> when none is available.
\<close>

fun nonce_init_loop :: "(nat \<Rightarrow> bytes option) \<Rightarrow> nat list \<Rightarrow> keygen \<Rightarrow> int \<times> keygen" where
  "nonce_init_loop rnd [] s = (0, s\<lparr>kg_min := 1, kg_max := 16\<rparr>)"
| "nonce_init_loop rnd (i # is) s =
     (case rnd i of
        None \<Rightarrow> (-1, s)
      | Some b \<Rightarrow> nonce_init_loop rnd is
          (s\<lparr>kg_nonces := (kg_nonces s)[i mod MAX_NONCES := \<lparr>nh_index = of_nat i, nh_nonce = b, nh_until = tszero\<rparr>]\<rparr>))"

definition nonce_init :: "bool \<Rightarrow> (nat \<Rightarrow> bytes option) \<Rightarrow> keygen \<Rightarrow> int \<times> keygen" where
  "nonce_init lock_ok rnd s =
     (if \<not> lock_ok then (-1, s) else nonce_init_loop rnd [1..<Suc MAX_NONCES] s)"

definition get_nonce :: "u16 \<Rightarrow> keygen \<Rightarrow> nat option" where
  "get_nonce idx s =
     (let i = unat (idx AND 15) in if nh_index (kg_nonces s ! i) = idx then Some i else None)"

text \<open>
  The search for a nonce that outlives a token. A nonce is armed when it is first looked at. The
  counter is a 16 bit integer; a missing holder is dereferenced.
\<close>

definition arm_nonce :: "timespec \<Rightarrow> nat \<Rightarrow> keygen \<Rightarrow> keygen cres" where
  "arm_nonce now i s =
     (let n = kg_nonces s ! i in
      if tsisset (nh_until n) then Some s
      else do {
        q \<leftarrow> add_task_abs (tsadd now max_nonce_lifetime_ts) (nonce_tqe i) nonce_regen_task (kg_tq s);
        Some (s\<lparr>kg_nonces := (kg_nonces s)[i := n\<lparr>nh_until := tsadd now max_nonce_lifetime_ts\<rparr>], kg_tq := q\<rparr>) })"

partial_function (option) valid_nonce_loop :: "timespec \<Rightarrow> u16 \<Rightarrow> u16 \<Rightarrow> keygen \<Rightarrow> (nat option \<times> keygen) cres" where
  "valid_nonce_loop now c mx s =
     (if c \<le> mx then
        do {
          i \<leftarrow> get_nonce c s;
          s \<leftarrow> arm_nonce now i s;
          if tv_sec (tssub (nh_until (kg_nonces s ! i)) now) \<ge> MAX_TOKEN_LIFETIME then Some (Some i, s)
          else valid_nonce_loop now (c + 1) mx s }
      else Some (None, s))"

definition get_valid_nonce :: "timespec \<Rightarrow> keygen \<Rightarrow> (nat option \<times> keygen) cres" where
  "get_valid_nonce now s = valid_nonce_loop now (kg_min s) (kg_max s) s"

definition validate_nonce :: "timespec \<Rightarrow> u16 \<Rightarrow> keygen \<Rightarrow> nat option" where
  "validate_nonce now idx s =
     (case get_nonce idx s of
        None \<Rightarrow> None
      | Some i \<Rightarrow> if tv_sec (tssub (nh_until (kg_nonces s ! i)) now) < 0 then None else Some i)"

definition build_kgen_token :: "(bytes \<Rightarrow> bytes \<Rightarrow> bytes) \<Rightarrow> bytes \<Rightarrow> in6_addr \<Rightarrow> bytes \<Rightarrow> u8 \<Rightarrow> bytes" where
  "build_kgen_token hmac key addr nonce i = take 8 (hmac key (addr @ nonce @ [i]))"

definition rr_cn_keygen_token ::
  "(bytes \<Rightarrow> bytes \<Rightarrow> bytes) \<Rightarrow> timespec \<Rightarrow> in6_addr \<Rightarrow> u8 \<Rightarrow> keygen \<Rightarrow> (u16 \<times> bytes \<times> keygen) cres" where
  "rr_cn_keygen_token hmac now addr bt s = do {
     (n, s) \<leftarrow> get_valid_nonce now s;
     i \<leftarrow> n;
     Some (nh_index (kg_nonces s ! i), build_kgen_token hmac (kg_key s) addr (nh_nonce (kg_nonces s ! i)) bt, s) }"

definition rr_cn_nonce_lft :: "u16 \<Rightarrow> keygen \<Rightarrow> int \<times> timespec option" where
  "rr_cn_nonce_lft idx s =
     (case get_nonce idx s of None \<Rightarrow> (-1, None) | Some i \<Rightarrow> (0, Some (nh_until (kg_nonces s ! i))))"

definition rr_mn_calc_Kbm :: "(bytes \<Rightarrow> bytes) \<Rightarrow> bytes \<Rightarrow> bytes option \<Rightarrow> bytes" where
  "rr_mn_calc_Kbm sha1 keygen_hoa keygen_coa =
     sha1 (take NONCE_LENGTH keygen_hoa @ (case keygen_coa of None \<Rightarrow> [] | Some k \<Rightarrow> take NONCE_LENGTH k))"

abbreviation (input) IP6_MH_BAS_HOME_NI_EXPIRED :: int where "IP6_MH_BAS_HOME_NI_EXPIRED \<equiv> 136"
abbreviation (input) IP6_MH_BAS_COA_NI_EXPIRED :: int where "IP6_MH_BAS_COA_NI_EXPIRED \<equiv> 137"
abbreviation (input) IP6_MH_BAS_NI_EXPIRED :: int where "IP6_MH_BAS_NI_EXPIRED \<equiv> 138"

text \<open>The status of a failure is on the left, the key on the right.\<close>

definition rr_cn_calc_Kbm ::
  "(bytes \<Rightarrow> bytes \<Rightarrow> bytes) \<Rightarrow> (bytes \<Rightarrow> bytes) \<Rightarrow> timespec \<Rightarrow> u16 \<Rightarrow> u16 \<Rightarrow> in6_addr \<Rightarrow> in6_addr option \<Rightarrow> keygen \<Rightarrow> int + bytes" where
  "rr_cn_calc_Kbm hmac sha1 now home_ind coa_ind hoa coa s =
     (let token = (\<lambda>a i b. build_kgen_token hmac (kg_key s) a (nh_nonce (kg_nonces s ! i)) b)
      in case (validate_nonce now home_ind s, coa) of
        (None, None) \<Rightarrow> Inl IP6_MH_BAS_HOME_NI_EXPIRED
      | (Some i, None) \<Rightarrow> Inr (rr_mn_calc_Kbm sha1 (token hoa i 0) None)
      | (home, Some c) \<Rightarrow>
          (case (home, validate_nonce now coa_ind s) of
             (None, None) \<Rightarrow> Inl IP6_MH_BAS_NI_EXPIRED
           | (None, Some j) \<Rightarrow> Inl IP6_MH_BAS_HOME_NI_EXPIRED
           | (Some i, None) \<Rightarrow> Inl IP6_MH_BAS_COA_NI_EXPIRED
           | (Some i, Some j) \<Rightarrow> Inr (rr_mn_calc_Kbm sha1 (token hoa i 0) (Some (token c j 1)))))"

definition rr_cn_init :: "bytes option \<Rightarrow> bool \<Rightarrow> (nat \<Rightarrow> bytes option) \<Rightarrow> keygen \<Rightarrow> int \<times> keygen" where
  "rr_cn_init key lock_ok rnd s =
     (case key of None \<Rightarrow> (-1, s) | Some k \<Rightarrow> nonce_init lock_ok rnd (s\<lparr>kg_key := k\<rparr>))"

section \<open>The invariant\<close>

text \<open>
  The timer of every holder agrees with its validity, and the timer queue is well formed. Times
  are those of a clock started in 1970.
\<close>

definition time_ok :: "timespec \<Rightarrow> bool" where
  "time_ok t \<longleftrightarrow> ts_ok t \<and> 0 \<le> tv_sec t"

definition kg_wf :: "keygen \<Rightarrow> bool" where
  "kg_wf s \<longleftrightarrow> length (kg_nonces s) = MAX_NONCES \<and> tq_wf (kg_tq s) \<and>
     (\<forall>i < MAX_NONCES. k_alloc (tq_links (kg_tq s)) (nonce_tqe i) \<and>
        tq_expires (kg_tq s) (nonce_tqe i) = nh_until (kg_nonces s ! i) \<and> ts_ok (nh_until (kg_nonces s ! i)))"

text \<open>
  The holders keep their index and their nonce, and their validity once it is set; other timers stay
  as they are.
\<close>

definition kg_keeps :: "keygen \<Rightarrow> keygen \<Rightarrow> bool" where
  "kg_keeps s s' \<longleftrightarrow> kg_key s' = kg_key s \<and> kg_min s' = kg_min s \<and> kg_max s' = kg_max s \<and>
     (\<forall>i < MAX_NONCES. nh_index (kg_nonces s' ! i) = nh_index (kg_nonces s ! i) \<and>
        nh_nonce (kg_nonces s' ! i) = nh_nonce (kg_nonces s ! i) \<and>
        (tsisset (nh_until (kg_nonces s ! i)) \<longrightarrow> nh_until (kg_nonces s' ! i) = nh_until (kg_nonces s ! i))) \<and>
     (\<forall>e. tq_ready (kg_tq s) e \<longrightarrow> tq_ready (kg_tq s') e) \<and>
     (\<forall>e. (\<forall>i < MAX_NONCES. e \<noteq> nonce_tqe i) \<longrightarrow> tq_expires (kg_tq s') e = tq_expires (kg_tq s) e)"

lemma kg_keeps_refl: "kg_keeps s s"
  by (simp add: kg_keeps_def)

lemma kg_keeps_trans: "kg_keeps s s1 \<Longrightarrow> kg_keeps s1 s2 \<Longrightarrow> kg_keeps s s2"
  by (auto simp: kg_keeps_def)

lemma kg_keeps_nonce:
  "kg_keeps s s' \<Longrightarrow> i < MAX_NONCES \<Longrightarrow> tsisset (nh_until (kg_nonces s ! i)) \<Longrightarrow>
     kg_nonces s' ! i = kg_nonces s ! i"
  by (simp add: kg_keeps_def del: tsisset_zero)

lemma nonce_tqe_simps [simp]: "nonce_tqe i \<noteq> tq_list" "nonce_tqe i \<noteq> 0" "nonce_tqe i = nonce_tqe j \<longleftrightarrow> i = j"
  by (simp_all add: nonce_tqe_def tq_list_def)

lemma and_15_less: "unat ((w :: u16) AND 15) < 16"
proof -
  have "w AND 15 \<le> 15" by (rule word_and_le1)
  then show ?thesis by (simp add: word_le_nat_alt)
qed

lemma get_nonce_less: "get_nonce idx s = Some i \<Longrightarrow> i < MAX_NONCES"
  using and_15_less [of idx] by (auto simp: get_nonce_def Let_def split: if_splits)

lemma get_nonce_index: "get_nonce idx s = Some i \<longleftrightarrow> nh_index (kg_nonces s ! i) = idx \<and> i = unat (idx AND 15)"
  by (auto simp: get_nonce_def Let_def split: if_splits)

lemma get_nonce_cong:
  "get_nonce ix s = Some i \<Longrightarrow> nh_index (kg_nonces s' ! i) = nh_index (kg_nonces s ! i) \<Longrightarrow> get_nonce ix s' = Some i"
  by (auto simp: get_nonce_def Let_def split: if_splits)

section \<open>Arming and regenerating\<close>

lemma nonce_expiry:
  assumes "time_ok now"
  shows "tsisset (tsadd now max_nonce_lifetime_ts)" "ts_ok (tsadd now max_nonce_lifetime_ts)"
    "nsecs (tsadd now max_nonce_lifetime_ts) = nsecs now + 240 * TIME_SEC_NSEC"
proof -
  have m: "ts_ok max_nonce_lifetime_ts" "nsecs max_nonce_lifetime_ts = 240 * TIME_SEC_NSEC"
    by (simp_all add: max_nonce_lifetime_ts_def ts_ok_def nsecs_def)
  then show e: "ts_ok (tsadd now max_nonce_lifetime_ts)"
    "nsecs (tsadd now max_nonce_lifetime_ts) = nsecs now + 240 * TIME_SEC_NSEC"
    using tsadd_exact [of now max_nonce_lifetime_ts] assms by (simp_all add: time_ok_def)
  have "0 \<le> nsecs now" using assms by (simp add: time_ok_def ts_ok_def nsecs_def)
  then have "nsecs (tsadd now max_nonce_lifetime_ts) \<noteq> nsecs tszero"
    using e(2) by (simp add: nsecs_def tszero_def)
  then show "tsisset (tsadd now max_nonce_lifetime_ts)" by auto
qed

lemma arm_nonce_keeps:
  assumes wf: "kg_wf s" and i: "i < MAX_NONCES" and now: "time_ok now"
  shows "\<exists>s'. arm_nonce now i s = Some s' \<and> kg_wf s' \<and> kg_keeps s s' \<and> tsisset (nh_until (kg_nonces s' ! i)) \<and>
    (\<not> tsisset (nh_until (kg_nonces s ! i)) \<longrightarrow> nh_until (kg_nonces s' ! i) = tsadd now max_nonce_lifetime_ts)"
proof (cases "tsisset (nh_until (kg_nonces s ! i))")
  case True
  then show ?thesis using wf by (simp add: arm_nonce_def kg_keeps_refl)
next
  case False
  let ?t = "tsadd now max_nonce_lifetime_ts"
  have len: "length (kg_nonces s) = MAX_NONCES" using wf by (simp add: kg_wf_def)
  obtain xs where xs: "tq_inv (kg_tq s) xs" using wf by (auto simp: kg_wf_def tq_wf_def)
  have al: "k_alloc (tq_links (kg_tq s)) (nonce_tqe i)" using wf i by (simp add: kg_wf_def)
  obtain q ys where q: "add_task_abs ?t (nonce_tqe i) nonce_regen_task (kg_tq s) = Some q" "tq_inv q ys"
    "tq_expires q = (tq_expires (kg_tq s))(nonce_tqe i := ?t)"
    "\<forall>p. k_alloc (tq_links (kg_tq s)) p \<longrightarrow> k_alloc (tq_links q) p" "\<forall>p. tq_ready (kg_tq s) p \<longrightarrow> tq_ready q p"
    using add_task_abs_inv [OF xs nonce_tqe_simps(2,1) al nonce_expiry(1) [OF now], of nonce_regen_task] by blast
  define s' where "s' = s\<lparr>kg_nonces := (kg_nonces s)[i := (kg_nonces s ! i)\<lparr>nh_until := ?t\<rparr>], kg_tq := q\<rparr>"
  have run: "arm_nonce now i s = Some s'" using False q(1) by (simp add: arm_nonce_def s'_def Let_def)
  have nth: "kg_nonces s' ! j = (if j = i then (kg_nonces s ! i)\<lparr>nh_until := ?t\<rparr> else kg_nonces s ! j)"
    if "j < MAX_NONCES" for j
    using that i len by (simp add: s'_def nth_list_update)
  moreover have "kg_key s' = kg_key s" "kg_min s' = kg_min s" "kg_max s' = kg_max s" "kg_tq s' = q"
    by (simp_all add: s'_def)
  ultimately have "kg_keeps s s'" using False q(3,5) i by (auto simp: kg_keeps_def)
  moreover have "kg_wf s'"
  proof -
    have "tq_wf (kg_tq s')" using q(2) by (auto simp: tq_wf_def s'_def)
    moreover have "k_alloc (tq_links (kg_tq s')) (nonce_tqe j) \<and>
        tq_expires (kg_tq s') (nonce_tqe j) = nh_until (kg_nonces s' ! j) \<and> ts_ok (nh_until (kg_nonces s' ! j))"
      if "j < MAX_NONCES" for j
      using wf that q(3,4) nonce_expiry(2) [OF now] by (simp add: kg_wf_def nth [OF that]) (simp add: s'_def)
    ultimately show ?thesis using len by (simp add: kg_wf_def s'_def)
  qed
  ultimately show ?thesis using run nth [OF i] nonce_expiry(1) [OF now] by auto
qed

lemma nonce_regen_wf:
  assumes wf: "kg_wf s" and i: "i < MAX_NONCES"
    and run: "runner_poll now (kg_tq s) = Some (Run_task (nonce_tqe i), q)"
  shows "nh_until (kg_nonces s ! i) \<le> now" "kg_wf (nonce_regen rnd i (s\<lparr>kg_tq := q\<lparr>tq_curr := 0\<rparr>\<rparr>))"
    "j \<noteq> i \<Longrightarrow> kg_nonces (nonce_regen rnd i (s\<lparr>kg_tq := q\<lparr>tq_curr := 0\<rparr>\<rparr>)) ! j = kg_nonces s ! j"
proof -
  obtain xs where xs: "tq_inv (kg_tq s) xs" using wf by (auto simp: kg_wf_def tq_wf_def)
  obtain ys where ys: "tq_expires (kg_tq s) (nonce_tqe i) \<le> now" "tq_inv q ys"
    "tq_expires q = (tq_expires (kg_tq s))(nonce_tqe i := tszero)"
    "\<forall>p. k_alloc (tq_links (kg_tq s)) p \<longrightarrow> k_alloc (tq_links q) p"
    using runner_poll_run [OF xs run] by blast
  then show "nh_until (kg_nonces s ! i) \<le> now" using wf i by (simp add: kg_wf_def)
  let ?s' = "nonce_regen rnd i (s\<lparr>kg_tq := q\<lparr>tq_curr := 0\<rparr>\<rparr>)"
  have len: "length (kg_nonces s) = MAX_NONCES" using wf by (simp add: kg_wf_def)
  have "tq_inv (q\<lparr>tq_curr := 0\<rparr>) ys" using ys(2) by (subst tq_inv_cong [of _ q]) simp_all
  then have "tq_wf (kg_tq ?s')" by (auto simp: tq_wf_def nonce_regen_def Let_def)
  moreover have "k_alloc (tq_links (kg_tq ?s')) (nonce_tqe j) \<and>
      tq_expires (kg_tq ?s') (nonce_tqe j) = nh_until (kg_nonces ?s' ! j) \<and> ts_ok (nh_until (kg_nonces ?s' ! j))"
    if "j < MAX_NONCES" for j
    using wf that i ys(3,4) len
    by (auto simp: kg_wf_def nonce_regen_def Let_def nth_list_update tszero_def ts_ok_def)
  ultimately show "kg_wf ?s'" using len by (simp add: kg_wf_def nonce_regen_def Let_def)
  show "kg_nonces ?s' ! j = kg_nonces s ! j" if "j \<noteq> i" for j
    using that by (simp add: nonce_regen_def Let_def)
qed

section \<open>Tokens and keys\<close>

lemma valid_nonce_loop_found:
  assumes "valid_nonce_loop now c mx s = Some (Some i, s')" "kg_wf s" "time_ok now"
  shows "kg_wf s' \<and> kg_keeps s s' \<and> i < MAX_NONCES \<and> get_nonce (nh_index (kg_nonces s' ! i)) s' = Some i \<and>
    tsisset (nh_until (kg_nonces s' ! i)) \<and> MAX_TOKEN_LIFETIME \<le> tv_sec (tssub (nh_until (kg_nonces s' ! i)) now)"
proof -
  define P where "P = (\<lambda>s (r :: nat option \<times> keygen). kg_wf s \<longrightarrow> (\<forall>i. fst r = Some i \<longrightarrow>
    kg_wf (snd r) \<and> kg_keeps s (snd r) \<and> i < MAX_NONCES \<and> get_nonce (nh_index (kg_nonces (snd r) ! i)) (snd r) = Some i \<and>
    tsisset (nh_until (kg_nonces (snd r) ! i)) \<and>
    MAX_TOKEN_LIFETIME \<le> tv_sec (tssub (nh_until (kg_nonces (snd r) ! i)) now)))"
  have step: "P s r"
    if body: "(if c \<le> mx then
        do { i \<leftarrow> get_nonce c s; s \<leftarrow> arm_nonce now i s;
          if tv_sec (tssub (nh_until (kg_nonces s ! i)) now) \<ge> MAX_TOKEN_LIFETIME then Some (Some i, s)
          else loop now (c + 1) mx s }
      else Some (None, s)) = Some r"
      and IH: "\<And>c s r. loop now c mx s = Some r \<Longrightarrow> P s r" for loop c s r
  proof (cases "c \<le> mx \<and> kg_wf s")
    case True
    then obtain i where i: "get_nonce c s = Some i" using body by (auto simp: bind_eq_Some_conv)
    obtain s1 where s1: "arm_nonce now i s = Some s1" "kg_wf s1" "kg_keeps s s1" "tsisset (nh_until (kg_nonces s1 ! i))"
      using arm_nonce_keeps [of s i now] get_nonce_less [OF i] True assms(3) by blast
    have "nh_index (kg_nonces s1 ! i) = nh_index (kg_nonces s ! i)"
      using get_nonce_less [OF i] s1(3) by (simp add: kg_keeps_def)
    also have "\<dots> = c" using i unfolding get_nonce_index by blast
    finally have g: "get_nonce (nh_index (kg_nonces s1 ! i)) s1 = Some i" using i by (simp add: get_nonce_index)
    show ?thesis
    proof (cases "tv_sec (tssub (nh_until (kg_nonces s1 ! i)) now) \<ge> MAX_TOKEN_LIFETIME")
      case True
      then have "r = (Some i, s1)" using body i s1(1) \<open>c \<le> mx \<and> kg_wf s\<close> by simp
      then show ?thesis using True s1 g get_nonce_less [OF i] by (simp add: P_def del: tsisset_zero)
    next
      case False
      then have "loop now (c + 1) mx s1 = Some r" using body i s1(1) \<open>c \<le> mx \<and> kg_wf s\<close> by simp
      then have "P s1 r" by (rule IH)
      then show ?thesis using s1(2,3) kg_keeps_trans unfolding P_def by blast
    qed
  next
    case False
    then show ?thesis using body by (auto simp: P_def)
  qed
  have "P s (Some i, s')"
    by (rule valid_nonce_loop.raw_induct [of "\<lambda>n c m s r. n = now \<longrightarrow> m = mx \<longrightarrow> P s r",
          rule_format, OF _ assms(1) refl refl]) (use step in blast)
  then show ?thesis using assms(2) by (simp add: P_def del: tsisset_zero)
qed

lemma rr_cn_keygen_token_found:
  assumes run: "rr_cn_keygen_token hmac now addr b s = Some (ix, tok, s')" and wf: "kg_wf s" and now: "time_ok now"
  shows "\<exists>i. kg_wf s' \<and> kg_keeps s s' \<and> i < MAX_NONCES \<and> get_nonce ix s' = Some i \<and>
    tsisset (nh_until (kg_nonces s' ! i)) \<and> nsecs now + MAX_TOKEN_LIFETIME * TIME_SEC_NSEC \<le> nsecs (nh_until (kg_nonces s' ! i)) \<and>
    tok = build_kgen_token hmac (kg_key s') addr (nh_nonce (kg_nonces s' ! i)) b"
proof -
  obtain i where i: "valid_nonce_loop now (kg_min s) (kg_max s) s = Some (Some i, s')"
    "ix = nh_index (kg_nonces s' ! i)" "tok = build_kgen_token hmac (kg_key s') addr (nh_nonce (kg_nonces s' ! i)) b"
    using run by (auto simp: rr_cn_keygen_token_def get_valid_nonce_def bind_eq_Some_conv)
  note f = valid_nonce_loop_found [OF i(1) wf now]
  have "ts_ok (nh_until (kg_nonces s' ! i))" using f by (simp add: kg_wf_def)
  then have "nsecs (nh_until (kg_nonces s' ! i)) - nsecs now = nsecs (tssub (nh_until (kg_nonces s' ! i)) now) \<and>
      ts_ok (tssub (nh_until (kg_nonces s' ! i)) now)"
    using tssub_exact [of "nh_until (kg_nonces s' ! i)" now] now by (simp add: time_ok_def)
  moreover have "MAX_TOKEN_LIFETIME * TIME_SEC_NSEC \<le> nsecs (tssub (nh_until (kg_nonces s' ! i)) now)"
    using f calculation by (simp add: nsecs_def ts_ok_def)
  ultimately show ?thesis using f i(2,3) by (intro exI [of _ i]) simp
qed

text \<open>
  What happens between a token and its use: more tokens are handed out, and the timer thread takes a
  holder off its queue and regenerates it.
\<close>

datatype kg_event = Token timespec in6_addr u8 | Regen timespec nat bytes

fun kg_time :: "kg_event \<Rightarrow> timespec" where
  "kg_time (Token t a b) = t"
| "kg_time (Regen t i r) = t"

fun kg_run :: "(bytes \<Rightarrow> bytes \<Rightarrow> bytes) \<Rightarrow> kg_event list \<Rightarrow> keygen \<Rightarrow> keygen cres" where
  "kg_run hmac [] s = Some s"
| "kg_run hmac (Token t a b # es) s = do {
     (ix, tok, s) \<leftarrow> rr_cn_keygen_token hmac t a b s;
     kg_run hmac es s }"
| "kg_run hmac (Regen t i rnd # es) s = do {
     (w, q) \<leftarrow> runner_poll t (kg_tq s);
     if i < MAX_NONCES \<and> w = Run_task (nonce_tqe i)
     then kg_run hmac es (nonce_regen rnd i (s\<lparr>kg_tq := q\<lparr>tq_curr := 0\<rparr>\<rparr>))
     else None }"

lemma kg_run_keeps_nonce:
  assumes "kg_run hmac es s = Some s'" "kg_wf s" "\<forall>e \<in> set es. time_ok (kg_time e) \<and> kg_time e < nh_until (kg_nonces s ! i)"
    "i < MAX_NONCES" "tsisset (nh_until (kg_nonces s ! i))"
  shows "kg_wf s' \<and> kg_key s' = kg_key s \<and> kg_nonces s' ! i = kg_nonces s ! i"
  using assms
proof (induction hmac es s rule: kg_run.induct)
  case (2 hmac t a b es s)
  obtain ix tok s1 where s1: "rr_cn_keygen_token hmac t a b s = Some (ix, tok, s1)" "kg_run hmac es s1 = Some s'"
    using 2(2) by (auto simp: bind_eq_Some_conv)
  have k: "kg_wf s1" "kg_keeps s s1" using rr_cn_keygen_token_found [OF s1(1) 2(3)] 2(4) by auto
  then have "kg_nonces s1 ! i = kg_nonces s ! i" using kg_keeps_nonce 2(5,6) by blast
  then show ?case using 2(1) [of "(ix, tok, s1)" ix "(tok, s1)" tok s1] s1 k 2(4-6) by (simp add: kg_keeps_def)
next
  case (3 hmac t j rnd es s)
  obtain q where q: "runner_poll t (kg_tq s) = Some (Run_task (nonce_tqe j), q)" "j < MAX_NONCES"
    "kg_run hmac es (nonce_regen rnd j (s\<lparr>kg_tq := q\<lparr>tq_curr := 0\<rparr>\<rparr>)) = Some s'"
    using 3(2) by (auto simp: bind_eq_Some_conv split: if_splits)
  let ?s1 = "nonce_regen rnd j (s\<lparr>kg_tq := q\<lparr>tq_curr := 0\<rparr>\<rparr>)"
  note r = nonce_regen_wf [OF 3(3) q(2,1)]
  have "t < nh_until (kg_nonces s ! i)" using 3(4) by simp
  then have "i \<noteq> j" using r(1) by auto
  then have "kg_nonces ?s1 ! i = kg_nonces s ! i" using r(3) by simp
  moreover have "kg_key ?s1 = kg_key s" by (simp add: nonce_regen_def Let_def)
  ultimately show ?case using 3(1) [of "(Run_task (nonce_tqe j), q)" "Run_task (nonce_tqe j)" q] q r(2) 3(4-6) by simp
qed simp

lemma validate_nonce_kept:
  assumes "get_nonce ix s = Some i" "kg_nonces s' ! i = kg_nonces s ! i" "ts_ok (nh_until (kg_nonces s ! i))"
    "ts_ok t" "nsecs t < nsecs (nh_until (kg_nonces s ! i))"
  shows "validate_nonce t ix s' = Some i"
proof -
  have "get_nonce ix s' = Some i" using get_nonce_cong [OF assms(1)] assms(2) by simp
  moreover have "0 \<le> tv_sec (tssub (nh_until (kg_nonces s ! i)) t)"
    using tssub_exact [OF assms(3,4)] assms(5) unfolding nsecs_def ts_ok_def by linarith
  ultimately show ?thesis using assms(2) by (simp add: validate_nonce_def)
qed

text \<open>
  C30. The mobile node and the correspondent node derive the same key. Suppose the correspondent hands
  out a home token at time \<open>t1\<close> and a care-of token at time \<open>t2\<close>, with any further tokens handed out
  and any expired nonces regenerated by the timer thread before, between and after. A binding update
  that names the two nonce indices at time \<open>t3\<close>, less than the maximal token lifetime after both, is
  checked with exactly the binding key that the mobile node computes from the two tokens: neither
  nonce is reused, expired or replaced in the meantime.
\<close>

theorem kbm_agreement:
  assumes wf: "kg_wf s" and home: "rr_cn_keygen_token hmac t1 hoa 0 s = Some (hi, ht, s1)"
    and run1: "kg_run hmac es1 s1 = Some s2"
    and co: "rr_cn_keygen_token hmac t2 coa 1 s2 = Some (ci, ct, s3)"
    and run2: "kg_run hmac es2 s3 = Some s4"
    and times: "\<forall>t \<in> set (map kg_time (es1 @ es2)) \<union> {t1, t2, t3}. time_ok t \<and> t \<le> t3"
    and life: "nsecs t3 < nsecs t1 + MAX_TOKEN_LIFETIME * TIME_SEC_NSEC"
      "nsecs t3 < nsecs t2 + MAX_TOKEN_LIFETIME * TIME_SEC_NSEC"
  shows "rr_cn_calc_Kbm hmac sha1 t3 hi ci hoa (Some coa) s4 = Inr (rr_mn_calc_Kbm sha1 ht (Some ct))"
proof -
  have ok: "time_ok t1" "time_ok t2" "time_ok t3" using times by auto
  obtain i where i: "kg_wf s1" "i < MAX_NONCES" "get_nonce hi s1 = Some i" "tsisset (nh_until (kg_nonces s1 ! i))"
    "nsecs t1 + MAX_TOKEN_LIFETIME * TIME_SEC_NSEC \<le> nsecs (nh_until (kg_nonces s1 ! i))"
    "ht = build_kgen_token hmac (kg_key s1) hoa (nh_nonce (kg_nonces s1 ! i)) 0"
    using rr_cn_keygen_token_found [OF home wf ok(1)] by blast
  have ui: "ts_ok (nh_until (kg_nonces s1 ! i))" using i(1,2) by (simp add: kg_wf_def)
  have li: "t < nh_until (kg_nonces s1 ! i)" if "time_ok t" "t \<le> t3" for t
    using that life(1) i(5) ui ok(3) nsecs_less [of t3 "nh_until (kg_nonces s1 ! i)"]
    by (auto simp: time_ok_def)
  have 1: "kg_wf s2 \<and> kg_key s2 = kg_key s1 \<and> kg_nonces s2 ! i = kg_nonces s1 ! i"
    using times li by (intro kg_run_keeps_nonce [OF run1 i(1) _ i(2,4)]) auto
  obtain j where j: "kg_wf s3" "kg_keeps s2 s3" "j < MAX_NONCES" "get_nonce ci s3 = Some j"
    "tsisset (nh_until (kg_nonces s3 ! j))" "nsecs t2 + MAX_TOKEN_LIFETIME * TIME_SEC_NSEC \<le> nsecs (nh_until (kg_nonces s3 ! j))"
    "ct = build_kgen_token hmac (kg_key s3) coa (nh_nonce (kg_nonces s3 ! j)) 1"
    using rr_cn_keygen_token_found [OF co _ ok(2)] 1 by blast
  have uj: "ts_ok (nh_until (kg_nonces s3 ! j))" using j(1,3) by (simp add: kg_wf_def)
  have lj: "t < nh_until (kg_nonces s3 ! j)" if "time_ok t" "t \<le> t3" for t
    using that life(2) j(6) uj ok(3) nsecs_less [of t3 "nh_until (kg_nonces s3 ! j)"]
    by (auto simp: time_ok_def)
  have 2: "kg_nonces s3 ! i = kg_nonces s1 ! i" using kg_keeps_nonce [OF j(2) i(2)] 1 i(4) by simp
  have 3: "kg_key s4 = kg_key s3 \<and> kg_nonces s4 ! j = kg_nonces s3 ! j"
    using times lj kg_run_keeps_nonce [OF run2 j(1) _ j(3,5)] by auto
  have 4: "kg_nonces s4 ! i = kg_nonces s1 ! i"
    using times li kg_run_keeps_nonce [OF run2 j(1) _ i(2)] i(4) 2 by auto
  have "validate_nonce t3 hi s4 = Some i" "validate_nonce t3 ci s4 = Some j"
    using validate_nonce_kept [OF i(3) 4 ui] validate_nonce_kept [OF j(4) _ uj, of s4] 3 ok(3) life i(5) j(6)
    by (auto simp: time_ok_def)
  moreover have "kg_key s3 = kg_key s1" "kg_key s4 = kg_key s1" using 1 3 j(2) by (simp_all add: kg_keeps_def)
  ultimately show ?thesis using 3 4 i(6) j(7) by (simp add: rr_cn_calc_Kbm_def Let_def)
qed

text \<open>A token can be handed out when the oldest nonce is unused or has long enough to live.\<close>

lemma keygen_token_first:
  assumes wf: "kg_wf s" and i: "get_nonce (kg_min s) s = Some i" and le: "kg_min s \<le> kg_max s" and now: "time_ok now"
    and fresh: "\<not> tsisset (nh_until (kg_nonces s ! i)) \<or>
      MAX_TOKEN_LIFETIME * TIME_SEC_NSEC \<le> nsecs (nh_until (kg_nonces s ! i)) - nsecs now"
  shows "\<exists>tok s'. rr_cn_keygen_token hmac now addr b s = Some (kg_min s, tok, s') \<and> kg_wf s' \<and> kg_keeps s s' \<and>
    get_nonce (kg_min s') s' = Some i \<and> tsisset (nh_until (kg_nonces s' ! i)) \<and>
    (\<not> tsisset (nh_until (kg_nonces s ! i)) \<longrightarrow> nh_until (kg_nonces s' ! i) = tsadd now max_nonce_lifetime_ts)"
proof -
  have i16: "i < MAX_NONCES" by (rule get_nonce_less [OF i])
  obtain s' where s': "arm_nonce now i s = Some s'" "kg_wf s'" "kg_keeps s s'" "tsisset (nh_until (kg_nonces s' ! i))"
    "\<not> tsisset (nh_until (kg_nonces s ! i)) \<longrightarrow> nh_until (kg_nonces s' ! i) = tsadd now max_nonce_lifetime_ts"
    using arm_nonce_keeps [OF wf i16 now] by blast
  let ?u = "nh_until (kg_nonces s' ! i)"
  have "MAX_TOKEN_LIFETIME * TIME_SEC_NSEC \<le> nsecs ?u - nsecs now"
  proof (cases "tsisset (nh_until (kg_nonces s ! i))")
    case True
    then show ?thesis using fresh s'(3) i16 by (simp add: kg_keeps_def)
  next
    case False
    then show ?thesis using s'(5) nonce_expiry(3) [OF now] by simp
  qed
  moreover have "ts_ok ?u" using s'(2) i16 by (simp add: kg_wf_def)
  ultimately have "MAX_TOKEN_LIFETIME \<le> tv_sec (tssub ?u now)"
    using tssub_exact [of ?u now] now unfolding nsecs_def ts_ok_def time_ok_def by linarith
  then have "valid_nonce_loop now (kg_min s) (kg_max s) s = Some (Some i, s')"
    using le i s'(1) by (subst valid_nonce_loop.simps) simp
  moreover have idx: "nh_index (kg_nonces s' ! i) = nh_index (kg_nonces s ! i)" "kg_min s' = kg_min s"
    using s'(3) i16 by (simp_all add: kg_keeps_def)
  moreover have "nh_index (kg_nonces s ! i) = kg_min s" using i unfolding get_nonce_index by (rule conjunct1)
  moreover have "get_nonce (kg_min s') s' = Some i" using get_nonce_cong [OF i idx(1)] idx(2) by simp
  ultimately show ?thesis
    using s' by (simp add: rr_cn_keygen_token_def get_valid_nonce_def del: tsisset_zero)
qed

definition kg0 :: keygen where
  "kg0 = \<lparr>kg_nonces = map (\<lambda>i. \<lparr>nh_index = (if i = 0 then 16 else of_nat i), nh_nonce = replicate 8 (of_nat i), nh_until = tszero\<rparr>) [0..<16],
     kg_max = 16, kg_min = 1, kg_key = replicate 20 9,
     kg_tq = empty_queue\<lparr>tq_links := \<lparr>k_next = (\<lambda>p. if p = tq_list then Some tq_list else Some 0),
       k_prev = (\<lambda>p. if p = tq_list then Some tq_list else Some 0)\<rparr>\<rparr>\<rparr>"

lemma kg0_wf: "kg_wf kg0"
proof -
  have "tq_inv (kg_tq kg0) []"
    by (simp add: tq_inv_def kg0_def ring_def k_link_def empty_queue_def)
  then show ?thesis
    by (auto simp: kg_wf_def tq_wf_def kg0_def k_alloc_def empty_queue_def tszero_def ts_ok_def)
qed

lemma kg0_first: "get_nonce (kg_min kg0) kg0 = Some 1" "nh_until (kg_nonces kg0 ! 1) = tszero"
  by (simp_all add: get_nonce_index kg0_def)

theorem kbm_agreement_witness:
  "\<exists>hi ht s1 ci ct s3.
     rr_cn_keygen_token (\<lambda>k d. k @ d) (Timespec 1000 0) (replicate 16 1) 0 kg0 = Some (hi, ht, s1) \<and>
     rr_cn_keygen_token (\<lambda>k d. k @ d) (Timespec 1001 0) (replicate 16 2) 1 s1 = Some (ci, ct, s3) \<and>
     rr_cn_calc_Kbm (\<lambda>k d. k @ d) rev (Timespec 1100 0) hi ci (replicate 16 1) (Some (replicate 16 2)) s3 =
       Inr (rr_mn_calc_Kbm rev ht (Some ct))"
proof -
  let ?t1 = "Timespec 1000 0"
  let ?t2 = "Timespec 1001 0"
  have t: "time_ok ?t1" "time_ok ?t2" "time_ok (Timespec 1100 0)" by (simp_all add: time_ok_def ts_ok_def)
  obtain ht s1 where h: "rr_cn_keygen_token (\<lambda>k d. k @ d) ?t1 (replicate 16 1) 0 kg0 = Some (kg_min kg0, ht, s1)"
    "kg_wf s1" "kg_keeps kg0 s1" "get_nonce (kg_min s1) s1 = Some 1"
    "nh_until (kg_nonces s1 ! 1) = tsadd ?t1 max_nonce_lifetime_ts"
    using keygen_token_first [OF kg0_wf kg0_first(1) _ t(1), of "\<lambda>k d. k @ d" "replicate 16 1" 0] kg0_first(2)
    by (auto simp: kg0_def)
  have "kg_min s1 \<le> kg_max s1" using h(3) by (simp add: kg_keeps_def kg0_def)
  moreover have "MAX_TOKEN_LIFETIME * TIME_SEC_NSEC \<le> nsecs (nh_until (kg_nonces s1 ! 1)) - nsecs ?t2"
    using nonce_expiry(3) [OF t(1)] h(5) by (simp add: nsecs_def)
  ultimately obtain ct s3 where c: "rr_cn_keygen_token (\<lambda>k d. k @ d) ?t2 (replicate 16 2) 1 s1 = Some (kg_min s1, ct, s3)"
    using keygen_token_first [OF h(2,4) _ t(2), of "\<lambda>k d. k @ d" "replicate 16 2" 1] by blast
  have "rr_cn_calc_Kbm (\<lambda>k d. k @ d) rev (Timespec 1100 0) (kg_min kg0) (kg_min s1) (replicate 16 1) (Some (replicate 16 2)) s3 =
       Inr (rr_mn_calc_Kbm rev ht (Some ct))"
    by (rule kbm_agreement [OF kg0_wf h(1) kg_run.simps(1) c kg_run.simps(1)])
      (use t in \<open>auto simp: nsecs_def less_eq_timespec_def\<close>)
  then show ?thesis using h(1) c by blast
qed

fun regens :: "(nat \<times> bytes) list \<Rightarrow> keygen \<Rightarrow> keygen" where
  "regens [] s = s"
| "regens ((i, rnd) # rs) s = regens rs (nonce_regen rnd i s)"

lemma regens_counters:
  "kg_min (regens rs s) = kg_min s + of_nat (length rs) \<and> kg_max (regens rs s) = kg_max s + of_nat (length rs)"
  by (induction rs s rule: regens.induct) (simp_all add: nonce_regen_def Let_def algebra_simps)

lemma nonce_init_loop_counters:
  "nonce_init_loop rnd is s = (0, s') \<Longrightarrow> kg_min s' = 1 \<and> kg_max s' = 16"
  by (induction rnd "is" s rule: nonce_init_loop.induct) (auto split: option.splits)

text \<open>
  C39. The nonce counters wrap into a crash. The counters of the oldest and the newest nonce are 16 bit
  integers, and the search runs from the one up to the other. After 65520 regenerations the newest
  has wrapped to zero while the oldest has not: the search finds nothing, and the next request for a
  token dereferences the null pointer it returns. Regenerations come at most every thirty seconds
  under load, so a busy node gets there after some twenty-three days.
\<close>

theorem nonce_counter_wrap:
  assumes "nonce_init True rnd s = (0, s0)" "length rs = 65520"
  shows "rr_cn_keygen_token hmac now addr b (regens rs s0) = None"
proof -
  let ?s = "regens rs s0"
  have "kg_min s0 = 1 \<and> kg_max s0 = 16"
    using nonce_init_loop_counters [of rnd "[1..<Suc MAX_NONCES]" s s0] assms(1) by (simp add: nonce_init_def)
  then have "kg_min ?s = 65521" "kg_max ?s = 0" using regens_counters [of rs s0] assms(2) by simp_all
  then show ?thesis
    by (simp add: rr_cn_keygen_token_def get_valid_nonce_def valid_nonce_loop.simps [of now 65521 0])
qed

theorem nonce_counter_wrap_witness:
  "rr_cn_keygen_token (\<lambda>k d. d) (Timespec 1 0) (replicate 16 1) 0
     (regens (replicate 65520 (0, [])) (snd (nonce_init True (\<lambda>_. Some []) kg0))) = None"
proof -
  have "nonce_init_loop (\<lambda>_. Some []) is s = (0, snd (nonce_init_loop (\<lambda>_. Some []) is s))" for "is" s
    by (induction "\<lambda>_ :: nat. Some ([] :: bytes)" "is" s rule: nonce_init_loop.induct) auto
  then have "nonce_init True (\<lambda>_. Some []) kg0 = (0, snd (nonce_init True (\<lambda>_. Some []) kg0))"
    unfolding nonce_init_def by simp
  then show ?thesis by (rule nonce_counter_wrap) simp
qed

end
