(* ===== verification/Prefix.thy ===== *)
theory Prefix
  imports Hash Timespec
begin

text \<open>
  IPv6 prefixes of the Mobile IPv6 daemon (\<open>src/protocols/umip/src/prefix.h\<close>, \<open>prefix.c\<close> and the
  address helpers of \<open>util.h\<close>): masking, joining and comparing prefixes, prefix lists, and lifetimes.
  Bits of an address are counted from the left, as prefix lengths do. A prefix list is the list of
  its entries, the abstraction that the ring lemmas justify.
\<close>

record prefix_list_entry =
  ple_timestamp :: timespec
  ple_plen :: u8
  ple_flags :: u8
  ple_valid_time :: u32
  ple_prefd_time :: u32
  ple_prefix :: in6_addr

definition prefix_lft_infinite :: "u32 \<Rightarrow> bool" where
  "prefix_lft_infinite lft \<longleftrightarrow> lft = 0xFFFFFFFF"

text \<open>The masks \<open>0xff00 >> b\<close> and \<open>0x00ff >> b\<close> applied to a byte.\<close>

definition mask_hi :: "nat \<Rightarrow> u8 \<Rightarrow> u8" where
  "mask_hi b x = ucast ((ucast x :: u16) AND drop_bit b 0xff00)"

definition mask_lo :: "nat \<Rightarrow> u8 \<Rightarrow> u8" where
  "mask_lo b x = ucast ((ucast x :: u16) AND drop_bit b 0x00ff)"

definition ipv6_addr_prefix :: "in6_addr \<Rightarrow> int \<Rightarrow> in6_addr" where
  "ipv6_addr_prefix addr plen =
     (let pl = (if plen < 0 then 0 else if plen > 128 then 128 else nat plen);
          o' = pl div 8; b = pl mod 8
      in if b \<noteq> 0 then take o' addr @ [mask_hi b (addr ! o')] @ replicate (16 - Suc o') 0
         else take o' addr @ replicate (16 - o') 0)"

definition ipv6_addr_create :: "in6_addr \<Rightarrow> in6_addr \<Rightarrow> int \<Rightarrow> in6_addr" where
  "ipv6_addr_create pfx sfx plen =
     (let pl = (if plen > 128 \<or> plen < 0 then 0 else nat plen);
          o' = pl div 8; b = pl mod 8
      in if b \<noteq> 0 then take o' pfx @ [mask_hi b (pfx ! o') OR mask_lo b (sfx ! o')] @ drop (Suc o') sfx
         else take o' pfx @ drop o' sfx)"

fun memcmp :: "bytes \<Rightarrow> bytes \<Rightarrow> nat \<Rightarrow> int" where
  "memcmp (x # xs) (y # ys) (Suc n) = (if x = y then memcmp xs ys n else uint x - uint y)"
| "memcmp _ _ _ = 0"

text \<open>The comparison does not clamp the length: more than 128 bits read past the addresses.\<close>

definition ipv6_pfx_cmp :: "in6_addr \<Rightarrow> in6_addr \<Rightarrow> nat \<Rightarrow> int cres" where
  "ipv6_pfx_cmp p1 p2 plen =
     (let o' = plen div 8; b = plen mod 8 in
      if o' > 16 then None
      else let res = memcmp p1 p2 o' in
        if res \<noteq> 0 \<or> b = 0 then Some res
        else if o' \<ge> 16 then None
        else Some (uint (mask_hi b (p1 ! o' XOR p2 ! o'))))"

definition prefix_list_free :: "prefix_list_entry list \<Rightarrow> prefix_list_entry list" where
  "prefix_list_free pl = []"

fun prefix_list_get_loop ::
  "in6_addr \<Rightarrow> int \<Rightarrow> prefix_list_entry option \<Rightarrow> prefix_list_entry list \<Rightarrow> prefix_list_entry option cres" where
  "prefix_list_get_loop addr plen p1 [] = Some p1"
| "prefix_list_get_loop addr plen p1 (p2 # pl) =
     (case ipv6_pfx_cmp (ple_prefix p2) addr (unat (ple_plen p2)) of
        None \<Rightarrow> None
      | Some r \<Rightarrow>
          if r = 0 then
            if plen > 0 then
              if uint (ple_plen p2) = plen then Some (Some p2)
              else prefix_list_get_loop addr plen p1 pl
            else if (case p1 of None \<Rightarrow> True | Some p \<Rightarrow> ple_plen p < ple_plen p2)
              then prefix_list_get_loop addr plen (Some p2) pl
            else prefix_list_get_loop addr plen p1 pl
          else prefix_list_get_loop addr plen p1 pl)"

definition prefix_list_get :: "prefix_list_entry list \<Rightarrow> in6_addr \<Rightarrow> int \<Rightarrow> prefix_list_entry option cres" where
  "prefix_list_get pl addr plen = prefix_list_get_loop addr plen None pl"

definition prefix_list_find :: "prefix_list_entry list \<Rightarrow> in6_addr \<Rightarrow> int \<Rightarrow> bool cres" where
  "prefix_list_find pl addr plen = do { r \<leftarrow> prefix_list_get pl addr plen; Some (r \<noteq> None) }"

definition prefix_list_len :: "prefix_list_entry list \<Rightarrow> nat" where
  "prefix_list_len pl = foldl (\<lambda>res _. res + 1) 0 pl"

text \<open>The inner search of \<open>prefix_list_cmp\<close>.\<close>

fun prefix_match :: "prefix_list_entry \<Rightarrow> prefix_list_entry list \<Rightarrow> bool cres" where
  "prefix_match p1 [] = Some False"
| "prefix_match p1 (p2 # pl) =
     (if ple_plen p1 \<noteq> ple_plen p2 then prefix_match p1 pl
      else case ipv6_pfx_cmp (ple_prefix p1) (ple_prefix p2) (unat (ple_plen p1)) of
        None \<Rightarrow> None
      | Some r \<Rightarrow> if r \<noteq> 0 then prefix_match p1 pl else Some True)"

fun prefix_list_cmp_loop :: "prefix_list_entry list \<Rightarrow> prefix_list_entry list \<Rightarrow> bool cres" where
  "prefix_list_cmp_loop [] pl2 = Some True"
| "prefix_list_cmp_loop (p1 # pl1) pl2 =
     (case prefix_match p1 pl2 of
        None \<Rightarrow> None
      | Some m \<Rightarrow> if m then prefix_list_cmp_loop pl1 pl2 else Some False)"

definition prefix_list_cmp :: "prefix_list_entry list \<Rightarrow> prefix_list_entry list \<Rightarrow> bool cres" where
  "prefix_list_cmp pl1 pl2 =
     (if prefix_list_len pl1 \<noteq> prefix_list_len pl2 then Some False else prefix_list_cmp_loop pl1 pl2)"

text \<open>Copying appends to \<open>pl2\<close>; when memory runs out all of \<open>pl2\<close> is freed. \<open>mem\<close> says, entry by
  entry, whether there is memory.\<close>

fun prefix_list_copy_loop ::
  "bool list \<Rightarrow> int \<Rightarrow> prefix_list_entry list \<Rightarrow> prefix_list_entry list \<Rightarrow> int \<times> prefix_list_entry list" where
  "prefix_list_copy_loop mem res [] pl2 = (res, pl2)"
| "prefix_list_copy_loop mem res (p1 # pl1) pl2 =
     (if mem \<noteq> [] \<and> \<not> hd mem then (-1, prefix_list_free pl2)
      else prefix_list_copy_loop (tl mem) (res + 1) pl1 (pl2 @ [p1]))"

definition prefix_list_copy ::
  "bool list \<Rightarrow> prefix_list_entry list \<Rightarrow> prefix_list_entry list \<Rightarrow> int \<times> prefix_list_entry list" where
  "prefix_list_copy mem pl1 pl2 = prefix_list_copy_loop mem 0 pl1 pl2"

text \<open>The remaining lifetime; a time stamp in the future makes the unsigned difference huge.\<close>

definition mpd_curr_lft :: "timespec \<Rightarrow> timespec \<Rightarrow> nat \<Rightarrow> nat" where
  "mpd_curr_lft now tstamp lft =
     (if prefix_lft_infinite (of_nat lft) then lft
      else let tmp = tssub now tstamp;
               diff = nat ((tv_sec tmp + (if tv_nsec tmp > 0 then 1 else 0)) mod 2 ^ 64)
        in if lft > diff then lft - diff else 0)"

definition dhaad_gen_suffix :: in6_addr where
  "dhaad_gen_suffix = replicate 15 0xff @ [0xfe]"

definition dhaad_eui64_suffix :: in6_addr where
  "dhaad_eui64_suffix = replicate 8 0 @ [0xfd] @ replicate 6 0xff @ [0xfe]"

definition dhaad_gen_ha_anycast :: "in6_addr \<Rightarrow> int \<Rightarrow> in6_addr" where
  "dhaad_gen_ha_anycast pfx plen =
     ipv6_addr_create pfx (if plen = 64 then dhaad_eui64_suffix else dhaad_gen_suffix) plen"

text \<open>The seconds of a binding lifetime, capped and rounded down to the unit of four seconds.\<close>

definition mpd_sanitize_lft :: "timespec \<Rightarrow> timespec" where
  "mpd_sanitize_lft lft =
     Timespec (int (min (nat (tv_sec lft mod 2 ^ 64)) 0x3fffc AND 0x3fffc)) 0"

section \<open>Address helpers\<close>

definition ipv6_addr_solict_mult :: "in6_addr \<Rightarrow> in6_addr" where
  "ipv6_addr_solict_mult addr =
     [0xff, 0x02, 0, 0] @ replicate 4 0 @ [0, 0, 0, 1] @ [0xff OR addr ! 12] @ drop 13 addr"

definition ipv6_addr_llocal :: "in6_addr \<Rightarrow> in6_addr" where
  "ipv6_addr_llocal addr = [0xfe, 0x80, 0, 0] @ replicate 4 0 @ drop 8 addr"

definition in6_is_addr_routable_unicast :: "in6_addr \<Rightarrow> bool" where
  "in6_is_addr_routable_unicast a \<longleftrightarrow>
     a \<noteq> replicate 16 0 \<and> a \<noteq> replicate 15 0 @ [1] \<and> a ! 0 \<noteq> 0xff \<and>
     \<not> (a ! 0 = 0xfe \<and> a ! 1 AND 0xc0 = 0x80)"

section \<open>Bits\<close>

definition addr_bit :: "in6_addr \<Rightarrow> nat \<Rightarrow> bool" where
  "addr_bit a i = bit (a ! (i div 8)) (7 - i mod 8)"

lemma mask_ff00: "(0xff00 :: u16) = push_bit 8 (mask 8)"
  by (simp add: mask_eq_exp_minus_1 push_bit_eq_mult)

lemma mask_00ff: "(0x00ff :: u16) = mask 8"
  by (simp add: mask_eq_exp_minus_1)

lemma bit_mask_hi: "b \<le> 8 \<Longrightarrow> bit (mask_hi b x) k \<longleftrightarrow> 8 - b \<le> k \<and> bit x k"
  unfolding mask_hi_def mask_ff00 by (auto simp: bit_simps dest: bit_imp_le_length)

lemma bit_mask_lo: "bit (mask_lo b x) k \<longleftrightarrow> b + k < 8 \<and> bit x k"
  unfolding mask_lo_def mask_00ff by (auto simp: bit_simps dest: bit_imp_le_length)

lemma octet_less: "i < n \<longleftrightarrow> i div 8 < n div 8 \<or> i div 8 = n div 8 \<and> i mod 8 < n mod (8 :: nat)"
proof -
  have "i = 8 * (i div 8) + i mod 8" "n = 8 * (n div 8) + n mod 8" "i mod 8 < 8" "n mod 8 < 8" by simp_all
  then show ?thesis by linarith
qed

lemma memcmp_zero:
  "o' \<le> length p1 \<Longrightarrow> o' \<le> length p2 \<Longrightarrow> memcmp p1 p2 o' = 0 \<longleftrightarrow> (\<forall>j < o'. p1 ! j = p2 ! j)"
proof (induction p1 p2 o' rule: memcmp.induct)
  case (1 x xs y ys n)
  have "uint x - uint y = 0 \<longleftrightarrow> x = y" by (simp add: word_uint_eq_iff)
  then show ?case using 1 by (auto simp: less_Suc_eq_0_disj)
qed auto

lemma byte_eq_bits: "(x :: u8) = y \<longleftrightarrow> (\<forall>k < 8. bit x (7 - k) = bit y (7 - k))"
proof
  assume *: "\<forall>k < 8. bit x (7 - k) = bit y (7 - k)"
  show "x = y"
  proof (rule bit_word_eqI)
    fix n assume "n < LENGTH(8)"
    then show "bit x n = bit y n" using *[rule_format, of "7 - n"] by simp
  qed
qed simp

lemma mask_hi_zero: "b \<le> 8 \<Longrightarrow> mask_hi b x = 0 \<longleftrightarrow> (\<forall>k < b. \<not> bit x (7 - k))"
  unfolding byte_eq_bits [of "mask_hi b x"] by (auto simp: bit_mask_hi)

lemma addr_bits_octets:
  "(\<forall>i < n. addr_bit a i = addr_bit c i) \<longleftrightarrow>
     (\<forall>j < n div 8. a ! j = c ! j) \<and> (\<forall>k < n mod 8. bit (a ! (n div 8)) (7 - k) = bit (c ! (n div 8)) (7 - k))"
  (is "?L \<longleftrightarrow> ?R")
proof
  assume L: ?L
  have "bit (a ! j) (7 - k) = bit (c ! j) (7 - k)" if "j < n div 8" "k < 8" for j k
    using L [rule_format, of "8 * j + k"] that by (simp add: addr_bit_def octet_less [of _ n])
  then have "a ! j = c ! j" if "j < n div 8" for j
    using that unfolding byte_eq_bits by blast
  moreover have "bit (a ! (n div 8)) (7 - k) = bit (c ! (n div 8)) (7 - k)" if "k < n mod 8" for k
    using L [rule_format, of "8 * (n div 8) + k"] that by (simp add: addr_bit_def octet_less [of _ n])
  ultimately show ?R by blast
next
  assume ?R
  then show ?L by (auto simp: addr_bit_def octet_less [of _ n])
qed

lemma ipv6_pfx_cmp_bits:
  assumes "in6_ok p1" "in6_ok p2" "plen \<le> 128"
  shows "\<exists>r. ipv6_pfx_cmp p1 p2 plen = Some r \<and> (r = 0 \<longleftrightarrow> (\<forall>i < plen. addr_bit p1 i = addr_bit p2 i))"
proof -
  let ?o = "plen div 8" let ?b = "plen mod 8"
  have o: "?o \<le> 16" "?b \<noteq> 0 \<Longrightarrow> ?o < 16" using assms(3) by presburger+
  have m: "memcmp p1 p2 ?o = 0 \<longleftrightarrow> (\<forall>j < ?o. p1 ! j = p2 ! j)"
    using memcmp_zero [of ?o p1 p2] o(1) assms by (simp add: in6_ok_def)
  have b: "mask_hi ?b (p1 ! ?o XOR p2 ! ?o) = 0 \<longleftrightarrow> (\<forall>k < ?b. bit (p1 ! ?o) (7 - k) = bit (p2 ! ?o) (7 - k))"
    by (subst mask_hi_zero) (auto simp: bit_simps)
  show ?thesis
  proof (cases "memcmp p1 p2 ?o \<noteq> 0 \<or> ?b = 0")
    case True
    then show ?thesis using o(1) m addr_bits_octets [of plen p1 p2] by (auto simp: ipv6_pfx_cmp_def Let_def)
  next
    case False
    then have "ipv6_pfx_cmp p1 p2 plen = Some (uint (mask_hi ?b (p1 ! ?o XOR p2 ! ?o)))"
      using o by (simp add: ipv6_pfx_cmp_def Let_def)
    moreover have "uint (mask_hi ?b (p1 ! ?o XOR p2 ! ?o)) = 0 \<longleftrightarrow> mask_hi ?b (p1 ! ?o XOR p2 ! ?o) = 0"
      by (simp add: uint_0_iff)
    ultimately show ?thesis using False m b addr_bits_octets [of plen p1 p2] by auto
  qed
qed

text \<open>The octets of a masked and of a joined address.\<close>

lemma octet_split: "(pl :: nat) \<le> 128 \<Longrightarrow> pl div 8 \<le> 16 \<and> (pl mod 8 \<noteq> 0 \<longrightarrow> pl div 8 < 16)"
  by presburger

lemma mask_bounds:
  "k < 8 \<Longrightarrow> b < 8 \<Longrightarrow> 8 - b \<le> 7 - k \<longleftrightarrow> k < (b :: nat)"
  "k < 8 \<Longrightarrow> b + (7 - k) < 8 \<longleftrightarrow> b \<le> (k :: nat)"
  by arith+

lemma ipv6_addr_create_octets:
  assumes "in6_ok pfx" "in6_ok sfx" "pl \<le> 128" "j < 16"
  shows "ipv6_addr_create pfx sfx (int pl) ! j =
    (if j < pl div 8 then pfx ! j
     else if j = pl div 8 \<and> pl mod 8 \<noteq> 0 then mask_hi (pl mod 8) (pfx ! j) OR mask_lo (pl mod 8) (sfx ! j)
     else sfx ! j)"
  using assms octet_split [OF assms(3)]
  by (auto simp: ipv6_addr_create_def Let_def in6_ok_def nth_append min_def)

lemma ipv6_addr_prefix_octets:
  assumes "in6_ok a" "pl \<le> 128" "j < 16"
  shows "ipv6_addr_prefix a (int pl) ! j =
    (if j < pl div 8 then a ! j else if j = pl div 8 \<and> pl mod 8 \<noteq> 0 then mask_hi (pl mod 8) (a ! j) else 0)"
  using assms octet_split [OF assms(2)]
  by (auto simp: ipv6_addr_prefix_def Let_def in6_ok_def nth_append min_def nth_Cons')

lemma ipv6_addr_create_bits:
  assumes "in6_ok pfx" "in6_ok sfx" "pl \<le> 128" "i < 128"
  shows "addr_bit (ipv6_addr_create pfx sfx (int pl)) i = (if i < pl then addr_bit pfx i else addr_bit sfx i)"
proof -
  have "i div 8 < 16" "pl mod 8 < 8" "i mod 8 < 8" using assms(4) by auto
  then show ?thesis
    using ipv6_addr_create_octets [OF assms(1-3), of "i div 8"] octet_less [of i pl]
    by (auto simp: addr_bit_def bit_simps bit_mask_hi bit_mask_lo mask_bounds)
qed

lemma ipv6_addr_prefix_bits:
  assumes "in6_ok a" "pl \<le> 128" "i < 128"
  shows "addr_bit (ipv6_addr_prefix a (int pl)) i \<longleftrightarrow> i < pl \<and> addr_bit a i"
proof -
  have "i div 8 < 16" "pl mod 8 < 8" "i mod 8 < 8" using assms(3) by auto
  then show ?thesis
    using ipv6_addr_prefix_octets [OF assms(1,2), of "i div 8"] octet_less [of i pl]
    by (auto simp: addr_bit_def bit_mask_hi mask_bounds)
qed

text \<open>
  C36. Prefix arithmetic is right to the bit. For a length up to 128, masking an address keeps
  exactly its first bits and clears the others; joining a prefix and a suffix takes the first bits
  from the one and the rest from the other; and the comparison reports equality exactly when the
  first bits agree, so an address always matches its own prefix and the addresses made from it.
\<close>

theorem prefix_ops_bits:
  assumes "in6_ok p" "in6_ok q" "pl \<le> 128"
  shows "(\<forall>i < 128. addr_bit (ipv6_addr_prefix p (int pl)) i \<longleftrightarrow> i < pl \<and> addr_bit p i) \<and>
    (\<forall>i < 128. addr_bit (ipv6_addr_create p q (int pl)) i = (if i < pl then addr_bit p i else addr_bit q i)) \<and>
    (\<exists>r. ipv6_pfx_cmp p q pl = Some r \<and> (r = 0 \<longleftrightarrow> (\<forall>i < pl. addr_bit p i = addr_bit q i))) \<and>
    ipv6_pfx_cmp p (ipv6_addr_create p q (int pl)) pl = Some 0"
proof -
  have "in6_ok (ipv6_addr_create p q (int pl))"
    using assms octet_split [OF assms(3)] by (auto simp: ipv6_addr_create_def Let_def in6_ok_def)
  then obtain r where "ipv6_pfx_cmp p (ipv6_addr_create p q (int pl)) pl = Some r"
    "r = 0 \<longleftrightarrow> (\<forall>i < pl. addr_bit p i = addr_bit (ipv6_addr_create p q (int pl)) i)"
    using ipv6_pfx_cmp_bits [OF assms(1) _ assms(3)] by blast
  then show ?thesis
    using ipv6_addr_prefix_bits [OF assms(1,3)] ipv6_addr_create_bits [OF assms] ipv6_pfx_cmp_bits [OF assms] assms(3)
    by auto
qed

theorem prefix_ops_bits_witness:
  "ipv6_pfx_cmp (replicate 16 0x2a) (ipv6_addr_create (replicate 16 0x2a) (replicate 16 0xff) (int 61)) 61 = Some 0"
  using prefix_ops_bits [of "replicate 16 0x2a" "replicate 16 0xff" 61] by (simp add: in6_ok_def)

section \<open>Prefix lists\<close>

text \<open>An entry matches an address when its prefix bits agree.\<close>

definition ple_matches :: "in6_addr \<Rightarrow> prefix_list_entry \<Rightarrow> bool" where
  "ple_matches a p \<longleftrightarrow> (\<forall>i < unat (ple_plen p). addr_bit (ple_prefix p) i = addr_bit a i)"

definition ple_ok :: "prefix_list_entry \<Rightarrow> bool" where
  "ple_ok p \<longleftrightarrow> in6_ok (ple_prefix p) \<and> unat (ple_plen p) \<le> 128"

lemma prefix_list_get_step:
  assumes "ple_ok p" "in6_ok a" "plen \<le> 0"
  shows "prefix_list_get_loop a plen best (p # pl) =
    (if ple_matches a p \<and> (case best of None \<Rightarrow> True | Some b \<Rightarrow> ple_plen b < ple_plen p)
     then prefix_list_get_loop a plen (Some p) pl else prefix_list_get_loop a plen best pl)"
  using ipv6_pfx_cmp_bits [of "ple_prefix p" a "unat (ple_plen p)"] assms
  by (auto simp: ple_ok_def ple_matches_def)

definition candidates :: "in6_addr \<Rightarrow> prefix_list_entry option \<Rightarrow> prefix_list_entry list \<Rightarrow> prefix_list_entry set" where
  "candidates a best pl = set_option best \<union> {p \<in> set pl. ple_matches a p}"

definition longest_of :: "prefix_list_entry set \<Rightarrow> prefix_list_entry option \<Rightarrow> bool" where
  "longest_of C r = (case r of None \<Rightarrow> C = {} | Some b \<Rightarrow> b \<in> C \<and> (\<forall>p \<in> C. ple_plen p \<le> ple_plen b))"

lemma longest_of_insert:
  "longest_of C r \<Longrightarrow> y \<in> C \<Longrightarrow> ple_plen x \<le> ple_plen y \<Longrightarrow> longest_of (insert x C) r"
  by (auto simp: longest_of_def split: option.splits intro: order_trans)

lemma prefix_list_get_loop_longest:
  assumes "\<forall>p \<in> set pl. ple_ok p" "in6_ok a" "plen \<le> 0"
  shows "\<exists>r. prefix_list_get_loop a plen best pl = Some r \<and> longest_of (candidates a best pl) r"
  using assms(1)
proof (induction pl arbitrary: best)
  case Nil
  then show ?case by (cases best) (simp_all add: candidates_def longest_of_def)
next
  case (Cons p pl)
  note step = prefix_list_get_step [of p a plen best pl]
  have IH: "\<exists>r. prefix_list_get_loop a plen b pl = Some r \<and> longest_of (candidates a b pl) r" for b
    using Cons by simp
  consider "\<not> ple_matches a p" | "ple_matches a p" "best = None"
    | b where "ple_matches a p" "best = Some b" "ple_plen b < ple_plen p"
    | b where "ple_matches a p" "best = Some b" "ple_plen p \<le> ple_plen b"
    by (cases best) (auto simp: not_less [symmetric])
  then show ?case
  proof cases
    case 1
    then have "candidates a best (p # pl) = candidates a best pl" by (auto simp: candidates_def)
    then show ?thesis using step IH [of best] 1 Cons.prems assms(2,3) by simp
  next
    case 2
    then have "candidates a best (p # pl) = candidates a (Some p) pl" by (auto simp: candidates_def)
    then show ?thesis using step IH [of "Some p"] 2 Cons.prems assms(2,3) by simp
  next
    case 3
    then have "candidates a best (p # pl) = insert b (candidates a (Some p) pl)" by (auto simp: candidates_def)
    moreover have "p \<in> candidates a (Some p) pl" by (simp add: candidates_def)
    ultimately show ?thesis
      using step IH [of "Some p"] 3 Cons.prems assms(2,3) longest_of_insert [of _ _ p b] by fastforce
  next
    case 4
    then have "candidates a best (p # pl) = insert p (candidates a (Some b) pl)" by (auto simp: candidates_def)
    moreover have "b \<in> candidates a (Some b) pl" by (simp add: candidates_def)
    ultimately show ?thesis
      using step IH [of "Some b"] 4 Cons.prems assms(2,3) longest_of_insert [of _ _ b p] by fastforce
  qed
qed

text \<open>
  C37. Looking up an address in a prefix list without giving a length finds the longest match: nothing
  exactly when no entry matches, and otherwise a matching entry that no matching entry exceeds in
  length.
\<close>

theorem prefix_list_get_longest:
  assumes "\<forall>p \<in> set pl. ple_ok p" "in6_ok a"
  shows "\<exists>r. prefix_list_get pl a 0 = Some r \<and> (r = None \<longleftrightarrow> (\<forall>p \<in> set pl. \<not> ple_matches a p)) \<and>
    (\<forall>b. r = Some b \<longrightarrow> b \<in> set pl \<and> ple_matches a b \<and> (\<forall>p \<in> set pl. ple_matches a p \<longrightarrow> ple_plen p \<le> ple_plen b))"
proof -
  obtain r where r: "prefix_list_get pl a 0 = Some r" "longest_of {p \<in> set pl. ple_matches a p} r"
    using prefix_list_get_loop_longest [OF assms, of 0 None] by (auto simp: prefix_list_get_def candidates_def)
  show ?thesis
  proof (cases r)
    case None
    then show ?thesis using r by (auto simp: longest_of_def)
  next
    case (Some b)
    then show ?thesis using r by (auto simp: longest_of_def)
  qed
qed

theorem prefix_list_get_longest_witness:
  "\<exists>r. prefix_list_get [\<lparr>ple_timestamp = tszero, ple_plen = 64, ple_flags = 0, ple_valid_time = 0,
       ple_prefd_time = 0, ple_prefix = replicate 16 1\<rparr>] (replicate 16 1) 0 = Some r \<and> r \<noteq> None"
  using prefix_list_get_longest [of "[\<lparr>ple_timestamp = tszero, ple_plen = 64, ple_flags = 0, ple_valid_time = 0,
       ple_prefd_time = 0, ple_prefix = replicate 16 1\<rparr>]" "replicate 16 1"]
  by (auto simp: ple_ok_def in6_ok_def ple_matches_def)

end
