(* ===== verification/Mh.thy ===== *)
theory Mh
  imports Prefix
begin

text \<open>
  Mobility header messages (\<open>src/protocols/umip/src/mh.c\<close>, \<open>mh.h\<close>): building, padding, signing and
  sending them, parsing their options, verifying them, and dispatching them to handlers. A message
  is its bytes; an \<open>iovec\<close> array is a list of byte blocks. HMAC-SHA1 is a parameter.
\<close>

abbreviation (input) EINVAL :: int where "EINVAL \<equiv> 22"
abbreviation (input) IP6_MH_TYPE_MAX :: nat where "IP6_MH_TYPE_MAX \<equiv> 7"
abbreviation (input) IP6_MHOPT_MAX :: nat where "IP6_MHOPT_MAX \<equiv> 6"
abbreviation (input) MIPV6_DIGEST_LEN :: nat where "MIPV6_DIGEST_LEN \<equiv> 12"
abbreviation (input) IPPROTO_NONE :: u8 where "IPPROTO_NONE \<equiv> 59"

abbreviation (input) IP6_MH_TYPE_BRR :: u8 where "IP6_MH_TYPE_BRR \<equiv> 0"
abbreviation (input) IP6_MH_TYPE_HOT :: u8 where "IP6_MH_TYPE_HOT \<equiv> 3"
abbreviation (input) IP6_MH_TYPE_COT :: u8 where "IP6_MH_TYPE_COT \<equiv> 4"
abbreviation (input) IP6_MH_TYPE_BU :: u8 where "IP6_MH_TYPE_BU \<equiv> 5"
abbreviation (input) IP6_MH_TYPE_BACK :: u8 where "IP6_MH_TYPE_BACK \<equiv> 6"
abbreviation (input) IP6_MH_TYPE_BERROR :: u8 where "IP6_MH_TYPE_BERROR \<equiv> 7"

abbreviation (input) IP6_MHOPT_PAD1 :: u8 where "IP6_MHOPT_PAD1 \<equiv> 0"
abbreviation (input) IP6_MHOPT_PADN :: u8 where "IP6_MHOPT_PADN \<equiv> 1"
abbreviation (input) IP6_MHOPT_BREFRESH :: u8 where "IP6_MHOPT_BREFRESH \<equiv> 2"
abbreviation (input) IP6_MHOPT_ALTCOA :: u8 where "IP6_MHOPT_ALTCOA \<equiv> 3"
abbreviation (input) IP6_MHOPT_NONCEID :: u8 where "IP6_MHOPT_NONCEID \<equiv> 4"
abbreviation (input) IP6_MHOPT_BAUTH :: u8 where "IP6_MHOPT_BAUTH \<equiv> 5"
abbreviation (input) IP6_MHOPT_MOB_NET_PRFX :: u8 where "IP6_MHOPT_MOB_NET_PRFX \<equiv> 6"

text \<open>Sequence numbers compare modulo the 16 bit circle.\<close>

definition MIP6_SEQ_GT :: "u16 \<Rightarrow> u16 \<Rightarrow> bool" where
  "MIP6_SEQ_GT x y \<longleftrightarrow> sint (x - y) > 0"

record in6_addr_bundle =
  ab_src :: in6_addr
  ab_dst :: in6_addr
  ab_local_coa :: "in6_addr option"
  ab_remote_coa :: "in6_addr option"
  ab_bind_coa :: "in6_addr option"

text \<open>Offsets of the first and the last option of each type; zero stands for none.\<close>

record mh_options =
  mo_opts :: "nat \<Rightarrow> nat"
  mo_end :: "nat \<Rightarrow> nat"

section \<open>Handlers\<close>

text \<open>The lists of handlers, by type, with their next pointers; zero is the null pointer.\<close>

record mh_handlers =
  mh_heads :: "nat \<Rightarrow> nat"
  mh_next :: "nat \<Rightarrow> nat"

definition mh_type_map :: "u8 \<Rightarrow> nat" where
  "mh_type_map t = (if unat t < Suc IP6_MH_TYPE_MAX then unat t else Suc IP6_MH_TYPE_MAX)"

definition mh_handler_get :: "u8 \<Rightarrow> mh_handlers \<Rightarrow> nat" where
  "mh_handler_get t s = mh_heads s (mh_type_map t)"

definition mh_handler_reg :: "u8 \<Rightarrow> nat \<Rightarrow> mh_handlers \<Rightarrow> mh_handlers cres" where
  "mh_handler_reg t h s =
     (if mh_next s h \<noteq> 0 then None
      else Some (s\<lparr>mh_next := (mh_next s)(h := mh_heads s (mh_type_map t)),
                   mh_heads := (mh_heads s)(mh_type_map t := h)\<rparr>))"

text \<open>The pointer that is followed is the head of the list at first, then the next of an element.\<close>

partial_function (option) dereg_loop :: "nat \<Rightarrow> nat \<Rightarrow> mh_handlers \<Rightarrow> mh_handlers cres" where
  "dereg_loop h p s =
     (if mh_next s p = 0 then Some s
      else if mh_next s p = h then Some (s\<lparr>mh_next := (mh_next s)(p := mh_next s h, h := 0)\<rparr>)
      else dereg_loop h (mh_next s p) s)"

definition mh_handler_dereg :: "u8 \<Rightarrow> nat \<Rightarrow> mh_handlers \<Rightarrow> mh_handlers cres" where
  "mh_handler_dereg t h s =
     (let i = mh_type_map t in
      if mh_heads s i = 0 then Some s
      else if mh_heads s i = h then Some (s\<lparr>mh_heads := (mh_heads s)(i := mh_next s h), mh_next := (mh_next s)(h := 0)\<rparr>)
      else dereg_loop h (mh_heads s i) s)"

section \<open>Building messages\<close>

definition mh_len_table :: "nat list" where
  "mh_len_table = [8, 16, 16, 24, 24, 12, 12, 24]"

text \<open>\<open>ok\<close> says whether there is memory; the fields set are the protocol and the type.\<close>

definition mh_create :: "bool \<Rightarrow> u8 \<Rightarrow> bytes option" where
  "mh_create ok t =
     (if unat t > IP6_MH_TYPE_MAX \<or> \<not> ok then None
      else Some ([IPPROTO_NONE, 0, t, 0, 0, 0] @ replicate (mh_len_table ! unat t - 6) 0))"

text \<open>The interval is stored in host order, here little-endian.\<close>

definition mh_create_opt_refresh_advice :: "u16 \<Rightarrow> bytes" where
  "mh_create_opt_refresh_advice interval = [IP6_MHOPT_BREFRESH, 2, lo8 interval, hi8 interval]"

definition mh_create_opt_altcoa :: "in6_addr \<Rightarrow> bytes" where
  "mh_create_opt_altcoa addr = [IP6_MHOPT_ALTCOA, 16] @ addr"

definition mh_create_opt_nonce_index :: "u16 \<Rightarrow> u16 \<Rightarrow> bytes" where
  "mh_create_opt_nonce_index home coa =
     [IP6_MHOPT_NONCEID, 4, hi8 home, lo8 home, hi8 coa, lo8 coa]"

definition mh_create_opt_auth_data :: bytes where
  "mh_create_opt_auth_data = [IP6_MHOPT_BAUTH, of_nat MIPV6_DIGEST_LEN] @ replicate MIPV6_DIGEST_LEN 0"

definition create_opt_pad :: "nat \<Rightarrow> bytes" where
  "create_opt_pad pad =
     (if pad = 0 then [] else if pad = 1 then [0] else [IP6_MHOPT_PADN, of_nat (pad - 2)] @ replicate (pad - 2) 0)"

text \<open>
  The prefixes of a list, padded in between. The buffer is sized for \<open>mnp_count\<close> of them and the
  rest stays zero; a longer list is written past its end. Without any the size is negative and
  the allocation fails.
\<close>

fun mob_net_opts :: "nat \<Rightarrow> nat \<Rightarrow> prefix_list_entry list \<Rightarrow> bytes" where
  "mob_net_opts cnt i [] = []"
| "mob_net_opts cnt i (p # ps) =
     [IP6_MHOPT_MOB_NET_PRFX, 18, 0, ple_plen p] @ ple_prefix p @
     (if Suc i < cnt then create_opt_pad 4 else []) @ mob_net_opts cnt (Suc i) ps"

definition mh_create_opt_mob_net_prefix :: "nat \<Rightarrow> prefix_list_entry list \<Rightarrow> bytes option cres" where
  "mh_create_opt_mob_net_prefix cnt mnps =
     (if cnt = 0 then Some None
      else let optlen = cnt * 20 + (cnt - 1) * 4; d = mob_net_opts cnt 0 mnps
        in if length d > optlen then None else Some (Some (d @ replicate (optlen - length d) 0)))"

definition mh_length :: "bytes list \<Rightarrow> nat" where
  "mh_length vec = sum_list (map length vec)"

definition optpad :: "int \<Rightarrow> int \<Rightarrow> nat \<Rightarrow> nat" where
  "optpad xn y offset = nat ((y - int offset) AND (xn - 1))"

text \<open>The padding an option needs; for an option of another type the last padding is repeated.\<close>

definition opt_pad_for :: "u8 \<Rightarrow> nat \<Rightarrow> nat \<Rightarrow> nat" where
  "opt_pad_for t len pad =
     (if t = IP6_MHOPT_BREFRESH then optpad 2 0 len
      else if t = IP6_MHOPT_ALTCOA then optpad 8 6 len
      else if t = IP6_MHOPT_NONCEID then optpad 2 0 len
      else if t = IP6_MHOPT_BAUTH then optpad 8 2 len
      else if t = IP6_MHOPT_MOB_NET_PRFX then optpad 8 4 len
      else pad)"

fun try_pad_loop :: "nat \<Rightarrow> nat \<Rightarrow> bytes list \<Rightarrow> bytes list" where
  "try_pad_loop len pad [] = []"
| "try_pad_loop len pad (opt # opts) =
     (let p = opt_pad_for (opt ! 0) len pad
      in (if p > 0 then [create_opt_pad p] else []) @ [opt] @ try_pad_loop (len + p + length opt) p opts)"

definition mh_try_pad :: "bytes list \<Rightarrow> bytes list" where
  "mh_try_pad vec =
     hd vec # try_pad_loop (length (hd vec)) 0 (tl vec) @
     (if tl vec = [] then [create_opt_pad (optpad 8 0 (length (hd vec)))] else [])"

definition calculate_auth_data ::
  "(bytes \<Rightarrow> bytes \<Rightarrow> bytes) \<Rightarrow> bytes list \<Rightarrow> in6_addr \<Rightarrow> in6_addr \<Rightarrow> bytes \<Rightarrow> bytes" where
  "calculate_auth_data hmac iov coa cn key = take MIPV6_DIGEST_LEN (hmac key (coa @ cn @ concat iov))"

text \<open>
  \<open>msg\<close> is the receive buffer, of which \<open>len\<close> bytes were received. The parser does not check that the body
  of the last option ends within these; the comparison then goes on in the rest of the buffer, and
  where \<open>msg\<close> is given without that rest it covers the bytes there are.
\<close>

definition mh_verify_auth_data ::
  "(bytes \<Rightarrow> bytes \<Rightarrow> bytes) \<Rightarrow> bytes \<Rightarrow> nat \<Rightarrow> nat \<Rightarrow> in6_addr \<Rightarrow> in6_addr \<Rightarrow> bytes \<Rightarrow> int" where
  "mh_verify_auth_data hmac msg len opt coa cn key =
     (let n = unat (msg ! Suc opt);
          adata = calculate_auth_data hmac [take (len - n) msg] coa cn key
      in if memcmp adata (drop (opt + 2) msg) n \<noteq> 0 then -1 else 0)"

section \<open>Sending\<close>

record mh_packet =
  mp_src :: in6_addr
  mp_dst :: in6_addr
  mp_rth :: "in6_addr option"
  mp_oif :: int
  mp_data :: bytes

text \<open>
  \<open>mem\<close> says whether the control buffer can be allocated. The digest goes into the last block when
  that is authorization data. The vector of the padded message has room for fourteen blocks.
\<close>

definition sign_last :: "(bytes \<Rightarrow> bytes \<Rightarrow> bytes) \<Rightarrow> in6_addr \<Rightarrow> in6_addr \<Rightarrow> bytes \<Rightarrow> bytes list \<Rightarrow> bytes list" where
  "sign_last hmac coa cn key iov =
     (let l = last iov in
      if l ! 0 = IP6_MHOPT_BAUTH
      then butlast iov @
        [take (length l - MIPV6_DIGEST_LEN) l @
         calculate_auth_data hmac (butlast iov @ [take (length l - MIPV6_DIGEST_LEN) l]) coa cn key]
      else iov)"

definition mh_send ::
  "(bytes \<Rightarrow> bytes \<Rightarrow> bytes) \<Rightarrow> bool \<Rightarrow> in6_addr_bundle \<Rightarrow> bytes list \<Rightarrow> bytes option \<Rightarrow> int \<Rightarrow> mh_packet option cres" where
  "mh_send hmac mem addrs vec bind_key oif =
     (let padded = mh_try_pad vec;
          hdr = (hd padded)[1 := of_nat (mh_length padded div 8) - 1];
          iov = hdr # tl padded
      in if length padded > 2 * Suc IP6_MHOPT_MAX then None
         else do {
           iov \<leftarrow> (case bind_key of
               None \<Rightarrow> Some iov
             | Some key \<Rightarrow>
                 if length iov \<le> 1 then None
                 else do {
                   coa \<leftarrow> ab_bind_coa addrs;
                   Some (sign_last hmac coa (if hdr ! 2 = IP6_MH_TYPE_BU then ab_dst addrs else ab_src addrs) key iov) });
           Some (if \<not> mem then None
             else Some \<lparr>mp_src = ab_src addrs, mp_dst = ab_dst addrs, mp_rth = ab_remote_coa addrs,
                         mp_oif = oif, mp_data = concat iov\<rparr>) })"

section \<open>Parsing options\<close>

definition mh_opts_dup_ok :: "nat \<Rightarrow> bool" where
  "mh_opts_dup_ok t = ([True, True, False, False, False, False, True] ! t)"

text \<open>Whether the length of an option, its header included, is wrong for its type.\<close>

definition mh_opt_len_chk :: "u8 \<Rightarrow> nat \<Rightarrow> bool" where
  "mh_opt_len_chk t len =
     (if t = IP6_MHOPT_BREFRESH then len \<noteq> 4
      else if t = IP6_MHOPT_ALTCOA then len \<noteq> 18
      else if t = IP6_MHOPT_NONCEID then len \<noteq> 6
      else if t = IP6_MHOPT_BAUTH then len \<noteq> 14
      else if t = IP6_MHOPT_MOB_NET_PRFX then len \<noteq> 20
      else False)"

text \<open>
  The loop over the bytes at \<open>i\<close>, of which \<open>left\<close> remain. The result is the number of options or a
  negative error, with the offsets recorded so far.
\<close>

lemma uint_octet_bound [termination_simp]: "- 2 < uint (w :: u8)"
  by (rule less_le_trans [OF _ unsigned_greater_eq]) simp

function opt_parse_loop ::
  "bytes \<Rightarrow> nat \<Rightarrow> int \<Rightarrow> bool \<Rightarrow> int \<Rightarrow> mh_options \<Rightarrow> int \<times> mh_options" where
  "opt_parse_loop msg i left bauth ret mo =
     (if left \<le> 0 then (ret, mo)
      else if bauth then (- EINVAL, mo)
      else let t = msg ! i; n = unat (msg ! Suc i) + 2 in
        if t = IP6_MHOPT_PAD1 then opt_parse_loop msg (Suc i) (left - 1) bauth ret mo
        else if left < 2 \<or> mh_opt_len_chk t n then (- EINVAL, mo)
        else if t = IP6_MHOPT_PADN then opt_parse_loop msg (i + n) (left - int n) bauth ret mo
        else if unat t \<le> IP6_MHOPT_MAX then
          if mo_opts mo (unat t) = 0 then
            opt_parse_loop msg (i + n) (left - int n) (t = IP6_MHOPT_BAUTH) (ret + 1)
              (mo\<lparr>mo_opts := (mo_opts mo)(unat t := i)\<rparr>)
          else if mh_opts_dup_ok (unat t) then
            opt_parse_loop msg (i + n) (left - int n) (t = IP6_MHOPT_BAUTH) (ret + 1)
              (mo\<lparr>mo_end := (mo_end mo)(unat t := i)\<rparr>)
          else (- EINVAL, mo)
        else opt_parse_loop msg (i + n) (left - int n) bauth ret mo)"
  by pat_completeness auto
termination
  by (relation "measure (\<lambda>(msg, i, left, bauth, ret, mo). nat left)") (auto simp: uint_octet_bound)

definition no_opts :: mh_options where
  "no_opts = \<lparr>mo_opts = (\<lambda>_. 0), mo_end = (\<lambda>_. 0)\<rparr>"

definition mh_opt_parse :: "bytes \<Rightarrow> int \<Rightarrow> nat \<Rightarrow> int \<times> mh_options" where
  "mh_opt_parse msg len offset = opt_parse_loop msg offset (len - int offset) False 0 no_opts"

definition mh_opt :: "mh_options \<Rightarrow> u8 \<Rightarrow> nat option" where
  "mh_opt mo t = (if mo_opts mo (unat t) \<noteq> 0 then Some (mo_opts mo (unat t)) else None)"

text \<open>The next option of the type of the one at \<open>i\<close>, up to the last one of that type.\<close>

function opt_next_loop :: "bytes \<Rightarrow> u8 \<Rightarrow> nat \<Rightarrow> nat \<Rightarrow> nat option" where
  "opt_next_loop msg t i lst =
     (if i < lst then
        let j = (if msg ! i = IP6_MHOPT_PAD1 then Suc i else i + unat (msg ! Suc i) + 2)
        in if j \<le> lst \<and> msg ! j = t then Some j else opt_next_loop msg t j lst
      else None)"
  by pat_completeness auto
termination
  by (relation "measure (\<lambda>(msg, t, i, lst). lst - i)") (auto split: if_splits)

definition mh_opt_next :: "bytes \<Rightarrow> mh_options \<Rightarrow> nat option \<Rightarrow> nat option" where
  "mh_opt_next msg mo opt =
     (case opt of None \<Rightarrow> None
      | Some i \<Rightarrow> opt_next_loop msg (msg ! i) i (mo_end mo (unat (msg ! i))))"

section \<open>Receiving\<close>

text \<open>
  What the socket delivers with a packet: the ancillary data of \<open>recvmsg\<close> as the kernel gives it,
  with the home address option and the first routing header segment already located (by
  \<open>inet6_opt_find\<close> and \<open>inet6_rth_getaddr\<close>).
\<close>

datatype cmsg = Pktinfo in6_addr int | Hao "in6_addr option" | Rth2 "in6_addr option" | Other_cmsg

definition unspecified :: in6_addr where "unspecified = replicate 16 0"

definition is_loopback :: "in6_addr \<Rightarrow> bool" where
  "is_loopback a \<longleftrightarrow> a = replicate 15 0 @ [1]"

definition is_multicast :: "in6_addr \<Rightarrow> bool" where
  "is_multicast a \<longleftrightarrow> a ! 0 = 0xff"

record rcvd =
  rc_dst :: in6_addr
  rc_iif :: int
  rc_hao :: in6_addr
  rc_rt :: in6_addr

fun recv_cmsg :: "cmsg \<Rightarrow> rcvd \<Rightarrow> rcvd" where
  "recv_cmsg (Pktinfo d i) r = r\<lparr>rc_dst := d, rc_iif := i\<rparr>"
| "recv_cmsg (Hao a) r = (case a of None \<Rightarrow> r | Some h \<Rightarrow> r\<lparr>rc_hao := h\<rparr>)"
| "recv_cmsg (Rth2 a) r = (case a of None \<Rightarrow> r | Some h \<Rightarrow> r\<lparr>rc_rt := h\<rparr>)"
| "recv_cmsg Other_cmsg r = r"

text \<open>A binding error, unless the destination is not unicast.\<close>

definition mh_send_be ::
  "(bytes \<Rightarrow> bytes \<Rightarrow> bytes) \<Rightarrow> bool \<Rightarrow> bool \<Rightarrow> in6_addr \<Rightarrow> in6_addr option \<Rightarrow> in6_addr \<Rightarrow> u8 \<Rightarrow> int \<Rightarrow> mh_packet list cres" where
  "mh_send_be hmac ok mem dst hoa src status iif =
     (if dst = unspecified \<or> is_loopback dst \<or> is_multicast dst then Some []
      else case mh_create ok IP6_MH_TYPE_BERROR of
        None \<Rightarrow> Some []
      | Some be \<Rightarrow> do {
          r \<leftarrow> mh_send hmac mem \<lparr>ab_src = src, ab_dst = dst, ab_local_coa = None, ab_remote_coa = None, ab_bind_coa = None\<rparr>
                 [take 6 be @ [status, 0] @ (case hoa of None \<Rightarrow> drop 8 be | Some h \<Rightarrow> h)] None iif;
          Some (case r of None \<Rightarrow> [] | Some p \<Rightarrow> [p]) })"

text \<open>
  The part of \<open>mh_recv\<close> after a successful \<open>recvmsg\<close> of \<open>len\<close> bytes into the buffer \<open>msg\<close>: the result
  code, the addresses, and a binding error sent for an unknown type.
\<close>

definition mh_recv ::
  "(bytes \<Rightarrow> bytes \<Rightarrow> bytes) \<Rightarrow> bool \<Rightarrow> bool \<Rightarrow> bytes \<Rightarrow> int \<Rightarrow> in6_addr \<Rightarrow> rcvd \<Rightarrow> cmsg list \<Rightarrow> (int \<times> rcvd \<times> mh_packet list) cres" where
  "mh_recv hmac ok mem msg len from r0 cms =
     (let r = fold recv_cmsg cms (r0\<lparr>rc_hao := unspecified, rc_rt := unspecified\<rparr>) in
      if unat (msg ! 2) > IP6_MH_TYPE_MAX then do {
        be \<leftarrow> mh_send_be hmac ok mem
                (if rc_hao r \<noteq> unspecified then rc_hao r else from)
                (if rc_hao r \<noteq> unspecified then Some from else None)
                (if rc_rt r \<noteq> unspecified then rc_rt r else rc_dst r) 2 (rc_iif r);
        Some (- EINVAL, r, be) }
      else Some (len, r, []))"

text \<open>
  The listener's work on one packet: \<open>None\<close> inside when it is dropped, else the handler called and the
  addresses it gets.
\<close>

definition mh_listen_one :: "mh_handlers \<Rightarrow> bytes \<Rightarrow> int \<Rightarrow> in6_addr \<Rightarrow> rcvd \<Rightarrow> (nat \<times> in6_addr_bundle) option" where
  "mh_listen_one hs msg len from r =
     (if len < 6 then None
      else let h = mh_handler_get (msg ! 2) hs in
        if h = 0 then None
        else Some (h, \<lparr>ab_src = from, ab_dst = rc_dst r,
          ab_local_coa = (if rc_rt r \<noteq> unspecified then Some (rc_rt r) else None),
          ab_remote_coa = (if rc_hao r \<noteq> unspecified then Some (rc_hao r) else None),
          ab_bind_coa = None\<rparr>))"

section \<open>Binding messages\<close>

text \<open>
  A refresh request, sent only when the route was used lately: \<open>last_used\<close> is the answer of the kernel
  and the threshold is sixty seconds.
\<close>

definition mh_send_brr ::
  "(bytes \<Rightarrow> bytes \<Rightarrow> bytes) \<Rightarrow> bool \<Rightarrow> bool \<Rightarrow> int \<Rightarrow> in6_addr \<Rightarrow> in6_addr \<Rightarrow> mh_packet list cres" where
  "mh_send_brr hmac ok mem last_used mn_addr local =
     (if last_used < 0 \<or> last_used > 60 then Some []
      else case mh_create ok IP6_MH_TYPE_BRR of
        None \<Rightarrow> Some []
      | Some b \<Rightarrow> do {
          r \<leftarrow> mh_send hmac mem \<lparr>ab_src = local, ab_dst = mn_addr, ab_local_coa = None, ab_remote_coa = None, ab_bind_coa = None\<rparr>
                 [b] None 0;
          Some (case r of None \<Rightarrow> [] | Some p \<Rightarrow> [p]) })"

text \<open>
  A binding acknowledgement. \<open>refresh\<close> is the advice of the policy module, if it gives one; it is
  consulted for a success when the binding cache is volatile.
\<close>

definition mh_send_ba ::
  "(bytes \<Rightarrow> bytes \<Rightarrow> bytes) \<Rightarrow> bool \<Rightarrow> bool \<Rightarrow> bool \<Rightarrow> timespec option \<Rightarrow> in6_addr_bundle \<Rightarrow> u8 \<Rightarrow> u8 \<Rightarrow> u16 \<Rightarrow>
     timespec \<Rightarrow> bytes option \<Rightarrow> int \<Rightarrow> mh_packet list cres" where
  "mh_send_ba hmac ok mem nonvolatile refresh addrs status flags sequence lifetime key iif =
     (case mh_create ok IP6_MH_TYPE_BACK of
        None \<Rightarrow> Some []
      | Some b \<Rightarrow>
          (let lft = of_int (tv_sec lifetime div 4) :: u16;
               ba = take 6 b @ [status, flags, hi8 sequence, lo8 sequence, hi8 lft, lo8 lft];
               adv = (if unat status < 128 \<and> \<not> nonvolatile
                      then (case refresh of
                              Some t \<Rightarrow> if tsbefore lifetime t
                                then [mh_create_opt_refresh_advice (of_int (tv_sec t))] else []
                            | None \<Rightarrow> []) else []);
               auth = (case key of None \<Rightarrow> [] | Some _ \<Rightarrow> [mh_create_opt_auth_data])
           in do {
             r \<leftarrow> mh_send hmac mem addrs ([ba] @ adv @ auth) key iif;
             Some (case r of None \<Rightarrow> [] | Some p \<Rightarrow> [p]) }))"

definition mh_send_ba_err ::
  "(bytes \<Rightarrow> bytes \<Rightarrow> bytes) \<Rightarrow> bool \<Rightarrow> bool \<Rightarrow> bool \<Rightarrow> timespec option \<Rightarrow> in6_addr_bundle \<Rightarrow> u8 \<Rightarrow> u8 \<Rightarrow> u16 \<Rightarrow>
     bytes option \<Rightarrow> int \<Rightarrow> mh_packet list cres" where
  "mh_send_ba_err hmac ok mem nonvolatile refresh addrs status flags seqno key iif =
     mh_send_ba hmac ok mem nonvolatile refresh addrs status flags seqno tszero key iif"

text \<open>The address inside an alternate care-of address option.\<close>

definition altcoa_addr :: "bytes \<Rightarrow> nat \<Rightarrow> in6_addr" where
  "altcoa_addr msg opt = take 16 (drop (opt + 2) msg)"

record bu_parsed =
  bp_out :: in6_addr_bundle
  bp_opts :: mh_options
  bp_lft :: timespec

text \<open>
  The parser of binding updates; \<open>exists\<close> tells whether the binding cache has an entry for two addresses.
  \<open>None\<close> inside is the result -1.
\<close>

definition mh_bu_parse ::
  "(in6_addr \<Rightarrow> in6_addr \<Rightarrow> bool cres) \<Rightarrow> bytes \<Rightarrow> int \<Rightarrow> in6_addr_bundle \<Rightarrow> bu_parsed option cres" where
  "mh_bu_parse exists bu len inb =
     (if len < 12 then Some None
      else let (n, mo) = mh_opt_parse bu len 12;
               peer = ab_src inb;
               bind = (case mh_opt mo IP6_MHOPT_ALTCOA of
                         Some i \<Rightarrow> Some (altcoa_addr bu i) | None \<Rightarrow> ab_remote_coa inb);
               out = \<lparr>ab_src = ab_dst inb, ab_dst = peer, ab_local_coa = None,
                      ab_remote_coa = (if ab_remote_coa inb = Some peer then None else ab_remote_coa inb),
                      ab_bind_coa = (case bind of None \<Rightarrow> Some peer | Some c \<Rightarrow> Some c)\<rparr>;
               home = \<lparr>bp_out = out, bp_opts = mo, bp_lft = tszero\<rparr>
        in if n < 0 \<or> \<not> in6_is_addr_routable_unicast peer then Some None
           else (case bind of
               None \<Rightarrow> Some (Some home)
             | Some c \<Rightarrow>
                 if \<not> in6_is_addr_routable_unicast c then Some None
                 else if c = peer then Some (Some home)
                 else do {
                   circular \<leftarrow> exists (ab_dst inb) c;
                   Some (if circular then None
                         else Some (home\<lparr>bp_lft := tssetsec (uint (be16 (bu ! 10) (bu ! 11)) * 4)\<rparr>)) }))"

declare opt_parse_loop.simps [simp del] opt_next_loop.simps [simp del]

section \<open>Handler lists\<close>

text \<open>The list of handlers that starts at \<open>p\<close>. Deregistration ends on every list.\<close>

fun handler_chain :: "(nat \<Rightarrow> nat) \<Rightarrow> nat \<Rightarrow> nat list \<Rightarrow> bool" where
  "handler_chain nx p [] \<longleftrightarrow> p = 0"
| "handler_chain nx p (h # hs) \<longleftrightarrow> p = h \<and> h \<noteq> 0 \<and> handler_chain nx (nx h) hs"

lemma dereg_loop_returns:
  "handler_chain (mh_next s) (mh_next s p) hs \<Longrightarrow> \<exists>s'. dereg_loop h p s = Some s'"
  by (induction hs arbitrary: p) (simp_all add: dereg_loop.simps)

lemma mh_handler_dereg_returns:
  assumes "handler_chain (mh_next s) (mh_heads s (mh_type_map t)) hs"
  shows "\<exists>s'. mh_handler_dereg t h s = Some s'"
  using assms dereg_loop_returns [of s "mh_heads s (mh_type_map t)" "tl hs" h]
  by (cases hs) (auto simp: mh_handler_dereg_def Let_def)

section \<open>Padding and parsing\<close>

lemma optpad_mod:
  "optpad 8 y len = nat ((y - int len) mod 8)" "optpad 2 y len = nat ((y - int len) mod 2)"
proof -
  have "x AND 7 = take_bit 3 x" "x AND 1 = take_bit 1 x" for x :: int
    by (simp_all add: take_bit_eq_mask mask_eq_exp_minus_1)
  then have "x AND 7 = x mod 8" "x AND 1 = x mod 2" for x :: int
    by (simp_all add: take_bit_eq_mod)
  then show "optpad 8 y len = nat ((y - int len) mod 8)" "optpad 2 y len = nat ((y - int len) mod 2)"
    by (simp_all add: optpad_def)
qed

lemma optpad_aligned:
  "0 \<le> y \<Longrightarrow> y < 8 \<Longrightarrow> (len + optpad 8 y len) mod 8 = nat y"
  "0 \<le> y \<Longrightarrow> y < 2 \<Longrightarrow> (len + optpad 2 y len) mod 2 = nat y"
proof -
  have *: "(len + nat ((y - int len) mod m)) mod nat m = nat y" if "0 \<le> y" "y < m" for m
  proof -
    have "int ((len + nat ((y - int len) mod m)) mod nat m) = (int len + (y - int len) mod m) mod m"
      using that by (simp add: zmod_int)
    also have "\<dots> = y" using that by (simp add: mod_add_right_eq)
    finally show ?thesis using that by linarith
  qed
  show "0 \<le> y \<Longrightarrow> y < 8 \<Longrightarrow> (len + optpad 8 y len) mod 8 = nat y"
    "0 \<le> y \<Longrightarrow> y < 2 \<Longrightarrow> (len + optpad 2 y len) mod 2 = nat y"
    using *[of 8] *[of 2] by (simp_all add: optpad_mod)
qed

lemma optpad_less: "optpad 8 y len < 8" "optpad 2 y len < 8"
proof -
  have "(y - int len) mod 8 < 8" "(y - int len) mod 2 < 2" by simp_all
  then show "optpad 8 y len < 8" "optpad 2 y len < 8" unfolding optpad_mod by linarith+
qed

text \<open>An option as the creation functions make it, and the alignment its type asks for.\<close>

definition opt_wf :: "bytes \<Rightarrow> bool" where
  "opt_wf opt \<longleftrightarrow> (opt ! 0, length opt) \<in> {(2, 4), (3, 18), (4, 6), (5, 14), (6, 20)} \<and> opt ! 1 = of_nat (length opt - 2)"

definition opt_aligned :: "u8 \<Rightarrow> nat \<Rightarrow> bool" where
  "opt_aligned t off \<longleftrightarrow>
     (if t = IP6_MHOPT_ALTCOA then off mod 8 = 6 else if t = IP6_MHOPT_BAUTH then off mod 8 = 2
      else if t = IP6_MHOPT_MOB_NET_PRFX then off mod 8 = 4 else off mod 2 = 0)"

lemma created_opts_wf:
  "opt_wf (mh_create_opt_refresh_advice i)" "in6_ok a \<Longrightarrow> opt_wf (mh_create_opt_altcoa a)"
  "opt_wf (mh_create_opt_nonce_index h c)" "opt_wf mh_create_opt_auth_data"
  by (simp_all add: opt_wf_def mh_create_opt_refresh_advice_def mh_create_opt_altcoa_def in6_ok_def
      mh_create_opt_nonce_index_def mh_create_opt_auth_data_def)

lemma opt_pad_for_wf:
  assumes "opt_wf opt"
  shows "opt_pad_for (opt ! 0) len pad < 8" "opt_aligned (opt ! 0) (len + opt_pad_for (opt ! 0) len pad)"
  using assms optpad_less [of _ len] optpad_aligned(1) [of 6 len] optpad_aligned(1) [of 2 len]
    optpad_aligned(1) [of 4 len] optpad_aligned(2) [of 0 len]
  by (auto simp: opt_wf_def opt_pad_for_def opt_aligned_def)

lemma length_create_opt_pad [simp]: "length (create_opt_pad p) = p"
  by (auto simp: create_opt_pad_def)

lemma parse_pad:
  assumes "p < 8" "int p \<le> left"
  shows "opt_parse_loop (pre @ create_opt_pad p @ post) (length pre) left False ret mo =
    opt_parse_loop (pre @ create_opt_pad p @ post) (length pre + p) (left - int p) False ret mo"
proof -
  have u: "unat (of_nat (p - 2) :: u8) = p - 2" using assms(1) by (simp add: unat_of_nat take_bit_nat_eq_self)
  consider "p = 0" | "p = 1" | "2 \<le> p" by linarith
  then show ?thesis
  proof cases
    case 1
    then show ?thesis by (simp add: create_opt_pad_def)
  next
    case 2
    have "(pre @ [0] @ post) ! length pre = 0" by simp
    then show ?thesis
      using 2 assms by (subst opt_parse_loop.simps) (simp add: create_opt_pad_def Let_def)
  next
    case 3
    let ?msg = "pre @ create_opt_pad p @ post"
    have m: "?msg ! length pre = 1" "?msg ! Suc (length pre) = of_nat (p - 2)"
      using 3 by (auto simp: create_opt_pad_def nth_append)
    have n: "unat (?msg ! Suc (length pre)) + 2 = p" using m(2) u 3 by simp
    have "\<not> mh_opt_len_chk 1 p" by (simp add: mh_opt_len_chk_def)
    then show ?thesis
      using 3 assms by (subst opt_parse_loop.simps) (simp only: n Let_def m(1), simp)
  qed
qed

lemma opt_wf_fields:
  assumes "opt_wf opt"
  shows "unat (opt ! 1) + 2 = length opt" "\<not> mh_opt_len_chk (opt ! 0) (length opt)" "2 \<le> length opt"
    "opt ! 0 \<noteq> 0" "opt ! 0 \<noteq> 1" "unat (opt ! 0) \<le> IP6_MHOPT_MAX"
  using assms by (auto simp: opt_wf_def mh_opt_len_chk_def)

lemma parse_opt:
  assumes wf: "opt_wf opt" and left: "int (length opt) \<le> left" and new: "mo_opts mo (unat (opt ! 0)) = 0"
  shows "opt_parse_loop (pre @ opt @ post) (length pre) left False ret mo =
    opt_parse_loop (pre @ opt @ post) (length pre + length opt) (left - int (length opt)) (opt ! 0 = IP6_MHOPT_BAUTH)
      (ret + 1) (mo\<lparr>mo_opts := (mo_opts mo)(unat (opt ! 0) := length pre)\<rparr>)"
proof -
  note f = opt_wf_fields [OF wf]
  let ?msg = "pre @ opt @ post"
  have m: "?msg ! length pre = opt ! 0" "?msg ! Suc (length pre) = opt ! 1"
    using f(3) by (auto simp: nth_append Suc_diff_le)
  have n: "unat (?msg ! Suc (length pre)) + 2 = length opt" using m(2) f(1) by simp
  show ?thesis
    using f left new by (subst opt_parse_loop.simps) (simp only: n Let_def m(1), simp)
qed

text \<open>The padded options with the bytes before them, and where the parser finds each.\<close>

definition padded :: "bytes \<Rightarrow> nat \<Rightarrow> bytes list \<Rightarrow> bytes" where
  "padded pre pad opts = pre @ concat (try_pad_loop (length pre) pad opts)"

definition opt_found :: "bytes \<Rightarrow> mh_options \<Rightarrow> bytes \<Rightarrow> bool" where
  "opt_found msg mo opt \<longleftrightarrow> (\<exists>i. mh_opt mo (opt ! 0) = Some i \<and> opt_aligned (opt ! 0) i \<and> take (length opt) (drop i msg) = opt)"

definition opts_ok :: "bytes list \<Rightarrow> bool" where
  "opts_ok opts \<longleftrightarrow> (\<forall>opt \<in> set opts. opt_wf opt) \<and> distinct (map (\<lambda>opt. opt ! 0) opts) \<and>
     (\<forall>opt \<in> set (butlast opts). opt ! 0 \<noteq> IP6_MHOPT_BAUTH)"

lemma create_opt_pad_zero [simp]: "create_opt_pad 0 = []"
  by (simp add: create_opt_pad_def)

lemma padded_Cons:
  "padded pre pad (opt # opts) =
     (let p = opt_pad_for (opt ! 0) (length pre) pad in padded (pre @ create_opt_pad p @ opt) p opts)"
  by (simp add: padded_def Let_def add.assoc)

lemma padded_prefix: "\<exists>rest. padded pre pad opts = pre @ rest"
  by (simp add: padded_def)

lemma opts_ok_Cons:
  "opts_ok (opt # opts) \<Longrightarrow> opt_wf opt \<and> opts_ok opts \<and> (\<forall>x \<in> set opts. x ! 0 \<noteq> opt ! 0) \<and> (opt ! 0 = IP6_MHOPT_BAUTH \<longrightarrow> opts = [])"
  by (auto simp: opts_ok_def image_iff split: if_splits)

lemma opt_found_at:
  "0 < length pre \<Longrightarrow> mo_opts mo (unat (opt ! 0)) = length pre \<Longrightarrow> opt_aligned (opt ! 0) (length pre) \<Longrightarrow>
     opt_found (pre @ opt @ post) mo opt"
  by (simp add: opt_found_def mh_opt_def)

lemma parse_padded:
  assumes "opts_ok opts" "\<forall>opt \<in> set opts. mo_opts mo (unat (opt ! 0)) = 0" "0 < length pre"
  shows "\<exists>mo'. opt_parse_loop (padded pre pad opts) (length pre) (int (length (padded pre pad opts)) - int (length pre)) False ret mo =
      (ret + int (length opts), mo') \<and> (\<forall>opt \<in> set opts. opt_found (padded pre pad opts) mo' opt) \<and>
    (\<forall>t. t \<notin> (\<lambda>opt. unat (opt ! 0)) ` set opts \<longrightarrow> mo_opts mo' t = mo_opts mo t) \<and>
    (opts \<noteq> [] \<longrightarrow> mo_opts mo' (unat (last opts ! 0)) + length (last opts) = length (padded pre pad opts))"
  using assms
proof (induction opts arbitrary: pre pad ret mo)
  case Nil
  then show ?case by (simp add: padded_def opt_parse_loop.simps)
next
  case (Cons opt opts)
  define p where "p = opt_pad_for (opt ! 0) (length pre) pad"
  let ?pre1 = "pre @ create_opt_pad p"
  let ?pre2 = "pre @ create_opt_pad p @ opt"
  let ?mo1 = "mo\<lparr>mo_opts := (mo_opts mo)(unat (opt ! 0) := length ?pre1)\<rparr>"
  let ?msg = "padded ?pre2 p opts"
  note ok = opts_ok_Cons [OF Cons.prems(1)]
  have msg: "padded pre pad (opt # opts) = ?msg" by (simp add: padded_Cons p_def Let_def)
  obtain rest where rest: "?msg = ?pre2 @ rest" using padded_prefix by blast
  have al: "p < 8" "opt_aligned (opt ! 0) (length ?pre1)" using opt_pad_for_wf [of opt "length pre" pad] ok by (simp_all add: p_def)
  have "opt_parse_loop ?msg (length pre) (int (length ?msg) - int (length pre)) False ret mo =
      opt_parse_loop ?msg (length ?pre1) (int (length ?msg) - int (length ?pre1)) False ret mo"
    using parse_pad [OF al(1), of "int (length ?msg) - int (length pre)" pre "opt @ rest" ret mo]
    unfolding rest by (simp add: algebra_simps)
  also have "\<dots> = opt_parse_loop ?msg (length ?pre2) (int (length ?msg) - int (length ?pre2)) (opt ! 0 = IP6_MHOPT_BAUTH) (ret + 1) ?mo1"
    using parse_opt [of opt "int (length ?msg) - int (length ?pre1)" mo ?pre1 rest ret] ok Cons.prems(2)
    unfolding rest by (simp add: algebra_simps)
  finally have step: "opt_parse_loop ?msg (length pre) (int (length ?msg) - int (length pre)) False ret mo =
    opt_parse_loop ?msg (length ?pre2) (int (length ?msg) - int (length ?pre2)) (opt ! 0 = IP6_MHOPT_BAUTH) (ret + 1) ?mo1" .
  show ?case
  proof (cases "opts = []")
    case True
    have "?msg = ?pre2" using True by (simp add: padded_def)
    moreover have "opt_parse_loop ?pre2 (length ?pre2) 0 (opt ! 0 = IP6_MHOPT_BAUTH) (ret + 1) ?mo1 = (ret + 1, ?mo1)"
      by (subst opt_parse_loop.simps) simp
    moreover have "opt_found ?pre2 ?mo1 opt"
      using opt_found_at [of ?pre1 ?mo1 opt "[]"] al(2) Cons.prems(3) by simp
    ultimately show ?thesis using step True unfolding msg by (intro exI [of _ ?mo1]) simp
  next
    case False
    have inj: "unat (x ! 0) \<noteq> unat (opt ! 0)" if "x \<in> set opts" for x using ok that by (auto simp: word_unat_eq_iff)
    then obtain mo' where mo': "opt_parse_loop ?msg (length ?pre2) (int (length ?msg) - int (length ?pre2)) False (ret + 1) ?mo1 =
        (ret + 1 + int (length opts), mo')" "\<forall>x \<in> set opts. opt_found ?msg mo' x"
      "\<forall>t. t \<notin> (\<lambda>opt. unat (opt ! 0)) ` set opts \<longrightarrow> mo_opts mo' t = mo_opts ?mo1 t"
      "mo_opts mo' (unat (last opts ! 0)) + length (last opts) = length ?msg"
      using Cons.IH [of ?mo1 ?pre2 p "ret + 1"] ok Cons.prems False by auto
    have "unat (opt ! 0) \<notin> (\<lambda>opt. unat (opt ! 0)) ` set opts" using inj by force
    then have "mo_opts mo' (unat (opt ! 0)) = length ?pre1" using mo'(3) by simp
    then have "opt_found ?msg mo' opt"
      using opt_found_at [of ?pre1 mo' opt rest] al(2) Cons.prems(3) unfolding rest by simp
    then show ?thesis using step mo' ok False unfolding msg by (intro exI [of _ mo']) auto
  qed
qed

section \<open>Signed messages\<close>

lemma try_pad_loop_last:
  "l' ! 0 = l ! 0 \<Longrightarrow>
     try_pad_loop len pad (os @ [l]) \<noteq> [] \<and> last (try_pad_loop len pad (os @ [l])) = l \<and>
     butlast (try_pad_loop len pad (os @ [l])) @ [l'] = try_pad_loop len pad (os @ [l'])"
  by (induction os arbitrary: len pad) (auto simp: Let_def butlast_append)

text \<open>The block the sender puts in place of the empty authorization data.\<close>

definition signed_opt :: "(bytes \<Rightarrow> bytes \<Rightarrow> bytes) \<Rightarrow> bytes \<Rightarrow> bytes list \<Rightarrow> in6_addr \<Rightarrow> in6_addr \<Rightarrow> bytes \<Rightarrow> bytes" where
  "signed_opt hmac hdr os coa cn key =
     [IP6_MHOPT_BAUTH, 12] @
     take 12 (hmac key (coa @ cn @ padded hdr 0 (os @ [[IP6_MHOPT_BAUTH, 12]])))"

lemma mh_send_signed:
  assumes send: "mh_send hmac True addrs (hdr # os @ [mh_create_opt_auth_data]) (Some key) oif = Some (Some pkt)"
    and coa: "ab_bind_coa addrs = Some coa"
    and cn: "cn = (if hdr ! 2 = IP6_MH_TYPE_BU then ab_dst addrs else ab_src addrs)"
  shows "\<exists>w. mp_data pkt = padded (hdr[1 := w]) 0 (os @ [signed_opt hmac (hdr[1 := w]) os coa cn key])"
proof -
  let ?l = mh_create_opt_auth_data
  let ?tp = "try_pad_loop (length hdr) 0 (os @ [?l])"
  define w where "w = (of_nat (mh_length (hdr # ?tp) div 8) - 1 :: u8)"
  let ?h = "hdr[1 := w]"
  let ?s = "signed_opt hmac ?h os coa cn key"
  have l: "?l ! 0 = 5" "take (length ?l - 12) ?l = [5, 12]" by (simp_all add: mh_create_opt_auth_data_def)
  have tp: "?tp \<noteq> []" "last ?tp = ?l" "butlast ?tp @ [x] = try_pad_loop (length hdr) 0 (os @ [x])" if "x ! 0 = 5" for x
    using try_pad_loop_last [of x ?l "length hdr" 0 os] that l(1) by simp_all
  have two: "concat (butlast ?tp @ [[5, 12]]) = concat (try_pad_loop (length hdr) 0 (os @ [[5, 12]]))"
    using tp(3) [of "[5, 12]"] by simp
  have "mp_data pkt = concat (sign_last hmac coa cn key (?h # ?tp))"
    using send coa cn by (auto simp: mh_send_def mh_try_pad_def Let_def w_def split: if_splits)
  also have "sign_last hmac coa cn key (?h # ?tp) = ?h # butlast ?tp @ [?s]"
    using tp(1,2) [of "[5, 12]"] l two
    by (simp add: sign_last_def Let_def calculate_auth_data_def signed_opt_def padded_def)
  also have "concat \<dots> = padded ?h 0 (os @ [?s])"
    using tp(3) [of ?s] by (simp add: signed_opt_def padded_def)
  finally show ?thesis by blast
qed

lemma padded_last: "padded pre pad (os @ [l]) = padded pre pad (os @ [take 2 l]) @ drop 2 l" if "2 \<le> length l"
proof -
  have *: "try_pad_loop len pad (os @ [l]) = butlast (try_pad_loop len pad (os @ [take 2 l])) @ [l]" for len pad
    using try_pad_loop_last [of l "take 2 l" len pad os] that by simp
  have "concat (try_pad_loop len pad (os @ [take 2 l])) = concat (butlast (try_pad_loop len pad (os @ [take 2 l]))) @ take 2 l" for len pad
    using try_pad_loop_last [of l "take 2 l" len pad os] that
    by (metis append_butlast_last_id concat.simps(1,2) concat_append append_Nil2 nth_take zero_less_numeral)
  then show ?thesis by (simp add: padded_def *)
qed

lemma memcmp_refl: "memcmp x x n = 0"
proof (induction x arbitrary: n)
  case (Cons b x)
  then show ?case by (cases n) simp_all
qed simp

lemma length_try_pad_loop: "length (try_pad_loop len pad opts) \<le> 2 * length opts \<and> length opts \<le> length (try_pad_loop len pad opts)"
proof (induction opts arbitrary: len pad)
  case (Cons opt opts)
  let ?p = "opt_pad_for (opt ! 0) len pad"
  show ?case using Cons [of "len + ?p + length opt" ?p] by (cases "?p = 0") (simp_all add: Let_def)
qed simp

lemma mh_send_returns:
  assumes "opts \<noteq> []" "length opts \<le> IP6_MHOPT_MAX" "ab_bind_coa addrs = Some coa"
  shows "\<exists>pkt. mh_send hmac True addrs (hdr # opts) (Some key) oif = Some (Some pkt)"
proof -
  have "try_pad_loop (length hdr) 0 opts \<noteq> []" "length (try_pad_loop (length hdr) 0 opts) \<le> 12"
    using length_try_pad_loop [of "length hdr" 0 opts] assms by auto
  then show ?thesis using assms by (simp add: mh_send_def mh_try_pad_def Let_def)
qed

text \<open>Sending never fails on the messages the daemon builds, though no packet may leave for lack of memory.\<close>

lemma mh_send_some:
  assumes "length vec \<le> Suc IP6_MHOPT_MAX" "vec \<noteq> []" "key \<noteq> None \<Longrightarrow> tl vec \<noteq> [] \<and> ab_bind_coa addrs \<noteq> None"
  shows "\<exists>r. mh_send hmac mem addrs vec key oif = Some r"
proof -
  obtain hdr opts where vec: "vec = hdr # opts" using assms(2) by (cases vec) auto
  let ?tp = "try_pad_loop (length hdr) 0 opts"
  have "length ?tp \<le> 12" "opts = [] \<longrightarrow> ?tp = []" "opts \<noteq> [] \<longrightarrow> ?tp \<noteq> []"
    using length_try_pad_loop [of "length hdr" 0 opts] assms(1) vec by auto
  then show ?thesis
    using assms(3) vec by (cases key) (auto simp: mh_send_def mh_try_pad_def Let_def)
qed

lemma mh_send_brr_some: "\<exists>r. mh_send_brr hmac ok mem last_used mn local = Some r"
proof (cases "last_used < 0 \<or> last_used > 60 \<or> mh_create ok IP6_MH_TYPE_BRR = None")
  case True
  then show ?thesis by (auto simp: mh_send_brr_def)
next
  case False
  then obtain b where b: "mh_create ok IP6_MH_TYPE_BRR = Some b" by auto
  obtain r where "mh_send hmac mem \<lparr>ab_src = local, ab_dst = mn, ab_local_coa = None, ab_remote_coa = None,
      ab_bind_coa = None\<rparr> [b] None 0 = Some r"
    using mh_send_some [of "[b]"] by fastforce
  then show ?thesis using False b by (simp add: mh_send_brr_def)
qed

lemma mh_send_ba_some:
  assumes "ab_bind_coa addrs \<noteq> None"
  shows "\<exists>r. mh_send_ba hmac ok mem nv refresh addrs status flags sq lft key iif = Some r"
proof (cases "mh_create ok IP6_MH_TYPE_BACK")
  case None
  then show ?thesis by (simp add: mh_send_ba_def)
next
  case (Some b)
  let ?ba = "take 6 b @ [status, flags, hi8 sq, lo8 sq, hi8 (of_int (tv_sec lft div 4)), lo8 (of_int (tv_sec lft div 4))]"
  define adv where "adv = (if unat status < 128 \<and> \<not> nv
    then (case refresh of Some t \<Rightarrow> if tsbefore lft t then [mh_create_opt_refresh_advice (of_int (tv_sec t))] else []
          | None \<Rightarrow> []) else [])"
  define auth where "auth = (case key of None \<Rightarrow> [] | Some _ \<Rightarrow> [mh_create_opt_auth_data])"
  have len: "length adv \<le> 1" "length auth \<le> 1" "key \<noteq> None \<Longrightarrow> auth \<noteq> []"
    by (simp_all add: adv_def auth_def split: option.splits)
  obtain r where "mh_send hmac mem addrs ([?ba] @ adv @ auth) key iif = Some r"
    using mh_send_some [of "[?ba] @ adv @ auth" key addrs hmac mem iif] len assms by force
  then show ?thesis using Some by (simp add: mh_send_ba_def Let_def adv_def auth_def)
qed

lemma signed_message_parts:
  assumes hm: "\<forall>k d. MIPV6_DIGEST_LEN \<le> length (hmac k d)"
    and opts: "opts_ok (os @ [mh_create_opt_auth_data])" and hdr: "hdr \<noteq> []"
    and send: "mh_send hmac True addrs (hdr # os @ [mh_create_opt_auth_data]) (Some key) oif = Some (Some pkt)"
    and coa: "ab_bind_coa addrs = Some coa"
    and cn: "cn = (if hdr ! 2 = IP6_MH_TYPE_BU then ab_dst addrs else ab_src addrs)"
  shows "\<exists>mo i. mh_opt_parse (mp_data pkt) (int (length (mp_data pkt))) (length hdr) = (int (length os) + 1, mo) \<and>
    (\<forall>opt \<in> set os. opt_found (mp_data pkt) mo opt) \<and> mh_opt mo IP6_MHOPT_BAUTH = Some i \<and>
    mh_verify_auth_data hmac (mp_data pkt) (length (mp_data pkt)) i coa cn key = 0 \<and>
    length (mp_data pkt) mod 8 = 0 \<and> (\<exists>w. take (length hdr) (mp_data pkt) = hdr[1 := w]) \<and>
    (\<forall>t. t \<noteq> 5 \<and> t \<notin> (\<lambda>opt. unat (opt ! 0)) ` set os \<longrightarrow> mo_opts mo t = 0)"
proof -
  obtain w where data: "mp_data pkt = padded (hdr[1 := w]) 0 (os @ [signed_opt hmac (hdr[1 := w]) os coa cn key])"
    using mh_send_signed [OF send coa cn] by blast
  define h where "h = hdr[1 := w]"
  define l where "l = signed_opt hmac h os coa cn key"
  have len: "length h = length hdr" "length l = 14" "l ! 0 = 5" "l ! 1 = 12" "take 2 l = [5, 12]"
    using hm by (simp_all add: h_def l_def signed_opt_def)
  have data': "mp_data pkt = padded h 0 (os @ [l])" using data by (simp add: h_def l_def)
  have "opt_wf l" using len by (simp add: opt_wf_def)
  then have ok: "opts_ok (os @ [l])"
    using opts len(3) by (simp add: opts_ok_def mh_create_opt_auth_data_def butlast_append)
  obtain mo where mo: "mh_opt_parse (mp_data pkt) (int (length (mp_data pkt))) (length hdr) = (int (length os) + 1, mo)"
    "\<forall>opt \<in> set (os @ [l]). opt_found (mp_data pkt) mo opt"
    "mo_opts mo 5 + 14 = length (mp_data pkt)"
    "\<forall>t. t \<noteq> 5 \<and> t \<notin> (\<lambda>opt. unat (opt ! 0)) ` set os \<longrightarrow> mo_opts mo t = 0"
    using parse_padded [OF ok, of no_opts h 0 0] hdr len
    by (auto simp: mh_opt_parse_def data' no_opts_def)
  let ?d = "mp_data pkt" let ?i = "mo_opts mo 5"
  have i: "mh_opt mo 5 = Some ?i" "?i mod 8 = 2" "take 14 (drop ?i ?d) = l"
    using mo(2) len(2,3) by (auto simp: opt_found_def mh_opt_def opt_aligned_def split: if_splits)
  then have dl: "drop ?i ?d = l" using mo(3) by simp
  have "?d ! Suc ?i = l ! 1" using nth_drop [of ?i ?d 1] dl mo(3) by simp
  moreover have "drop (?i + 2) ?d = drop 2 l" using dl by (metis add.commute drop_drop)
  moreover have "take (length ?d - 12) ?d = padded h 0 (os @ [[5, 12]])"
    using padded_last [of l h 0 os] len data' by simp
  moreover have "take 12 (hmac key (coa @ cn @ padded h 0 (os @ [[5, 12]]))) = drop 2 l"
    by (simp add: l_def signed_opt_def)
  ultimately have "mh_verify_auth_data hmac ?d (length ?d) ?i coa cn key = 0"
    using len(4) by (simp add: mh_verify_auth_data_def Let_def calculate_auth_data_def memcmp_refl)
  moreover have "length ?d mod 8 = 0" using i(2) mo(3) by presburger
  moreover have "take (length hdr) ?d = hdr[1 := w]" using data' by (simp add: padded_def h_def)
  ultimately show ?thesis using mo(1,2,4) i(1) by auto
qed

text \<open>The parser reads nothing before the options.\<close>

lemma opt_parse_loop_cong:
  "\<forall>j \<ge> i. msg' ! j = msg ! j \<Longrightarrow> opt_parse_loop msg' i left bauth ret mo = opt_parse_loop msg i left bauth ret mo"
proof (induction msg i left bauth ret mo rule: opt_parse_loop.induct)
  case (1 msg i left bauth ret mo)
  have eq: "msg' ! i = msg ! i" "msg' ! Suc i = msg ! Suc i" using 1(6) by simp_all
  have le: "\<forall>j \<ge> Suc i. msg' ! j = msg ! j" "\<forall>j \<ge> i + n. msg' ! j = msg ! j" for n using 1(6) by simp_all
  show ?case
    by (subst (1 2) opt_parse_loop.simps) (use 1(1-5) eq le in \<open>simp add: Let_def\<close>)
qed

text \<open>
  C31. A signed message survives its own parser and verifier. Take any message whose options are well
  formed, of different types, and end in authorization data. What \<open>mh_send\<close> puts on the wire with a
  binding key is a multiple of eight bytes; the option parser accepts it, counts the options and
  finds each, unchanged and aligned as its type asks; and the verification of the authorization
  data with the same key and addresses succeeds.
\<close>

theorem signed_message_roundtrip:
  assumes hm: "\<forall>k d. MIPV6_DIGEST_LEN \<le> length (hmac k d)"
    and opts: "opts_ok (os @ [mh_create_opt_auth_data])" and hdr: "hdr \<noteq> []"
    and send: "mh_send hmac True addrs (hdr # os @ [mh_create_opt_auth_data]) (Some key) oif = Some (Some pkt)"
    and coa: "ab_bind_coa addrs = Some coa"
    and cn: "cn = (if hdr ! 2 = IP6_MH_TYPE_BU then ab_dst addrs else ab_src addrs)"
  shows "\<exists>mo i. mh_opt_parse (mp_data pkt) (int (length (mp_data pkt))) (length hdr) = (int (length os) + 1, mo) \<and>
    (\<forall>opt \<in> set os. opt_found (mp_data pkt) mo opt) \<and> mh_opt mo IP6_MHOPT_BAUTH = Some i \<and>
    mh_verify_auth_data hmac (mp_data pkt) (length (mp_data pkt)) i coa cn key = 0 \<and>
    length (mp_data pkt) mod 8 = 0"
  using signed_message_parts [OF assms] by (elim exE conjE) (intro exI conjI, assumption+)

definition sample_bundle :: in6_addr_bundle where
  "sample_bundle = \<lparr>ab_src = replicate 16 1, ab_dst = replicate 16 2, ab_local_coa = None, ab_remote_coa = None,
     ab_bind_coa = Some (replicate 16 3)\<rparr>"

definition sample_bu :: bytes where
  "sample_bu = [59, 0, 5, 0, 0, 0, 0, 7, 0x80, 0, 0, 10]"

theorem signed_message_roundtrip_witness:
  "\<exists>pkt mo i. mh_send (\<lambda>k d. replicate 20 (of_nat (length d))) True sample_bundle
       [sample_bu, mh_create_opt_nonce_index 3 4, mh_create_opt_auth_data] (Some [1]) 0 = Some (Some pkt) \<and>
     mh_opt_parse (mp_data pkt) (int (length (mp_data pkt))) 12 = (2, mo) \<and>
     mh_verify_auth_data (\<lambda>k d. replicate 20 (of_nat (length d))) (mp_data pkt) (length (mp_data pkt)) i
       (replicate 16 3) (replicate 16 2) [1] = 0"
proof -
  let ?hm = "\<lambda>k d. replicate 20 (of_nat (length (d :: bytes))) :: bytes"
  have ni: "mh_create_opt_nonce_index 3 4 ! 0 = 4" "length (mh_create_opt_nonce_index 3 4) = 6"
    by (simp_all add: mh_create_opt_nonce_index_def)
  have au: "mh_create_opt_auth_data ! 0 = 5" "length mh_create_opt_auth_data = 14"
    by (simp_all add: mh_create_opt_auth_data_def)
  have ok: "opts_ok ([mh_create_opt_nonce_index 3 4] @ [mh_create_opt_auth_data])"
    using created_opts_wf(3,4) ni au by (simp add: opts_ok_def)
  obtain pkt where send: "mh_send ?hm True sample_bundle
      (sample_bu # [mh_create_opt_nonce_index 3 4] @ [mh_create_opt_auth_data]) (Some [1]) 0 = Some (Some pkt)"
    using mh_send_returns [of "[mh_create_opt_nonce_index 3 4] @ [mh_create_opt_auth_data]" sample_bundle "replicate 16 3" ?hm sample_bu "[1]" 0]
    by (auto simp: sample_bundle_def)
  have "\<forall>k d. 12 \<le> length (?hm k d)" "sample_bu \<noteq> []" "ab_bind_coa sample_bundle = Some (replicate 16 3)"
    "replicate 16 2 = (if sample_bu ! 2 = 5 then ab_dst sample_bundle else ab_src sample_bundle)" "length sample_bu = 12"
    by (simp_all add: sample_bundle_def sample_bu_def)
  then obtain mo i where "mh_opt_parse (mp_data pkt) (int (length (mp_data pkt))) 12 = (2, mo)"
    "mh_verify_auth_data ?hm (mp_data pkt) (length (mp_data pkt)) i (replicate 16 3) (replicate 16 2) [1] = 0"
    using signed_message_roundtrip [OF _ ok _ send] by fastforce
  then show ?thesis using send by auto
qed

end
