(* ===== verification/Bcache.thy ===== *)
theory Bcache
  imports Keygen Mh
begin

text \<open>
  The binding cache (\<open>src/protocols/umip/src/bcache.c\<close>): entries in memory, found through the hash
  table and expired through the timer queue. An entry is its address; the daemon's one timer queue
  is the one that also carries the nonces. Calls into the kernel's IPsec tables are recorded. The
  locks make every operation one step.
\<close>

datatype bce_type = BCE_NONCE_BLOCK | BCE_HOMEREG | BCE_CACHED | BCE_CACHE_DYING | BCE_DAD

record bcentry =
  bce_our_addr :: in6_addr
  bce_peer_addr :: in6_addr
  bce_old_coa :: in6_addr
  bce_coa :: in6_addr
  bce_add_time :: timespec
  bce_lifetime :: timespec
  bce_seqno :: u16
  bce_flags :: u16
  bce_nonce_coa :: u16
  bce_nonce_hoa :: u16
  bce_typ :: bce_type
  bce_nemo_type :: u16
  bce_unreach :: int
  bce_tunnel :: int
  bce_link :: int
  bce_cleanup :: bool
  bce_mob_net_prefixes :: "prefix_list_entry list"

text \<open>
  What the daemon does to the outside: kernel policies for a binding, the clean-up callback of an
  entry, and packets.
\<close>

datatype bc_effect =
    Xfrm_add in6_addr in6_addr in6_addr bool
  | Xfrm_del in6_addr in6_addr
  | Cleanup nat
  | Sent mh_packet

record bcache =
  bc_kg :: keygen
  bc_hash :: "nat hash"
  bc_ents :: "nat \<rightharpoonup> bcentry"
  bc_out :: "bc_effect list"

abbreviation (input) BCACHE_BUCKETS :: nat where "BCACHE_BUCKETS \<equiv> 32"

definition cn_brr_before_expiry_ts :: timespec where
  "cn_brr_before_expiry_ts = Timespec 2 0"

text \<open>The timer element inside an entry, and the task number of \<open>_expire\<close>.\<close>

definition bce_tqe :: "nat \<Rightarrow> nat" where "bce_tqe p = 1000 + p"
definition expire_task :: nat where "expire_task = 2"

definition bc_tq :: "bcache \<Rightarrow> tqueue" where
  "bc_tq s = kg_tq (bc_kg s)"

definition with_tq :: "tqueue \<Rightarrow> bcache \<Rightarrow> bcache" where
  "with_tq q s = s\<lparr>bc_kg := (bc_kg s)\<lparr>kg_tq := q\<rparr>\<rparr>"

definition emits :: "bc_effect list \<Rightarrow> bcache \<Rightarrow> bcache" where
  "emits xs s = s\<lparr>bc_out := bc_out s @ xs\<rparr>"

abbreviation emit :: "bc_effect \<Rightarrow> bcache \<Rightarrow> bcache" where
  "emit x \<equiv> emits [x]"

definition upd_ent :: "nat \<Rightarrow> bcentry \<Rightarrow> bcache \<Rightarrow> bcache" where
  "upd_ent p e s = s\<lparr>bc_ents := (bc_ents s)(p \<mapsto> e)\<rparr>"

definition arm_bce :: "timespec \<Rightarrow> nat \<Rightarrow> bcache \<Rightarrow> bcache cres" where
  "arm_bce t p s = do { q \<leftarrow> add_task_abs t (bce_tqe p) expire_task (bc_tq s); Some (with_tq q s) }"

text \<open>
  Allocation. \<open>p\<close> is the address of the memory, 0 when there is none or its lock cannot be made; the
  entry is zeroed and its timer element initialised.
\<close>

definition zero_bce :: bcentry where
  "zero_bce = \<lparr>bce_our_addr = unspecified, bce_peer_addr = unspecified, bce_old_coa = unspecified, bce_coa = unspecified,
     bce_add_time = tszero, bce_lifetime = tszero, bce_seqno = 0, bce_flags = 0, bce_nonce_coa = 0,
     bce_nonce_hoa = 0, bce_typ = BCE_NONCE_BLOCK, bce_nemo_type = 0, bce_unreach = 0, bce_tunnel = 0,
     bce_link = 0, bce_cleanup = False, bce_mob_net_prefixes = []\<rparr>"

definition tq_alloc :: "nat \<Rightarrow> tqueue \<Rightarrow> tqueue" where
  "tq_alloc e q = q\<lparr>tq_links := \<lparr>k_next = (k_next (tq_links q))(e \<mapsto> e), k_prev = (k_prev (tq_links q))(e \<mapsto> e)\<rparr>,
     tq_expires := (tq_expires q)(e := tszero)\<rparr>"

definition tq_free :: "nat \<Rightarrow> tqueue \<Rightarrow> tqueue" where
  "tq_free e q = q\<lparr>tq_links := \<lparr>k_next = (k_next (tq_links q))(e := None), k_prev = (k_prev (tq_links q))(e := None)\<rparr>\<rparr>"

definition bcache_alloc :: "nat \<Rightarrow> bcache \<Rightarrow> bcache" where
  "bcache_alloc p s = (if p = 0 then s else upd_ent p zero_bce (with_tq (tq_alloc (bce_tqe p) (bc_tq s)) s))"

definition bcache_free :: "nat \<Rightarrow> bcache \<Rightarrow> bcache" where
  "bcache_free p s = (with_tq (tq_free (bce_tqe p) (bc_tq s)) s)\<lparr>bc_ents := (bc_ents s)(p := None)\<rparr>"

definition bcache_get :: "in6_addr \<Rightarrow> in6_addr \<Rightarrow> bcache \<Rightarrow> nat option cres" where
  "bcache_get our peer s = hash_get (bc_hash s) (Some our) peer"

text \<open>The type found, \<open>None\<close> for \<open>-ENOENT\<close>.\<close>

definition bce_type_of :: "in6_addr \<Rightarrow> in6_addr \<Rightarrow> bcache \<Rightarrow> bce_type option cres" where
  "bce_type_of our peer s = do {
     r \<leftarrow> bcache_get our peer s;
     (case r of None \<Rightarrow> Some None
      | Some p \<Rightarrow> do { e \<leftarrow> bc_ents s p; Some (Some (bce_typ e)) }) }"

definition bce_exists :: "in6_addr \<Rightarrow> in6_addr \<Rightarrow> bcache \<Rightarrow> bool cres" where
  "bce_exists our peer s = do { t \<leftarrow> bce_type_of our peer s; Some (t \<noteq> None) }"

definition bcache_insert :: "bool \<Rightarrow> nat \<Rightarrow> bcache \<Rightarrow> (int \<times> bcache) cres" where
  "bcache_insert mem p s = do {
     e \<leftarrow> bc_ents s p;
     (r, h) \<leftarrow> hash_add mem (bc_hash s) p (Some (bce_our_addr e)) (bce_peer_addr e);
     Some (r, s\<lparr>bc_hash := h\<rparr>) }"

definition bcache_start :: "timespec \<Rightarrow> nat \<Rightarrow> bcache \<Rightarrow> bcache cres" where
  "bcache_start now p s = do {
     e \<leftarrow> bc_ents s p;
     s \<leftarrow> arm_bce (tsadd now (if bce_typ e = BCE_HOMEREG then bce_lifetime e
                              else tssub (bce_lifetime e) cn_brr_before_expiry_ts)) p
            (upd_ent p (e\<lparr>bce_add_time := now\<rparr>) s);
     Some (emit (Xfrm_add (bce_our_addr e) (bce_peer_addr e) (bce_coa e) False) s) }"

definition bcache_add :: "bool \<Rightarrow> timespec \<Rightarrow> nat \<Rightarrow> bcache \<Rightarrow> (int \<times> bcache) cres" where
  "bcache_add mem now p s = do {
     e \<leftarrow> bc_ents s p;
     (r, s) \<leftarrow> bcache_insert mem p (upd_ent p (e\<lparr>bce_unreach := 0\<rparr>) s);
     if r \<noteq> 0 then Some (r, s)
     else do { s \<leftarrow> bcache_start now p s; Some (0, s) } }"

definition bcache_add_homereg :: "bool \<Rightarrow> nat \<Rightarrow> bcache \<Rightarrow> (int \<times> bcache) cres" where
  "bcache_add_homereg mem p s = do {
     e \<leftarrow> bc_ents s p;
     if bce_typ e \<noteq> BCE_DAD then None
     else bcache_insert mem p (upd_ent p (e\<lparr>bce_unreach := 0\<rparr>) s) }"

definition bcache_complete_homereg :: "timespec \<Rightarrow> nat \<Rightarrow> bcache \<Rightarrow> bcache cres" where
  "bcache_complete_homereg now p s = bcache_start now p s"

definition bcache_update_expire :: "timespec \<Rightarrow> nat \<Rightarrow> bcache \<Rightarrow> bcache cres" where
  "bcache_update_expire now p s = do {
     e \<leftarrow> bc_ents s p;
     let e' = e\<lparr>bce_add_time := now, bce_typ := (if bce_typ e = BCE_HOMEREG then BCE_HOMEREG else BCE_CACHED)\<rparr>;
     let lft = (if bce_typ e = BCE_HOMEREG then bce_lifetime e else tssub (bce_lifetime e) cn_brr_before_expiry_ts);
     s \<leftarrow> arm_bce (tsadd lft now) p (upd_ent p e' s);
     Some (emit (Xfrm_add (bce_our_addr e) (bce_peer_addr e) (bce_coa e) True) s) }"

text \<open>
  Deletion. An entry made by return routability is kept as a block on its home nonce until that
  expires, unless the cache is flushed.
\<close>

definition bce_unhook :: "nat \<Rightarrow> bcentry \<Rightarrow> bcache \<Rightarrow> bcache cres" where
  "bce_unhook p e s =
     (if bce_typ e \<noteq> BCE_DAD then do {
        q \<leftarrow> del_task (bce_tqe p) (bc_tq s);
        Some (let s' = with_tq q s in
          if bce_typ e \<noteq> BCE_NONCE_BLOCK then emit (Xfrm_del (bce_our_addr e) (bce_peer_addr e)) s' else s') }
      else Some s)"

definition bce_delete :: "bool \<Rightarrow> nat \<Rightarrow> bcache \<Rightarrow> bcache cres" where
  "bce_delete flush p s = do {
     e \<leftarrow> bc_ents s p;
     s \<leftarrow> bce_unhook p e s;
     let s = (if bce_cleanup e then emit (Cleanup p) s else s);
     (case (if \<not> flush \<and> (bce_typ e = BCE_CACHED \<or> bce_typ e = BCE_CACHE_DYING)
            then snd (rr_cn_nonce_lft (bce_nonce_hoa e) (bc_kg s)) else None) of
        Some minlft \<Rightarrow> arm_bce minlft p (upd_ent p (e\<lparr>bce_typ := BCE_NONCE_BLOCK\<rparr>) s)
      | None \<Rightarrow> do {
          h \<leftarrow> hash_delete (bc_hash s) (Some (bce_our_addr e)) (bce_peer_addr e);
          Some (bcache_free p (s\<lparr>bc_hash := h\<rparr>)) }) }"

definition bcache_delete :: "in6_addr \<Rightarrow> in6_addr \<Rightarrow> bcache \<Rightarrow> bcache cres" where
  "bcache_delete our peer s = do {
     r \<leftarrow> hash_get (bc_hash s) (Some our) peer;
     (case r of None \<Rightarrow> Some s | Some p \<Rightarrow> bce_delete False p s) }"

text \<open>
  The expiry task, called by the timer thread with the element taken off the queue. A cached entry
  asks for a refresh and gets a last grace period, any other goes. The task does nothing when
  another thread has dealt with the entry since.
\<close>

definition bce_expire ::
  "(bytes \<Rightarrow> bytes \<Rightarrow> bytes) \<Rightarrow> bool \<Rightarrow> bool \<Rightarrow> int \<Rightarrow> timespec \<Rightarrow> nat \<Rightarrow> bcache \<Rightarrow> bcache cres" where
  "bce_expire hmac ok mem last_used now p s =
     (if task_interrupted (bc_tq s) then Some s
      else do {
        e \<leftarrow> bc_ents s p;
        if bce_typ e = BCE_CACHED then do {
          brr \<leftarrow> mh_send_brr hmac ok mem last_used (bce_peer_addr e) (bce_our_addr e);
          q \<leftarrow> add_task_rel now cn_brr_before_expiry_ts (bce_tqe p) expire_task (bc_tq s);
          Some (with_tq q (upd_ent p (e\<lparr>bce_typ := BCE_CACHE_DYING\<rparr>) (emits (map Sent brr) s))) }
        else bce_delete False p s })"

definition bcache_init :: "bool \<Rightarrow> bool \<Rightarrow> bcache \<Rightarrow> (int \<times> bcache) cres" where
  "bcache_init lock_ok mem s =
     (if \<not> lock_ok then Some (-1, s)
      else do {
        (r, h) \<leftarrow> hash_init mem DOUBLE_ADDR BCACHE_BUCKETS;
        Some (r, case h of None \<Rightarrow> s | Some h \<Rightarrow> s\<lparr>bc_hash := h\<rparr>) })"

definition bce_cleanup_entry :: "nat \<Rightarrow> bcache \<Rightarrow> (int \<times> bcache) cres" where
  "bce_cleanup_entry p s = do { s \<leftarrow> bce_delete True p s; Some (0, s) }"

definition bcache_flush :: "bcache \<Rightarrow> bcache cres" where
  "bcache_flush s = do { (r, s) \<leftarrow> hash_iterate bc_hash bce_cleanup_entry s; Some s }"

definition bcache_iterate :: "(nat \<Rightarrow> bcache \<Rightarrow> (int \<times> bcache) cres) \<Rightarrow> bcache \<Rightarrow> (int \<times> bcache) cres" where
  "bcache_iterate func s = hash_iterate bc_hash func s"

section \<open>The invariant\<close>

text \<open>
  Every entry of the table is in memory under its own addresses; every entry in memory is in the
  table, but for those in \<open>P\<close> that a handler has allocated and not added yet; the timer element of an
  entry can be handed to the queue, and a pending timer belongs to an entry of the table that is
  not waiting for address detection. The home nonce of a cached entry, if it is still there, is
  armed.
\<close>

definition ent_key :: "bcentry \<Rightarrow> in6_addr \<times> in6_addr" where
  "ent_key e = (bce_our_addr e, bce_peer_addr e)"

definition nonce_live :: "keygen \<Rightarrow> bcentry \<Rightarrow> bool" where
  "nonce_live k e \<longleftrightarrow> bce_typ e = BCE_CACHED \<or> bce_typ e = BCE_CACHE_DYING \<longrightarrow>
     (\<forall>t. snd (rr_cn_nonce_lft (bce_nonce_hoa e) k) = Some t \<longrightarrow> tsisset t)"

definition table_inv :: "nat set \<Rightarrow> bcache \<Rightarrow> bool" where
  "table_inv P s \<longleftrightarrow> pair_wf (bc_hash s) \<and>
     (\<forall>k p. pair_lookup (bc_hash s) k = Some p \<longrightarrow> p \<notin> P \<and> (\<exists>e. bc_ents s p = Some e \<and> ent_key e = k)) \<and>
     (\<forall>p e. bc_ents s p = Some e \<longrightarrow> p \<in> P \<or> pair_lookup (bc_hash s) (ent_key e) = Some p \<and> nonce_live (bc_kg s) e)"

definition timer_inv :: "nat set \<Rightarrow> bcache \<Rightarrow> bool" where
  "timer_inv P s \<longleftrightarrow> kg_wf (bc_kg s) \<and>
     (\<forall>p e. bc_ents s p = Some e \<longrightarrow> tq_ready (bc_tq s) (bce_tqe p)) \<and>
     (\<forall>p. tsisset (tq_expires (bc_tq s) (bce_tqe p)) \<longrightarrow> p \<notin> P \<and> (\<exists>e. bc_ents s p = Some e \<and> bce_typ e \<noteq> BCE_DAD))"

definition bc_inv :: "nat set \<Rightarrow> bcache \<Rightarrow> bool" where
  "bc_inv P s \<longleftrightarrow> table_inv P s \<and> timer_inv P s"

lemma bce_tqe_simps [simp]:
  "bce_tqe p \<noteq> 0" "bce_tqe p \<noteq> tq_list" "bce_tqe p = bce_tqe q \<longleftrightarrow> p = q"
  by (simp_all add: bce_tqe_def tq_list_def)

lemma bce_tqe_nonce: "i < MAX_NONCES \<Longrightarrow> bce_tqe p \<noteq> nonce_tqe i" "i < MAX_NONCES \<Longrightarrow> nonce_tqe i \<noteq> bce_tqe p"
  by (simp_all add: bce_tqe_def nonce_tqe_def)

lemma bc_fields [simp]:
  "bc_tq (with_tq q s) = q" "bc_hash (with_tq q s) = bc_hash s" "bc_ents (with_tq q s) = bc_ents s"
  "bc_out (with_tq q s) = bc_out s" "with_tq q (with_tq q' s) = with_tq q s" "with_tq (bc_tq s) s = s"
  "bc_tq (emits xs s) = bc_tq s" "bc_hash (emits xs s) = bc_hash s" "bc_ents (emits xs s) = bc_ents s"
  "bc_kg (emits xs s) = bc_kg s" "emits [] s = s" "with_tq q (emits xs s) = emits xs (with_tq q s)"
  "emits ys (emits xs s) = emits (xs @ ys) s"
  "bc_tq (upd_ent p e s) = bc_tq s" "bc_hash (upd_ent p e s) = bc_hash s" "bc_kg (upd_ent p e s) = bc_kg s"
  "bc_ents (upd_ent p e s) = (bc_ents s)(p \<mapsto> e)"
  "bc_tq (s\<lparr>bc_hash := h\<rparr>) = bc_tq s" "upd_ent p e (emits xs s) = emits xs (upd_ent p e s)"
  "with_tq q (upd_ent p e s) = upd_ent p e (with_tq q s)"
  by (simp_all add: bc_tq_def with_tq_def emits_def upd_ent_def)

lemma bc_kg_with_tq: "bc_kg (with_tq q s) = (bc_kg s)\<lparr>kg_tq := q\<rparr>"
  by (simp add: with_tq_def)

lemma rr_cn_nonce_lft_tq [simp]: "rr_cn_nonce_lft ix (k\<lparr>kg_tq := q\<rparr>) = rr_cn_nonce_lft ix k"
  by (simp add: rr_cn_nonce_lft_def get_nonce_def Let_def)

lemma nonce_live_tq [simp]: "nonce_live (bc_kg (with_tq q s)) e = nonce_live (bc_kg s) e"
  by (simp add: nonce_live_def bc_kg_with_tq)

lemma bc_inv_emits [simp]: "bc_inv P (emits xs s) = bc_inv P s"
  by (simp add: bc_inv_def table_inv_def timer_inv_def)

lemma table_inv_with_tq [simp]:
  "table_inv P (with_tq q s) = table_inv P s" "table_inv P (upd_ent p e (with_tq q s)) = table_inv P (upd_ent p e s)"
  by (simp_all add: table_inv_def)

lemma kg_wf_with_tq:
  assumes "kg_wf k" "tq_wf q" "\<And>i. i < MAX_NONCES \<Longrightarrow> k_alloc (tq_links q) (nonce_tqe i)"
    "\<And>i. i < MAX_NONCES \<Longrightarrow> tq_expires q (nonce_tqe i) = tq_expires (kg_tq k) (nonce_tqe i)"
  shows "kg_wf (k\<lparr>kg_tq := q\<rparr>)"
  using assms by (simp add: kg_wf_def)

lemma timer_inv_tq:
  "timer_inv P s \<Longrightarrow> \<exists>xs. tq_inv (bc_tq s) xs"
  by (simp add: timer_inv_def kg_wf_def tq_wf_def bc_tq_def)

lemma timer_inv_nonce: "timer_inv P s \<Longrightarrow> i < MAX_NONCES \<Longrightarrow> k_alloc (tq_links (bc_tq s)) (nonce_tqe i)"
  by (simp add: timer_inv_def kg_wf_def bc_tq_def)

text \<open>The timers of the nonces are not touched by what happens to the timer of an entry.\<close>

lemma timer_inv_with_tq:
  assumes inv: "timer_inv P s" and q: "tq_inv q ys" "\<forall>x. k_alloc (tq_links (bc_tq s)) x \<longrightarrow> k_alloc (tq_links q) x"
    "\<forall>x. tq_ready (bc_tq s) x \<longrightarrow> tq_ready q x" "tq_expires q = (tq_expires (bc_tq s))(bce_tqe p := t)"
    and t: "tsisset t \<Longrightarrow> p \<notin> P \<and> (\<exists>e. bc_ents s p = Some e \<and> bce_typ e \<noteq> BCE_DAD)"
  shows "timer_inv P (with_tq q s)"
proof -
  have "kg_wf (bc_kg (with_tq q s))"
    unfolding bc_kg_with_tq
  proof (rule kg_wf_with_tq)
    show "kg_wf (bc_kg s)" using inv by (simp add: timer_inv_def)
    show "tq_wf q" using q(1) by (auto simp: tq_wf_def)
  next
    fix i :: nat assume i: "i < MAX_NONCES"
    show "k_alloc (tq_links q) (nonce_tqe i)" using q(2) timer_inv_nonce [OF inv i] by blast
    show "tq_expires q (nonce_tqe i) = tq_expires (kg_tq (bc_kg s)) (nonce_tqe i)"
      using q(4) bce_tqe_nonce [OF i] by (simp add: bc_tq_def)
  qed
  then show ?thesis using inv q(3,4) t by (auto simp: timer_inv_def)
qed

section \<open>Operations keep the invariant\<close>

lemma arm_bce_inv:
  assumes inv: "timer_inv P s" and p: "bc_ents s p = Some e" "p \<notin> P" "bce_typ e \<noteq> BCE_DAD" and t: "tsisset t"
  shows "\<exists>q. arm_bce t p s = Some (with_tq q s) \<and> timer_inv P (with_tq q s) \<and>
    tq_expires q = (tq_expires (bc_tq s))(bce_tqe p := t)"
proof -
  obtain xs where xs: "tq_inv (bc_tq s) xs" using timer_inv_tq [OF inv] by blast
  have r: "tq_ready (bc_tq s) (bce_tqe p)" using inv p(1) by (simp add: timer_inv_def)
  obtain q ys where q: "add_task_abs t (bce_tqe p) expire_task (bc_tq s) = Some q" "tq_inv q ys"
    "tq_expires q = (tq_expires (bc_tq s))(bce_tqe p := t)" "\<forall>x. tq_ready (bc_tq s) x \<longrightarrow> tq_ready q x"
    "\<forall>x. k_alloc (tq_links (bc_tq s)) x \<longrightarrow> k_alloc (tq_links q) x"
    using add_task_abs_inv [OF xs _ _ tq_ready_alloc [OF xs r] t, of expire_task] by auto
  then have "timer_inv P (with_tq q s)"
    using p by (intro timer_inv_with_tq [OF inv q(2,5,4,3)]) auto
  then show ?thesis using q(1,3) by (intro exI [of _ q]) (simp add: arm_bce_def)
qed

lemma bce_unhook_inv:
  assumes inv: "timer_inv P s" and p: "bc_ents s p = Some e"
  shows "\<exists>q xs. bce_unhook p e s = Some (emits xs (with_tq q s)) \<and> timer_inv P (with_tq q s) \<and>
    tq_expires q = (tq_expires (bc_tq s))(bce_tqe p := tszero)"
proof (cases "bce_typ e = BCE_DAD")
  case True
  then have "tq_expires (bc_tq s) (bce_tqe p) = tszero" using inv p by (auto simp: timer_inv_def)
  then have "tq_expires (bc_tq s) = (tq_expires (bc_tq s))(bce_tqe p := tszero)" by (simp add: fun_upd_idem)
  then show ?thesis
    using True inv by (intro exI [of _ "bc_tq s"] exI [of _ "[]"]) (simp add: bce_unhook_def)
next
  case False
  obtain xs where xs: "tq_inv (bc_tq s) xs" using timer_inv_tq [OF inv] by blast
  have r: "tq_ready (bc_tq s) (bce_tqe p)" using inv p(1) by (simp add: timer_inv_def)
  obtain q where q: "del_task (bce_tqe p) (bc_tq s) = Some q" "tq_inv q (remove1 (bce_tqe p) xs)"
    "tq_expires q = (tq_expires (bc_tq s))(bce_tqe p := tszero)" "\<forall>x. tq_ready (bc_tq s) x \<longrightarrow> tq_ready q x"
    "\<forall>x. k_alloc (tq_links (bc_tq s)) x \<longrightarrow> k_alloc (tq_links q) x"
    using del_task_inv [OF xs r] by blast
  then have "timer_inv P (with_tq q s)" by (intro timer_inv_with_tq [OF inv q(2,5,4,3)]) simp
  then show ?thesis
    using False q(1,3)
    by (intro exI [of _ q] exI [of _ "if bce_typ e \<noteq> BCE_NONCE_BLOCK then [Xfrm_del (bce_our_addr e) (bce_peer_addr e)] else []"])
      (simp add: bce_unhook_def Let_def)
qed

text \<open>Memory of a timer element that is not queued may come and go.\<close>

lemma tq_inv_elem:
  assumes inv: "tq_inv q xs" and e: "e \<notin> set xs" "e \<noteq> tq_list"
    and q': "\<And>x. x \<noteq> e \<Longrightarrow> k_next (tq_links q') x = k_next (tq_links q) x \<and> k_prev (tq_links q') x = k_prev (tq_links q) x"
    "tq_expires q' = tq_expires q"
  shows "tq_inv q' xs"
proof -
  have "linked (tq_links q') (tq_list # xs @ [tq_list]) = linked (tq_links q) (tq_list # xs @ [tq_list])"
  proof (rule linked_cong)
    fix x
    show "k_next (tq_links q') x = k_next (tq_links q) x" if "x \<in> set (butlast (tq_list # xs @ [tq_list]))"
      using that e q'(1) [of x] by (auto simp: butlast_append)
    show "k_prev (tq_links q') x = k_prev (tq_links q) x" if "x \<in> set (tl (tq_list # xs @ [tq_list]))"
      using that e q'(1) [of x] by auto
  qed
  then show ?thesis using inv q'(2) by (simp add: tq_inv_def ring_def)
qed

lemma timer_elem_inv:
  assumes inv: "timer_inv P s" and e: "tq_expires (bc_tq s) (bce_tqe p) = tszero"
    and q: "\<And>x. x \<noteq> bce_tqe p \<Longrightarrow> k_next (tq_links q) x = k_next (tq_links (bc_tq s)) x \<and>
      k_prev (tq_links q) x = k_prev (tq_links (bc_tq s)) x" "tq_expires q = tq_expires (bc_tq s)"
  shows "kg_wf (bc_kg (with_tq q s))" "x \<noteq> bce_tqe p \<Longrightarrow> tq_ready (bc_tq s) x \<Longrightarrow> tq_ready q x"
proof -
  obtain xs where xs: "tq_inv (bc_tq s) xs" using timer_inv_tq [OF inv] by blast
  have "bce_tqe p \<notin> set xs" using e by (simp add: tq_inv_mem [OF xs])
  then have "tq_inv q xs" using q by (intro tq_inv_elem [OF xs]) auto
  then have "tq_wf q" by (auto simp: tq_wf_def)
  moreover have "kg_wf (bc_kg s)" using inv by (simp add: timer_inv_def)
  moreover have "k_alloc (tq_links q) (nonce_tqe i)" if "i < MAX_NONCES" for i
    using timer_inv_nonce [OF inv that] q(1) [OF bce_tqe_nonce(2) [OF that]] by (simp add: k_alloc_def)
  ultimately show "kg_wf (bc_kg (with_tq q s))"
    unfolding bc_kg_with_tq using q(2) by (intro kg_wf_with_tq) (auto simp: bc_tq_def)
  show "tq_ready q x" if "x \<noteq> bce_tqe p" "tq_ready (bc_tq s) x"
    using that q(1) [OF that(1)] q(2) by (simp add: tq_ready_def self_linked_def)
qed

lemma bcache_alloc_inv:
  assumes inv: "bc_inv P s" and p: "p \<noteq> 0" "bc_ents s p = None"
  shows "bc_inv (insert p P) (bcache_alloc p s)"
proof -
  let ?q = "tq_alloc (bce_tqe p) (bc_tq s)"
  have tm: "timer_inv P s" and tb: "table_inv P s" using inv by (simp_all add: bc_inv_def)
  have z: "tq_expires (bc_tq s) (bce_tqe p) = tszero" using tm p(2) by (force simp: timer_inv_def)
  have f: "tq_expires ?q = tq_expires (bc_tq s)" using z by (simp add: tq_alloc_def fun_upd_idem)
  note e = timer_elem_inv [OF tm z _ f]
  have "kg_wf (bc_kg (with_tq ?q s))" by (rule e(1)) (simp add: tq_alloc_def)
  moreover have "tq_ready ?q (bce_tqe p')" if "p' = p \<or> tq_ready (bc_tq s) (bce_tqe p')" for p'
  proof (cases "p' = p")
    case True
    then show ?thesis by (simp add: tq_ready_def self_linked_def tq_alloc_def)
  next
    case False
    then show ?thesis using that by (intro e(2)) (simp_all add: tq_alloc_def)
  qed
  ultimately have "timer_inv (insert p P) (bcache_alloc p s)"
    using tm p z unfolding timer_inv_def bcache_alloc_def by (simp add: f)
  moreover have "table_inv (insert p P) (bcache_alloc p s)"
    using tb p unfolding table_inv_def bcache_alloc_def by (simp del: split_paired_All) force
  ultimately show ?thesis by (simp add: bc_inv_def)
qed

lemma bcache_free_inv:
  assumes inv: "bc_inv (insert p P) s" and p: "p \<notin> P"
  shows "bc_inv P (bcache_free p s)"
proof -
  let ?q = "tq_free (bce_tqe p) (bc_tq s)"
  have tm: "timer_inv (insert p P) s" and tb: "table_inv (insert p P) s" using inv by (simp_all add: bc_inv_def)
  have z: "tq_expires (bc_tq s) (bce_tqe p) = tszero" using tm by (force simp: timer_inv_def)
  have f: "tq_expires ?q = tq_expires (bc_tq s)" by (simp add: tq_free_def)
  note e = timer_elem_inv [OF tm z _ f]
  have "kg_wf (bc_kg (with_tq ?q s))" by (rule e(1)) (simp add: tq_free_def)
  moreover have "tq_ready ?q (bce_tqe p')" if "p' \<noteq> p" "tq_ready (bc_tq s) (bce_tqe p')" for p'
    using that by (intro e(2)) (simp_all add: tq_free_def)
  moreover have ff: "bc_tq (bcache_free p s) = ?q" "bc_kg (bcache_free p s) = bc_kg (with_tq ?q s)"
    "bc_ents (bcache_free p s) = (bc_ents s)(p := None)" "bc_hash (bcache_free p s) = bc_hash s"
    by (simp_all add: bcache_free_def with_tq_def bc_tq_def)
  ultimately have "timer_inv P (bcache_free p s)"
    using tm z by (simp add: timer_inv_def f)
  moreover have "table_inv P (bcache_free p s)"
    unfolding table_inv_def ff nonce_live_tq
    using tb unfolding table_inv_def by (auto simp del: split_paired_All)
  ultimately show ?thesis by (simp add: bc_inv_def)
qed

lemma table_inv_found:
  "table_inv P s \<Longrightarrow> pair_lookup (bc_hash s) k = Some p \<Longrightarrow> \<exists>e. bc_ents s p = Some e \<and> ent_key e = k \<and> p \<notin> P \<and> nonce_live (bc_kg s) e"
  unfolding table_inv_def by blast

lemma table_inv_entry:
  "table_inv P s \<Longrightarrow> bc_ents s p = Some e \<Longrightarrow> p \<notin> P \<Longrightarrow> pair_lookup (bc_hash s) (ent_key e) = Some p \<and> nonce_live (bc_kg s) e"
  unfolding table_inv_def by blast

lemma table_invI:
  assumes "pair_wf (bc_hash s)"
    "\<And>k p. pair_lookup (bc_hash s) k = Some p \<Longrightarrow> p \<notin> P \<and> (\<exists>e. bc_ents s p = Some e \<and> ent_key e = k)"
    "\<And>p e. bc_ents s p = Some e \<Longrightarrow> p \<notin> P \<Longrightarrow> pair_lookup (bc_hash s) (ent_key e) = Some p \<and> nonce_live (bc_kg s) e"
  shows "table_inv P s"
  using assms unfolding table_inv_def by blast

lemma timer_inv_mono: "timer_inv Q s \<Longrightarrow> P \<subseteq> Q \<Longrightarrow> timer_inv P s"
  by (auto simp: timer_inv_def)

text \<open>Taking an entry out of the table, and putting one in.\<close>

lemma table_remove_inv:
  assumes inv: "table_inv P s" and p: "bc_ents s p = Some e" "p \<notin> P"
  shows "\<exists>h. hash_delete (bc_hash s) (Some (bce_our_addr e)) (bce_peer_addr e) = Some h \<and>
    table_inv (insert p P) (s\<lparr>bc_hash := h\<rparr>) \<and> pair_lookup h = (pair_lookup (bc_hash s))(ent_key e := None)"
proof -
  obtain h where h: "hash_delete (bc_hash s) (Some (bce_our_addr e)) (bce_peer_addr e) = Some h" "pair_wf h"
    "pair_lookup h = (pair_lookup (bc_hash s))(ent_key e := None)"
    using pt.del_law [of "bc_hash s" "ent_key e"] inv by (auto simp: table_inv_def ent_key_def)
  have k: "pair_lookup (bc_hash s) (ent_key e) = Some p" using table_inv_entry [OF inv p] by blast
  have "p' \<notin> insert p P \<and> (\<exists>e'. bc_ents s p' = Some e' \<and> ent_key e' = k')" if "pair_lookup h k' = Some p'" for k' p'
    using table_inv_found [OF inv, of k' p'] that p(1) by (auto simp: h(3) split: if_splits)
  moreover have "pair_lookup h (ent_key e') = Some p' \<and> nonce_live (bc_kg s) e'"
    if "bc_ents s p' = Some e'" "p' \<notin> insert p P" for p' e'
    using table_inv_entry [OF inv that(1)] that(2) k by (auto simp: h(3))
  ultimately have "table_inv (insert p P) (s\<lparr>bc_hash := h\<rparr>)" using h(2) by (intro table_invI) simp_all
  then show ?thesis using h(1,3) by blast
qed

lemma bcache_insert_inv:
  assumes inv: "bc_inv (insert p P) s" and p: "bc_ents s p = Some e" "p \<notin> P"
    and new: "pair_lookup (bc_hash s) (ent_key e) = None" "nonce_live (bc_kg s) e"
  shows "\<exists>h. bcache_insert True p s = Some (0, s\<lparr>bc_hash := h\<rparr>) \<and> bc_inv P (s\<lparr>bc_hash := h\<rparr>) \<and>
    pair_lookup h = (pair_lookup (bc_hash s))(ent_key e \<mapsto> p)"
proof -
  have tb: "table_inv (insert p P) s" and tm: "timer_inv (insert p P) s" using inv by (simp_all add: bc_inv_def)
  obtain h where h: "hash_add True (bc_hash s) p (Some (bce_our_addr e)) (bce_peer_addr e) = Some (0, h)" "pair_wf h"
    "pair_lookup h = (pair_lookup (bc_hash s))(ent_key e \<mapsto> p)"
    using pt.add_law [of "bc_hash s" "ent_key e" p] tb new(1) by (auto simp: table_inv_def ent_key_def)
  have "p' \<notin> P \<and> (\<exists>e'. bc_ents s p' = Some e' \<and> ent_key e' = k')" if "pair_lookup h k' = Some p'" for k' p'
    using table_inv_found [OF tb, of k' p'] that p by (auto simp: h(3) split: if_splits)
  moreover have "pair_lookup h (ent_key e') = Some p' \<and> nonce_live (bc_kg s) e'"
    if "bc_ents s p' = Some e'" "p' \<notin> P" for p' e'
    using table_inv_entry [OF tb that(1)] that p(1) new by (cases "p' = p") (auto simp: h(3))
  ultimately have "table_inv P (s\<lparr>bc_hash := h\<rparr>)" using h(2) by (intro table_invI) simp_all
  moreover have "timer_inv P (s\<lparr>bc_hash := h\<rparr>)"
    using timer_inv_mono [OF tm, of P] by (auto simp: timer_inv_def)
  ultimately show ?thesis using h(1,3) p(1) by (intro exI [of _ h]) (simp add: bcache_insert_def bc_inv_def)
qed

text \<open>
  Deletion removes the entry or leaves it as a block on its home nonce; other entries stay. Without
  a flush an entry whose nonce is alive is blocked.
\<close>

definition bce_blocked :: "bool \<Rightarrow> bcentry \<Rightarrow> keygen \<Rightarrow> timespec option" where
  "bce_blocked flush e k =
     (if \<not> flush \<and> (bce_typ e = BCE_CACHED \<or> bce_typ e = BCE_CACHE_DYING)
      then snd (rr_cn_nonce_lft (bce_nonce_hoa e) k) else None)"

definition bce_gone :: "nat \<Rightarrow> bcentry \<Rightarrow> bool \<Rightarrow> bcache \<Rightarrow> bcache \<Rightarrow> bool" where
  "bce_gone p e flush s s' \<longleftrightarrow> (\<exists>q. bc_kg s' = (bc_kg s)\<lparr>kg_tq := q\<rparr>) \<and>
     (case bce_blocked flush e (bc_kg s) of
        Some t \<Rightarrow> bc_ents s' = (bc_ents s)(p \<mapsto> e\<lparr>bce_typ := BCE_NONCE_BLOCK\<rparr>) \<and> bc_hash s' = bc_hash s \<and>
          tq_expires (bc_tq s') = (tq_expires (bc_tq s))(bce_tqe p := t)
      | None \<Rightarrow> bc_ents s' = (bc_ents s)(p := None) \<and> tq_expires (bc_tq s') = (tq_expires (bc_tq s))(bce_tqe p := tszero) \<and>
          hash_delete (bc_hash s) (Some (bce_our_addr e)) (bce_peer_addr e) = Some (bc_hash s') \<and>
          pair_lookup (bc_hash s') = (pair_lookup (bc_hash s))(ent_key e := None))"

lemma nonce_live_block [simp]: "nonce_live k (e\<lparr>bce_typ := BCE_NONCE_BLOCK\<rparr>)"
  by (simp add: nonce_live_def)

lemma ent_key_upd [simp]:
  "ent_key (e\<lparr>bce_typ := t\<rparr>) = ent_key e" "ent_key (e\<lparr>bce_unreach := u\<rparr>) = ent_key e"
  "ent_key (e\<lparr>bce_add_time := a\<rparr>) = ent_key e"
  by (simp_all add: ent_key_def)

text \<open>An entry may be rewritten as long as it keeps its addresses once it is in the table.\<close>

lemma upd_ent_inv:
  assumes inv: "bc_inv P s" and p: "bc_ents s p = Some e" and e': "p \<notin> P \<Longrightarrow> ent_key e' = ent_key e"
    "p \<notin> P \<Longrightarrow> nonce_live (bc_kg s) e'"
    "tsisset (tq_expires (bc_tq s) (bce_tqe p)) \<Longrightarrow> bce_typ e' \<noteq> BCE_DAD"
  shows "bc_inv P (upd_ent p e' s)"
proof -
  have tm: "timer_inv P s" and tb: "table_inv P s" using inv by (simp_all add: bc_inv_def)
  have "timer_inv P (upd_ent p e' s)"
    using tm p e'(3) unfolding timer_inv_def by auto
  moreover have "table_inv P (upd_ent p e' s)"
  proof (rule table_invI)
    show "pair_wf (bc_hash (upd_ent p e' s))" using tb by (simp add: table_inv_def)
    show "p' \<notin> P \<and> (\<exists>e. bc_ents (upd_ent p e' s) p' = Some e \<and> ent_key e = k)"
      if "pair_lookup (bc_hash (upd_ent p e' s)) k = Some p'" for k p'
      using table_inv_found [OF tb, of k p'] that p e'(1) by auto
    show "pair_lookup (bc_hash (upd_ent p e' s)) (ent_key f) = Some p' \<and> nonce_live (bc_kg (upd_ent p e' s)) f"
      if "bc_ents (upd_ent p e' s) p' = Some f" "p' \<notin> P" for p' f
      using table_inv_entry [OF tb _ that(2)] that p e'(1,2) by (cases "p' = p") auto
  qed
  ultimately show ?thesis by (simp add: bc_inv_def)
qed

lemma bce_delete_inv:
  assumes inv: "bc_inv P s" and p: "bc_ents s p = Some e" "p \<notin> P"
  shows "\<exists>s'. bce_delete flush p s = Some s' \<and> bc_inv P s' \<and> bce_gone p e flush s s'"
proof -
  have tm: "timer_inv P s" and tb: "table_inv P s" using inv by (simp_all add: bc_inv_def)
  obtain q xs where q: "bce_unhook p e s = Some (emits xs (with_tq q s))" "timer_inv P (with_tq q s)"
    "tq_expires q = (tq_expires (bc_tq s))(bce_tqe p := tszero)"
    using bce_unhook_inv [OF tm p(1)] by blast
  define s1 where "s1 = with_tq q s"
  define xs' where "xs' = (if bce_cleanup e then xs @ [Cleanup p] else xs)"
  have s1: "bc_inv P s1" "bc_ents s1 = bc_ents s" "bc_hash s1 = bc_hash s" "bc_kg s1 = (bc_kg s)\<lparr>kg_tq := q\<rparr>"
    "tq_expires (bc_tq s1) (bce_tqe p) = tszero" "tq_expires (bc_tq s1) = (tq_expires (bc_tq s))(bce_tqe p := tszero)"
    using q(2,3) tb by (simp_all add: s1_def bc_inv_def bc_kg_with_tq)
  have step: "bce_delete flush p s =
      (case bce_blocked flush e (bc_kg s) of
         Some t \<Rightarrow> arm_bce t p (upd_ent p (e\<lparr>bce_typ := BCE_NONCE_BLOCK\<rparr>) (emits xs' s1))
       | None \<Rightarrow> do {
           h \<leftarrow> hash_delete (bc_hash s1) (Some (bce_our_addr e)) (bce_peer_addr e);
           Some (bcache_free p ((emits xs' s1)\<lparr>bc_hash := h\<rparr>)) })"
    using p(1) q(1) s1(4) by (simp add: bce_delete_def bce_blocked_def Let_def s1_def xs'_def split: option.split)
  show ?thesis
  proof (cases "bce_blocked flush e (bc_kg s)")
    case None
    obtain h where h: "hash_delete (bc_hash s1) (Some (bce_our_addr e)) (bce_peer_addr e) = Some h"
      "table_inv (insert p P) (s1\<lparr>bc_hash := h\<rparr>)" "pair_lookup h = (pair_lookup (bc_hash s))(ent_key e := None)"
      using table_remove_inv [of P s1 p e] s1(1,2,3) p by (auto simp: bc_inv_def)
    define s2 where "s2 = (emits xs' s1)\<lparr>bc_hash := h\<rparr>"
    have f: "bc_ents s2 = bc_ents s" "bc_hash s2 = h" "bc_kg s2 = (bc_kg s)\<lparr>kg_tq := q\<rparr>" "bc_tq s2 = bc_tq s1"
      by (simp_all add: s2_def s1)
    have "timer_inv (insert p P) s2" using s1(1,2,4,5) f unfolding bc_inv_def timer_inv_def by auto
    moreover have "table_inv (insert p P) s2" using h(2) f s1(2,4) unfolding table_inv_def by simp
    ultimately have "bc_inv P (bcache_free p s2)" using bcache_free_inv [OF _ p(2)] by (simp add: bc_inv_def)
    moreover have "bce_gone p e flush s (bcache_free p s2)"
      using None h(1,3) f s1(3,6) by (auto simp: bce_gone_def bcache_free_def bc_kg_with_tq with_tq_def tq_free_def bc_tq_def)
    ultimately show ?thesis using step None h(1) by (simp add: s2_def)
  next
    case (Some t)
    define e' where "e' = e\<lparr>bce_typ := BCE_NONCE_BLOCK\<rparr>"
    define s2 where "s2 = upd_ent p e' (emits xs' s1)"
    have "tsisset t"
      using Some table_inv_entry [OF tb p] by (auto simp: bce_blocked_def nonce_live_def split: if_splits)
    moreover have i2: "bc_inv P s2"
      unfolding s2_def using s1(1,2) p(1) by (intro upd_ent_inv [where e = e]) (simp_all add: e'_def)
    ultimately obtain q2 where q2: "arm_bce t p s2 = Some (with_tq q2 s2)" "timer_inv P (with_tq q2 s2)"
      "tq_expires q2 = (tq_expires (bc_tq s2))(bce_tqe p := t)"
      using arm_bce_inv [of P s2 p e' t] p(2) by (auto simp: bc_inv_def s2_def e'_def)
    then have "bc_inv P (with_tq q2 s2)" using i2 by (simp add: bc_inv_def)
    moreover have "bce_gone p e flush s (with_tq q2 s2)"
      using Some q2(3) s1(2,3,4,6) by (auto simp: bce_gone_def s2_def e'_def bc_kg_with_tq)
    ultimately show ?thesis using step Some q2(1) by (simp add: s2_def e'_def)
  qed
qed

text \<open>A binding that lasts longer than the refresh period is armed for a set time.\<close>

definition life_ok :: "bcentry \<Rightarrow> bool" where
  "life_ok e \<longleftrightarrow> ts_ok (bce_lifetime e) \<and> 2 < tv_sec (bce_lifetime e)"

lemma expiry_set:
  assumes "time_ok now" "life_ok e"
  shows "tsisset (tsadd now (bce_lifetime e))" "tsisset (tsadd (bce_lifetime e) now)"
    "tsisset (tsadd now (tssub (bce_lifetime e) cn_brr_before_expiry_ts))"
    "tsisset (tsadd (tssub (bce_lifetime e) cn_brr_before_expiry_ts) now)"
    "tsisset (tsadd now cn_brr_before_expiry_ts)"
proof -
  have b: "ts_ok cn_brr_before_expiry_ts" "nsecs cn_brr_before_expiry_ts = 2 * TIME_SEC_NSEC"
    by (simp_all add: cn_brr_before_expiry_ts_def ts_ok_def nsecs_def)
  have l: "ts_ok (bce_lifetime e)" "2 * TIME_SEC_NSEC < nsecs (bce_lifetime e)"
    using assms(2) by (auto simp: life_ok_def ts_ok_def nsecs_def)
  have n: "ts_ok now" "0 \<le> nsecs now" using assms(1) by (auto simp: time_ok_def ts_ok_def nsecs_def)
  have z: "tsisset t" if "0 < nsecs t" for t using that by (auto simp: tszero_def nsecs_def)
  note lb = tssub_exact [OF l(1) b(1)]
  show "tsisset (tsadd now (bce_lifetime e))" "tsisset (tsadd (bce_lifetime e) now)"
    "tsisset (tsadd now (tssub (bce_lifetime e) cn_brr_before_expiry_ts))"
    "tsisset (tsadd (tssub (bce_lifetime e) cn_brr_before_expiry_ts) now)"
    "tsisset (tsadd now cn_brr_before_expiry_ts)"
    using tsadd_exact [OF n(1) l(1)] tsadd_exact [OF l(1) n(1)] lb tsadd_exact [OF n(1), of "tssub (bce_lifetime e) cn_brr_before_expiry_ts"]
      tsadd_exact [OF _ n(1), of "tssub (bce_lifetime e) cn_brr_before_expiry_ts"] tsadd_exact [OF n(1) b(1)] b l n
    by (intro z; simp)+
qed

text \<open>The entry after it was started or refreshed.\<close>

lemma arm_entry_inv:
  assumes inv: "bc_inv P s" and p: "bc_ents s p = Some e" "p \<notin> P" and e': "ent_key e' = ent_key e"
    "nonce_live (bc_kg s) e'" "bce_typ e' \<noteq> BCE_DAD" and t: "tsisset t"
  shows "\<exists>q. arm_bce t p (upd_ent p e' s) = Some (with_tq q (upd_ent p e' s)) \<and>
    bc_inv P (with_tq q (upd_ent p e' s)) \<and> tq_expires q = (tq_expires (bc_tq s))(bce_tqe p := t)"
proof -
  have i: "bc_inv P (upd_ent p e' s)" using e' by (intro upd_ent_inv [OF inv p(1)])
  then obtain q where "arm_bce t p (upd_ent p e' s) = Some (with_tq q (upd_ent p e' s))"
    "timer_inv P (with_tq q (upd_ent p e' s))" "tq_expires q = (tq_expires (bc_tq (upd_ent p e' s)))(bce_tqe p := t)"
    using arm_bce_inv [of P "upd_ent p e' s" p e' t] p(2) e'(3) t by (auto simp: bc_inv_def)
  then show ?thesis using i by (intro exI [of _ q]) (simp add: bc_inv_def)
qed

lemma nonce_live_upd [simp]:
  "nonce_live k (e\<lparr>bce_unreach := u\<rparr>) = nonce_live k e" "nonce_live k (e\<lparr>bce_add_time := a\<rparr>) = nonce_live k e"
  by (simp_all add: nonce_live_def)

lemma bcache_start_inv:
  assumes inv: "bc_inv P s" and p: "bc_ents s p = Some e" "p \<notin> P" "bce_typ e \<noteq> BCE_DAD"
    and t: "time_ok now" "life_ok e"
  shows "\<exists>q. bcache_start now p s = Some (emit (Xfrm_add (bce_our_addr e) (bce_peer_addr e) (bce_coa e) False)
      (with_tq q (upd_ent p (e\<lparr>bce_add_time := now\<rparr>) s))) \<and>
    bc_inv P (with_tq q (upd_ent p (e\<lparr>bce_add_time := now\<rparr>) s))"
proof -
  let ?t = "tsadd now (if bce_typ e = BCE_HOMEREG then bce_lifetime e else tssub (bce_lifetime e) cn_brr_before_expiry_ts)"
  have set: "tsisset ?t" using expiry_set [OF t] by (simp split: if_split)
  have "nonce_live (bc_kg s) e" using inv table_inv_entry [OF _ p(1,2)] by (simp add: bc_inv_def)
  then obtain q where "arm_bce ?t p (upd_ent p (e\<lparr>bce_add_time := now\<rparr>) s) = Some (with_tq q (upd_ent p (e\<lparr>bce_add_time := now\<rparr>) s))"
    "bc_inv P (with_tq q (upd_ent p (e\<lparr>bce_add_time := now\<rparr>) s))"
    using arm_entry_inv [OF inv p(1,2), of "e\<lparr>bce_add_time := now\<rparr>" ?t] set p(3) by auto
  then show ?thesis using p(1) by (intro exI [of _ q]) (simp add: bcache_start_def)
qed

lemma bcache_update_expire_inv:
  assumes inv: "bc_inv P s" and p: "bc_ents s p = Some e" "p \<notin> P"
    and e': "e' = e\<lparr>bce_add_time := now, bce_typ := (if bce_typ e = BCE_HOMEREG then BCE_HOMEREG else BCE_CACHED)\<rparr>"
    and live: "nonce_live (bc_kg s) e'" and t: "time_ok now" "life_ok e"
  shows "\<exists>q. bcache_update_expire now p s = Some (emit (Xfrm_add (bce_our_addr e) (bce_peer_addr e) (bce_coa e) True)
      (with_tq q (upd_ent p e' s))) \<and> bc_inv P (with_tq q (upd_ent p e' s))"
proof -
  let ?t = "tsadd (if bce_typ e = BCE_HOMEREG then bce_lifetime e else tssub (bce_lifetime e) cn_brr_before_expiry_ts) now"
  have set: "tsisset ?t" using expiry_set [OF t] by (simp split: if_split)
  have k: "ent_key e' = ent_key e" and d: "bce_typ e' \<noteq> BCE_DAD" by (simp_all add: e')
  obtain q where "arm_bce ?t p (upd_ent p e' s) = Some (with_tq q (upd_ent p e' s))"
    "bc_inv P (with_tq q (upd_ent p e' s))"
    using arm_entry_inv [OF inv p(1,2) k live d set] by blast
  then show ?thesis using p(1) by (intro exI [of _ q]) (simp add: bcache_update_expire_def e' Let_def)
qed

lemma bcache_add_inv:
  assumes inv: "bc_inv (insert p P) s" and p: "bc_ents s p = Some e" "p \<notin> P" "bce_typ e \<noteq> BCE_DAD"
    and new: "pair_lookup (bc_hash s) (ent_key e) = None" "nonce_live (bc_kg s) e" and t: "time_ok now" "life_ok e"
  shows "\<exists>s'. bcache_add True now p s = Some (0, s') \<and> bc_inv P s' \<and>
    bc_ents s' = (bc_ents s)(p \<mapsto> e\<lparr>bce_unreach := 0, bce_add_time := now\<rparr>) \<and>
    pair_lookup (bc_hash s') = (pair_lookup (bc_hash s))(ent_key e \<mapsto> p) \<and> (\<exists>q. bc_kg s' = (bc_kg s)\<lparr>kg_tq := q\<rparr>)"
proof -
  let ?e = "e\<lparr>bce_unreach := 0\<rparr>"
  define s1 where "s1 = upd_ent p ?e s"
  have "\<not> tsisset (tq_expires (bc_tq s) (bce_tqe p))" using inv by (auto simp: bc_inv_def timer_inv_def)
  then have i1: "bc_inv (insert p P) s1" unfolding s1_def by (intro upd_ent_inv [OF inv p(1)]) simp_all
  obtain h where h: "bcache_insert True p s1 = Some (0, s1\<lparr>bc_hash := h\<rparr>)" "bc_inv P (s1\<lparr>bc_hash := h\<rparr>)"
    "pair_lookup h = (pair_lookup (bc_hash s))(ent_key e \<mapsto> p)"
    using bcache_insert_inv [OF i1 _ p(2), of ?e] new by (auto simp: s1_def)
  obtain q where q: "bcache_start now p (s1\<lparr>bc_hash := h\<rparr>) = Some (emit (Xfrm_add (bce_our_addr ?e) (bce_peer_addr ?e) (bce_coa ?e) False)
      (with_tq q (upd_ent p (?e\<lparr>bce_add_time := now\<rparr>) (s1\<lparr>bc_hash := h\<rparr>))))"
    "bc_inv P (with_tq q (upd_ent p (?e\<lparr>bce_add_time := now\<rparr>) (s1\<lparr>bc_hash := h\<rparr>)))"
    using bcache_start_inv [OF h(2), of p ?e now] p t by (auto simp: s1_def life_ok_def)
  have "bcache_add True now p s = Some (0, emit (Xfrm_add (bce_our_addr ?e) (bce_peer_addr ?e) (bce_coa ?e) False)
      (with_tq q (upd_ent p (?e\<lparr>bce_add_time := now\<rparr>) (s1\<lparr>bc_hash := h\<rparr>))))"
    using h(1) q(1) p(1) by (simp add: bcache_add_def s1_def)
  then show ?thesis using q(2) h(3) by (auto simp: s1_def bc_kg_with_tq)
qed

lemma bcache_get_inv:
  assumes "table_inv P s"
  shows "bcache_get our peer s = Some (pair_lookup (bc_hash s) (our, peer))"
  using pt.get_law [of "bc_hash s" "(our, peer)"] assms by (simp add: bcache_get_def table_inv_def)

lemma bcache_delete_inv:
  assumes inv: "bc_inv P s"
  shows "\<exists>s'. bcache_delete our peer s = Some s' \<and> bc_inv P s' \<and>
    (case pair_lookup (bc_hash s) (our, peer) of
       None \<Rightarrow> s' = s
     | Some p \<Rightarrow> \<exists>e. bc_ents s p = Some e \<and> ent_key e = (our, peer) \<and> p \<notin> P \<and> bce_gone p e False s s')"
proof (cases "pair_lookup (bc_hash s) (our, peer)")
  case None
  then show ?thesis
    using inv bcache_get_inv [of P s our peer] by (simp add: bcache_delete_def bcache_get_def bc_inv_def)
next
  case (Some p)
  then obtain e where e: "bc_ents s p = Some e" "ent_key e = (our, peer)" "p \<notin> P"
    using table_inv_found [OF _ Some] inv by (auto simp: bc_inv_def)
  obtain s' where "bce_delete False p s = Some s'" "bc_inv P s'" "bce_gone p e False s s'"
    using bce_delete_inv [OF inv e(1,3)] by blast
  then show ?thesis
    using Some e inv bcache_get_inv [of P s our peer] by (simp add: bcache_delete_def bcache_get_def bc_inv_def)
qed

text \<open>The timer thread takes a task off the queue, calls it, and clears the current task.\<close>

definition timer_task ::
  "(bytes \<Rightarrow> bytes \<Rightarrow> bytes) \<Rightarrow> bool \<Rightarrow> bool \<Rightarrow> int \<Rightarrow> timespec \<Rightarrow> nat \<Rightarrow> tqueue \<Rightarrow> bcache \<Rightarrow> bcache cres" where
  "timer_task hmac ok mem last_used now p q s = do {
     s \<leftarrow> bce_expire hmac ok mem last_used now p (with_tq q s);
     Some (with_tq ((bc_tq s)\<lparr>tq_curr := 0\<rparr>) s) }"

lemma bc_inv_curr: "bc_inv P s \<Longrightarrow> bc_inv P (with_tq ((bc_tq s)\<lparr>tq_curr := c\<rparr>) s)"
proof -
  assume inv: "bc_inv P s"
  then have tm: "timer_inv P s" by (simp add: bc_inv_def)
  obtain xs where xs: "tq_inv (bc_tq s) xs" using timer_inv_tq [OF tm] by blast
  let ?q = "(bc_tq s)\<lparr>tq_curr := c\<rparr>"
  have q: "tq_inv ?q xs" using xs by (subst tq_inv_cong [of _ "bc_tq s"]) simp_all
  have "timer_inv P (with_tq ?q s)"
  proof (rule timer_inv_with_tq [OF tm q, of 0 "tq_expires (bc_tq s) (bce_tqe 0)"])
    show "tsisset (tq_expires (bc_tq s) (bce_tqe 0)) \<Longrightarrow> 0 \<notin> P \<and> (\<exists>e. bc_ents s 0 = Some e \<and> bce_typ e \<noteq> BCE_DAD)"
      using tm by (simp add: timer_inv_def)
  qed (simp_all add: tq_ready_def)
  then show ?thesis using inv by (simp add: bc_inv_def)
qed

lemma runner_poll_bce:
  assumes inv: "bc_inv P s" and run: "runner_poll now (bc_tq s) = Some (Run_task (bce_tqe p), q)"
  shows "bc_inv P (with_tq q s)" "tq_curr q = bce_tqe p" "\<exists>e. bc_ents s p = Some e \<and> bce_typ e \<noteq> BCE_DAD \<and> p \<notin> P"
    "tq_expires (bc_tq s) (bce_tqe p) \<le> now"
proof -
  have tm: "timer_inv P s" using inv by (simp add: bc_inv_def)
  obtain xs where xs: "tq_inv (bc_tq s) xs" using timer_inv_tq [OF tm] by blast
  obtain ys where ys: "xs = bce_tqe p # ys" "tq_expires (bc_tq s) (bce_tqe p) \<le> now" "tq_inv q ys"
    "tq_expires q = (tq_expires (bc_tq s))(bce_tqe p := tszero)" "tq_curr q = bce_tqe p"
    "\<forall>x. k_alloc (tq_links (bc_tq s)) x \<longrightarrow> k_alloc (tq_links q) x" "\<forall>x. tq_ready (bc_tq s) x \<longrightarrow> tq_ready q x"
    using runner_poll_run [OF xs run] by blast
  have "timer_inv P (with_tq q s)" by (rule timer_inv_with_tq [OF tm ys(3,6,7,4)]) simp
  then show "bc_inv P (with_tq q s)" using inv by (simp add: bc_inv_def)
  show "tq_curr q = bce_tqe p" "tq_expires (bc_tq s) (bce_tqe p) \<le> now" by (fact ys)+
  have "tsisset (tq_expires (bc_tq s) (bce_tqe p))" using tq_inv_mem [OF xs, of "bce_tqe p"] ys(1) by simp
  then show "\<exists>e. bc_ents s p = Some e \<and> bce_typ e \<noteq> BCE_DAD \<and> p \<notin> P" using tm by (simp add: timer_inv_def)
qed

text \<open>
  What a task makes of its entry, and when it is armed again: a cached entry is dying, for the last
  refresh period; any other is kept as a block while its nonce lasts, or gone.
\<close>

definition bce_aged :: "bcentry \<Rightarrow> keygen \<Rightarrow> bcentry option" where
  "bce_aged e k =
     (if bce_typ e = BCE_CACHED then Some (e\<lparr>bce_typ := BCE_CACHE_DYING\<rparr>)
      else map_option (\<lambda>t. e\<lparr>bce_typ := BCE_NONCE_BLOCK\<rparr>) (bce_blocked False e k))"

definition aged_until :: "timespec \<Rightarrow> bcentry \<Rightarrow> keygen \<Rightarrow> timespec" where
  "aged_until now e k =
     (if bce_typ e = BCE_CACHED then tsadd now cn_brr_before_expiry_ts
      else case bce_blocked False e k of Some t \<Rightarrow> t | None \<Rightarrow> tszero)"

lemma timer_task_inv:
  assumes inv: "bc_inv P s" and run: "runner_poll now (bc_tq s) = Some (Run_task (bce_tqe p), q)" and t: "time_ok now"
    and e: "bc_ents s p = Some e"
  shows "\<exists>s'. timer_task hmac ok mem last_used now p q s = Some s' \<and> bc_inv P s' \<and> (\<exists>q'. bc_kg s' = (bc_kg s)\<lparr>kg_tq := q'\<rparr>) \<and>
    bc_ents s' = (bc_ents s)(p := bce_aged e (bc_kg s)) \<and>
    tq_expires (bc_tq s') = (tq_expires (bc_tq s))(bce_tqe p := aged_until now e (bc_kg s))"
proof -
  note r = runner_poll_bce [OF inv run]
  have p: "p \<notin> P" using r(3) by blast
  let ?s = "with_tq q s"
  have ex: "tq_expires q = (tq_expires (bc_tq s))(bce_tqe p := tszero)"
  proof -
    obtain xs where xs: "tq_inv (bc_tq s) xs" using timer_inv_tq inv by (auto simp: bc_inv_def)
    show ?thesis using runner_poll_run [OF xs run] by blast
  qed
  have "\<exists>s1. bce_expire hmac ok mem last_used now p ?s = Some s1 \<and> bc_inv P s1 \<and> (\<exists>q'. bc_kg s1 = (bc_kg s)\<lparr>kg_tq := q'\<rparr>) \<and>
    bc_ents s1 = (bc_ents s)(p := bce_aged e (bc_kg s)) \<and>
    tq_expires (bc_tq s1) = (tq_expires (bc_tq s))(bce_tqe p := aged_until now e (bc_kg s))"
  proof (cases "bce_typ e = BCE_CACHED")
    case True
    obtain brr where brr: "mh_send_brr hmac ok mem last_used (bce_peer_addr e) (bce_our_addr e) = Some brr"
      using mh_send_brr_some by blast
    let ?e = "e\<lparr>bce_typ := BCE_CACHE_DYING\<rparr>"
    have "nonce_live (bc_kg ?s) ?e"
      using inv table_inv_entry [of P s p e] e p True by (simp add: bc_inv_def nonce_live_def bc_kg_with_tq)
    moreover have "tsisset (tsadd now cn_brr_before_expiry_ts)"
      using expiry_set(5) [OF t, of "zero_bce\<lparr>bce_lifetime := Timespec 3 0\<rparr>"] by (simp add: life_ok_def ts_ok_def)
    ultimately obtain q' where q': "arm_bce (tsadd now cn_brr_before_expiry_ts) p (upd_ent p ?e ?s) = Some (with_tq q' (upd_ent p ?e ?s))"
      "bc_inv P (with_tq q' (upd_ent p ?e ?s))" "tq_expires q' = (tq_expires q)(bce_tqe p := tsadd now cn_brr_before_expiry_ts)"
      using arm_entry_inv [OF r(1), of p e ?e "tsadd now cn_brr_before_expiry_ts"] e p by auto
    have "add_task_rel now cn_brr_before_expiry_ts (bce_tqe p) expire_task q \<noteq> None"
      using q'(1) by (auto simp: arm_bce_def add_task_rel_def bind_eq_Some_conv)
    then obtain q2 where q2: "add_task_rel now cn_brr_before_expiry_ts (bce_tqe p) expire_task q = Some q2" by blast
    then have w: "with_tq q2 (upd_ent p ?e ?s) = with_tq q' (upd_ent p ?e ?s)"
      using q'(1) by (simp add: arm_bce_def add_task_rel_def)
    then have "bc_tq (with_tq q2 (upd_ent p ?e ?s)) = bc_tq (with_tq q' (upd_ent p ?e ?s))" by (rule arg_cong)
    then have qq: "q2 = q'" by simp
    let ?s1 = "emits (map Sent brr) (with_tq q2 (upd_ent p ?e ?s))"
    have "bce_expire hmac ok mem last_used now p ?s = Some ?s1"
      using True e r(2) brr q2 by (simp add: bce_expire_def task_interrupted_def)
    moreover have "bc_ents ?s1 = (bc_ents s)(p := bce_aged e (bc_kg s))" using True by (simp add: bce_aged_def)
    moreover have "tq_expires (bc_tq ?s1) = (tq_expires (bc_tq s))(bce_tqe p := aged_until now e (bc_kg s))"
      using True q'(3) ex qq by (simp add: aged_until_def)
    moreover have "\<exists>q'. bc_kg ?s1 = (bc_kg s)\<lparr>kg_tq := q'\<rparr>" by (simp add: bc_kg_with_tq) blast
    moreover have "bc_inv P ?s1" using q'(2) qq by simp
    ultimately show ?thesis by blast
  next
    case False
    obtain s1 where s1: "bce_delete False p ?s = Some s1" "bc_inv P s1" "bce_gone p e False ?s s1"
      using bce_delete_inv [OF r(1), of p e False] e p by auto
    have "bce_expire hmac ok mem last_used now p ?s = Some s1"
      using False s1(1) e r(2) by (simp add: bce_expire_def task_interrupted_def)
    moreover have "bc_ents s1 = (bc_ents s)(p := bce_aged e (bc_kg s))" "\<exists>q'. bc_kg s1 = (bc_kg s)\<lparr>kg_tq := q'\<rparr>"
      "tq_expires (bc_tq s1) = (tq_expires (bc_tq s))(bce_tqe p := aged_until now e (bc_kg s))"
      using s1(3) ex False
      by (auto simp: bce_gone_def bce_aged_def aged_until_def bce_blocked_def bc_kg_with_tq split: option.splits if_splits)
    ultimately show ?thesis using s1(2) by blast
  qed
  then obtain s1 where s1: "bce_expire hmac ok mem last_used now p ?s = Some s1" "bc_inv P s1" "\<exists>q'. bc_kg s1 = (bc_kg s)\<lparr>kg_tq := q'\<rparr>"
    "bc_ents s1 = (bc_ents s)(p := bce_aged e (bc_kg s))"
    "tq_expires (bc_tq s1) = (tq_expires (bc_tq s))(bce_tqe p := aged_until now e (bc_kg s))" by blast
  let ?s' = "with_tq ((bc_tq s1)\<lparr>tq_curr := 0\<rparr>) s1"
  have "timer_task hmac ok mem last_used now p q s = Some ?s'" using s1(1) by (simp add: timer_task_def)
  moreover have "\<exists>q'. bc_kg ?s' = (bc_kg s)\<lparr>kg_tq := q'\<rparr>" using s1(3) by (auto simp: bc_kg_with_tq)
  ultimately show ?thesis using s1(4,5) bc_inv_curr [OF s1(2), of 0] by (intro exI [of _ ?s']) simp
qed

section \<open>The cache as a map\<close>

text \<open>What the cache promises its users: a map from a pair of addresses to an entry.\<close>

definition bc_view :: "bcache \<Rightarrow> in6_addr \<times> in6_addr \<rightharpoonup> bcentry" where
  "bc_view s k = (case pair_lookup (bc_hash s) k of None \<Rightarrow> None | Some p \<Rightarrow> bc_ents s p)"

lemma bc_view_simps [simp]: "bc_view (emits xs s) = bc_view s" "bc_view (with_tq q s) = bc_view s"
  "bc_view (s\<lparr>bc_kg := k\<rparr>) = bc_view s" "bc_view (upd_ent p e (with_tq q s)) = bc_view (upd_ent p e s)"
  by (simp_all add: bc_view_def fun_eq_iff split: option.split)

lemma bc_view_found:
  "table_inv P s \<Longrightarrow> pair_lookup (bc_hash s) k = Some p \<Longrightarrow> \<exists>e. bc_view s k = Some e \<and> bc_ents s p = Some e"
  using table_inv_found [of P s k p] by (auto simp: bc_view_def)

lemma bc_view_entry:
  "table_inv P s \<Longrightarrow> bc_ents s p = Some e \<Longrightarrow> p \<notin> P \<Longrightarrow> bc_view s (ent_key e) = Some e"
  using table_inv_entry [of P s p e] by (simp add: bc_view_def)

lemma bc_view_other:
  assumes "table_inv P s" "p \<in> P \<or> bc_ents s p = None \<or> (\<exists>e. bc_ents s p = Some e \<and> k \<noteq> ent_key e)"
  shows "pair_lookup (bc_hash s) k \<noteq> Some p"
  using table_inv_found [OF assms(1), of k p] assms(2) by auto

lemma bc_view_private:
  assumes "table_inv P s" "p \<in> P \<or> bc_ents s p = None"
  shows "bc_view (s\<lparr>bc_ents := (bc_ents s)(p := x)\<rparr>) = bc_view s"
  using bc_view_other [OF assms(1), of p] assms(2) by (auto simp: bc_view_def fun_eq_iff split: option.split)

lemma bc_view_upd:
  assumes "table_inv P s" "bc_ents s p = Some e" "p \<notin> P"
  shows "bc_view (upd_ent p e' s) = (bc_view s)(ent_key e \<mapsto> e')"
proof
  fix k
  show "bc_view (upd_ent p e' s) k = ((bc_view s)(ent_key e \<mapsto> e')) k"
    using table_inv_entry [OF assms] bc_view_other [OF assms(1), of p k] assms(2)
    by (cases "k = ent_key e") (auto simp: bc_view_def split: option.split)
qed

lemma bc_view_gone:
  assumes "table_inv P s" "bc_ents s p = Some e" "p \<notin> P" "bce_gone p e flush s s'"
  shows "bc_view s' = (bc_view s)(ent_key e :=
    (case bce_blocked flush e (bc_kg s) of Some t \<Rightarrow> Some (e\<lparr>bce_typ := BCE_NONCE_BLOCK\<rparr>) | None \<Rightarrow> None))"
proof
  fix k
  show "bc_view s' k = ((bc_view s)(ent_key e :=
    (case bce_blocked flush e (bc_kg s) of Some t \<Rightarrow> Some (e\<lparr>bce_typ := BCE_NONCE_BLOCK\<rparr>) | None \<Rightarrow> None))) k"
    using assms(4) table_inv_entry [OF assms(1-3)] bc_view_other [OF assms(1), of p k] assms(2)
    by (cases "k = ent_key e") (auto simp: bc_view_def bce_gone_def split: option.splits)
qed

section \<open>Flushing\<close>

text \<open>
  The walk over a chain deletes the entry it stands on, so the chain left in the table is the part
  still to be walked.
\<close>

lemma chain_entry:
  assumes inv: "table_inv P s" and i: "i < h_buckets (bc_hash s)" and c: "h_chains (bc_hash s) ! i = x # xs"
  shows "\<exists>e. bc_ents s (he_data x) = Some e \<and> he_data x \<notin> P \<and> he_our x = Some (bce_our_addr e) \<and> he_peer x = bce_peer_addr e"
    "hash_delete (bc_hash s) (he_our x) (he_peer x) = Some ((bc_hash s)\<lparr>h_chains := (h_chains (bc_hash s))[i := xs]\<rparr>)"
proof -
  let ?h = "bc_hash s"
  have wf: "hash_wf ?h" "h_type ?h = DOUBLE_ADDR" using inv by (simp_all add: table_inv_def pair_wf_def)
  have cw: "chain_wf ?h i (x # xs)" using wf i c by (auto simp: hash_wf_def)
  then have k: "key_ok DOUBLE_ADDR (he_our x)" "slot ?h (ekey DOUBLE_ADDR x) = i" using wf(2) by (simp_all add: chain_wf_def)
  then obtain a where a: "he_our x = Some a" by (auto simp: key_ok_def)
  have ek: "ekey DOUBLE_ADDR x = (Some a, he_peer x)" using a by (simp add: ekey_def key_of_def)
  have "pair_lookup ?h (a, he_peer x) = Some (he_data x)"
    using wf(2) k(2) c ek by (simp add: pair_lookup_def hash_map_def chain_of_def chain_map_def)
  then show "\<exists>e. bc_ents s (he_data x) = Some e \<and> he_data x \<notin> P \<and> he_our x = Some (bce_our_addr e) \<and> he_peer x = bce_peer_addr e"
    using table_inv_found [OF inv, of "(a, he_peer x)" "he_data x"] a by (auto simp: ent_key_def)
  have "calc_hash ?h (he_our x) (he_peer x) = Some i"
    using calc_hash_slot [of ?h "he_our x" "he_peer x"] k wf(2) by (simp add: ekey_def)
  then show "hash_delete ?h (he_our x) (he_peer x) = Some (?h\<lparr>h_chains := (h_chains ?h)[i := xs]\<rparr>)"
    using a wf(2) c hash_match_key [of DOUBLE_ADDR "he_our x" x "he_peer x"] k(1)
    by (simp add: hash_delete_def ekey_def)
qed

lemma bce_blocked_flush [simp]: "bce_blocked True e k = None"
  by (simp add: bce_blocked_def)

lemma flush_chain:
  assumes "bc_inv {} s" "i < h_buckets (bc_hash s)" "h_chains (bc_hash s) ! i = es"
  shows "\<exists>s'. iterate_chain bc_hash bce_cleanup_entry i es s = Some (0, s') \<and> bc_inv {} s' \<and>
    h_buckets (bc_hash s') = h_buckets (bc_hash s) \<and> h_chains (bc_hash s') = (h_chains (bc_hash s))[i := []]"
  using assms
proof (induction es arbitrary: s)
  case Nil
  then show ?case using list_update_id [of "h_chains (bc_hash s)" i] by (intro exI [of _ s]) simp
next
  case (Cons x es)
  have tb: "table_inv {} s" using Cons(2) by (simp add: bc_inv_def)
  note ce = chain_entry [OF tb Cons(3,4)]
  obtain e where e: "bc_ents s (he_data x) = Some e" "he_our x = Some (bce_our_addr e)" "he_peer x = bce_peer_addr e"
    using ce(1) by blast
  obtain s1 where s1: "bce_delete True (he_data x) s = Some s1" "bc_inv {} s1" "bce_gone (he_data x) e True s s1"
    using bce_delete_inv [OF Cons(2) e(1), of True] by blast
  have h1: "bc_hash s1 = (bc_hash s)\<lparr>h_chains := (h_chains (bc_hash s))[i := es]\<rparr>"
    using s1(3) ce(2) e(2,3) by (simp add: bce_gone_def)
  have len: "length (h_chains (bc_hash s)) = h_buckets (bc_hash s)" using tb by (simp add: table_inv_def pair_wf_def hash_wf_def)
  obtain s' where s': "iterate_chain bc_hash bce_cleanup_entry i es s1 = Some (0, s')" "bc_inv {} s'"
    "h_buckets (bc_hash s') = h_buckets (bc_hash s)" "h_chains (bc_hash s') = (h_chains (bc_hash s))[i := []]"
    using Cons(1) [OF s1(2)] h1 Cons(3) len by auto
  moreover have "bce_cleanup_entry (he_data x) s = Some (0, s1)" using s1(1) by (simp add: bce_cleanup_entry_def)
  ultimately show ?case using Cons(4) by simp
qed

lemma flush_buckets:
  assumes "bc_inv {} s" "m \<le> h_buckets (bc_hash s)" "\<forall>i < m. h_chains (bc_hash s) ! i = []"
  shows "\<exists>s'. iterate_buckets bc_hash bce_cleanup_entry [m..<h_buckets (bc_hash s)] s = Some (0, s') \<and> bc_inv {} s' \<and>
    (\<forall>i < h_buckets (bc_hash s'). h_chains (bc_hash s') ! i = [])"
  using assms
proof (induction "h_buckets (bc_hash s) - m" arbitrary: m s)
  case 0
  then show ?case by (intro exI [of _ s]) simp
next
  case (Suc d)
  then have m: "m < h_buckets (bc_hash s)" by simp
  obtain s1 where s1: "iterate_chain bc_hash bce_cleanup_entry m (h_chains (bc_hash s) ! m) s = Some (0, s1)" "bc_inv {} s1"
    "h_buckets (bc_hash s1) = h_buckets (bc_hash s)" "h_chains (bc_hash s1) = (h_chains (bc_hash s))[m := []]"
    using flush_chain [OF Suc(3) m refl] by blast
  have len: "length (h_chains (bc_hash s)) = h_buckets (bc_hash s)"
    using Suc(3) by (simp add: bc_inv_def table_inv_def pair_wf_def hash_wf_def)
  have "\<forall>i < Suc m. h_chains (bc_hash s1) ! i = []" using s1(4) Suc(5) m len by (auto simp: nth_list_update less_Suc_eq)
  then show ?case using Suc(1) [of s1 "Suc m"] Suc(2) s1 m by (simp add: upt_conv_Cons)
qed

text \<open>
  C5. Flushing the binding cache is safe and complete. From any state the daemon keeps, whatever the
  entries and however they collide, \<open>bcache_flush\<close> returns without touching freed memory; afterwards
  no entry is left in memory or in the table, and no expiry timer is pending.
\<close>

theorem bcache_flush_empties:
  assumes "bc_inv {} s"
  shows "\<exists>s'. bcache_flush s = Some s' \<and> bc_inv {} s' \<and> (\<forall>p. bc_ents s' p = None) \<and>
    (\<forall>our peer. bcache_get our peer s' = Some None) \<and> (\<forall>p. tq_pending (bc_tq s') (bce_tqe p) = None)"
proof -
  obtain s' where s': "hash_iterate bc_hash bce_cleanup_entry s = Some (0, s')" "bc_inv {} s'"
    "\<forall>i < h_buckets (bc_hash s'). h_chains (bc_hash s') ! i = []"
    using flush_buckets [OF assms, of 0] by (auto simp: hash_iterate_def)
  have tb: "table_inv {} s'" and tm: "timer_inv {} s'" using s'(2) by (simp_all add: bc_inv_def)
  have none: "pair_lookup (bc_hash s') k = None" for k
    using s'(3) slot_less [of "bc_hash s'"] tb
    by (simp add: pair_lookup_def hash_map_def chain_of_def chain_map_def table_inv_def pair_wf_def)
  have ents: "bc_ents s' p = None" for p
    using table_inv_entry [OF tb, of p] none by (cases "bc_ents s' p") auto
  have "tq_pending (bc_tq s') (bce_tqe p) = None" for p
    using tm ents [of p] unfolding timer_inv_def tq_pending_def by (metis option.distinct(1))
  then show ?thesis
    using s'(1,2) ents none bcache_get_inv [OF tb] by (simp add: bcache_flush_def)
qed

definition bc0 :: bcache where
  "bc0 = \<lparr>bc_kg = kg0, bc_hash = \<lparr>h_buckets = 32, h_type = DOUBLE_ADDR, h_chains = replicate 32 []\<rparr>,
          bc_ents = Map.empty, bc_out = []\<rparr>"

lemma bc0_inv: "bc_inv {} bc0"
proof -
  have "pair_wf (bc_hash bc0)" "pair_lookup (bc_hash bc0) k = None" for k
    using hash_init_wf [of 32 DOUBLE_ADDR "bc_hash bc0"]
    by (simp_all add: bc0_def hash_init_def pair_wf_def pair_lookup_def)
  then have "table_inv {} bc0" by (intro table_invI) (simp_all add: bc0_def)
  moreover have "tq_expires (bc_tq bc0) (bce_tqe p) = tszero" for p
    by (simp add: bc_tq_def bc0_def kg0_def empty_queue_def)
  ultimately show ?thesis using kg0_wf by (simp add: bc_inv_def timer_inv_def) (simp add: bc0_def)
qed

theorem bcache_flush_empties_witness:
  "\<exists>s s'. bc_inv {} s \<and> bc_ents s 1 \<noteq> None \<and> bcache_flush s = Some s' \<and> bc_ents s' 1 = None"
proof -
  have a: "bc_inv {1} (bcache_alloc 1 bc0)" using bcache_alloc_inv [OF bc0_inv, of 1] by (simp add: bc0_def)
  define e where "e = zero_bce\<lparr>bce_lifetime := Timespec 420 0\<rparr>"
  define s1 where "s1 = upd_ent 1 e (bcache_alloc 1 bc0)"
  have z: "bc_ents (bcache_alloc 1 bc0) 1 = Some zero_bce" by (simp add: bcache_alloc_def)
  have "bc_inv {1} s1"
    unfolding s1_def by (rule upd_ent_inv [OF a z]) (simp_all add: e_def zero_bce_def)
  moreover have "pair_lookup (bc_hash s1) (ent_key e) = None"
    using hash_init_wf [of 32 DOUBLE_ADDR "bc_hash bc0"]
    by (simp add: s1_def bcache_alloc_def bc0_def hash_init_def pair_lookup_def)
  ultimately obtain s where s: "bc_inv {} s" "bc_ents s = (bc_ents s1)(1 \<mapsto> e\<lparr>bce_unreach := 0, bce_add_time := Timespec 1 0\<rparr>)"
    using bcache_add_inv [of 1 "{}" s1 e "Timespec 1 0"]
    by (auto simp: s1_def e_def zero_bce_def nonce_live_def time_ok_def life_ok_def ts_ok_def)
  obtain s' where "bcache_flush s = Some s'" "\<forall>p. bc_ents s' p = None" using bcache_flush_empties [OF s(1)] by blast
  then show ?thesis using s by (intro exI [of _ s] exI [of _ s']) simp
qed

end
