(* ===== verification/Icmp6.thy ===== *)
theory Icmp6
  imports Mh
begin

text \<open>
  ICMPv6 of the Mobile IPv6 daemon (\<open>src/protocols/umip/src/icmp6.c\<close>): handlers by type, messages, and
  the search for the home addresses in the packet an error message carries.
\<close>

abbreviation (input) ICMP6_DST_UNREACH :: u8 where "ICMP6_DST_UNREACH \<equiv> 1"

definition icmp6_type_map :: "u8 \<Rightarrow> nat" where
  "icmp6_type_map t =
     (if t = ICMP6_DST_UNREACH then 0 else if t = 4 then 1 else if t = 134 then 3 else if t = 136 then 4
      else if t = 144 then 5 else if t = 145 then 6 else if t = 146 then 7 else if t = 147 then 8 else 9)"

text \<open>The handler lists have the form of those for mobility headers.\<close>

definition icmp6_handler_get :: "u8 \<Rightarrow> mh_handlers \<Rightarrow> nat" where
  "icmp6_handler_get t s = mh_heads s (icmp6_type_map t)"

definition icmp6_handler_reg :: "u8 \<Rightarrow> nat \<Rightarrow> mh_handlers \<Rightarrow> mh_handlers cres" where
  "icmp6_handler_reg t h s =
     (if mh_next s h \<noteq> 0 then None
      else Some (s\<lparr>mh_next := (mh_next s)(h := mh_heads s (icmp6_type_map t)),
                   mh_heads := (mh_heads s)(icmp6_type_map t := h)\<rparr>))"

definition icmp6_handler_dereg :: "u8 \<Rightarrow> nat \<Rightarrow> mh_handlers \<Rightarrow> mh_handlers cres" where
  "icmp6_handler_dereg t h s =
     (let i = icmp6_type_map t in
      if mh_heads s i = 0 then Some s
      else if mh_heads s i = h then Some (s\<lparr>mh_heads := (mh_heads s)(i := mh_next s h), mh_next := (mh_next s)(h := 0)\<rparr>)
      else dereg_loop h (mh_heads s i) s)"

text \<open>The listener's work on one packet of \<open>len\<close> bytes: the handler it calls, if any.\<close>

definition icmp6_listen_one :: "mh_handlers \<Rightarrow> bytes \<Rightarrow> int \<Rightarrow> nat option" where
  "icmp6_listen_one hs msg len =
     (if len < 8 then None
      else let h = icmp6_handler_get (msg ! 0) hs in if h = 0 then None else Some h)"

definition icmp6_msglen :: "u8 \<Rightarrow> nat" where
  "icmp6_msglen t =
     (if t = 134 then 16 else if t = 135 \<or> t = 136 then 24 else if t = 137 then 40 else 8)"

definition icmp6_create :: "bool \<Rightarrow> u8 \<Rightarrow> u8 \<Rightarrow> bytes option" where
  "icmp6_create ok t code = (if ok then Some ([t, code] @ replicate (icmp6_msglen t - 2) 0) else None)"

record icmp6_packet =
  ip_src :: in6_addr
  ip_dst :: in6_addr
  ip_oif :: int
  ip_hops :: nat
  ip_data :: bytes

text \<open>The packet handed to \<open>sendmsg\<close>, or \<open>-ENOMEM\<close>.\<close>

definition icmp6_send :: "bool \<Rightarrow> int \<Rightarrow> u8 \<Rightarrow> in6_addr \<Rightarrow> in6_addr \<Rightarrow> bytes list \<Rightarrow> int + icmp6_packet" where
  "icmp6_send mem oif hoplimit src dst datav =
     (if \<not> mem then Inl (- ENOMEM)
      else Inr \<lparr>ip_src = src, ip_dst = dst, ip_oif = (if oif > 0 then oif else 0),
                ip_hops = (if hoplimit = 0 then 64 else unat hoplimit), ip_data = concat datav\<rparr>)"

section \<open>The packet inside an error message\<close>

text \<open>
  Reads of the packet are checked: outside of the buffer the result is \<open>None\<close>. An address in the packet
  is named by its offset, as the code points to it.
\<close>

definition rd :: "bytes \<Rightarrow> nat \<Rightarrow> u8 cres" where
  "rd d i = (if i < length d then Some (d ! i) else None)"

definition rd_in6 :: "bytes \<Rightarrow> nat \<Rightarrow> in6_addr cres" where
  "rd_in6 d i = (if i + 16 \<le> length d then Some (take 16 (drop i d)) else None)"

abbreviation (input) IPPROTO_HOPOPTS :: u8 where "IPPROTO_HOPOPTS \<equiv> 0"
abbreviation (input) IPPROTO_ROUTING :: u8 where "IPPROTO_ROUTING \<equiv> 43"
abbreviation (input) IPPROTO_DSTOPTS :: u8 where "IPPROTO_DSTOPTS \<equiv> 60"
abbreviation (input) IP6OPT_HOME_ADDRESS :: u8 where "IP6OPT_HOME_ADDRESS \<equiv> 0xc9"

text \<open>
  The home address option of a destination options header that starts at \<open>h\<close> and is \<open>hlen\<close> bytes long,
  searched from \<open>off\<close>.
\<close>

function hao_loop :: "bytes \<Rightarrow> nat \<Rightarrow> nat \<Rightarrow> nat \<Rightarrow> nat option cres" where
  "hao_loop d h hlen off =
     (if off < hlen then do {
        t \<leftarrow> rd d (h + off);
        (if t = 0 then hao_loop d h hlen (Suc off)
         else if hlen < off + 2 then Some None
         else do {
           n \<leftarrow> rd d (h + off + 1);
           (if hlen < off + 2 + unat n then Some None
            else if t = IP6OPT_HOME_ADDRESS \<and> unat n = 16 then Some (Some (h + off + 2))
            else hao_loop d h hlen (off + 2 + unat n)) }) }
      else Some None)"
  by pat_completeness auto
termination
  by (relation "measure (\<lambda>(d, h, hlen, off). hlen - off)") auto

text \<open>The walk over the extension headers: the result code with the local and the remote address.\<close>

function ext_loop :: "bytes \<Rightarrow> nat \<Rightarrow> nat \<Rightarrow> u8 \<Rightarrow> nat \<Rightarrow> nat \<Rightarrow> (int \<times> nat \<times> nat) cres" where
  "ext_loop d len hoff htype l r =
     (if hoff + 8 < len then do {
        n \<leftarrow> rd d (Suc hoff);
        (let hlen = (unat n + 1) * 8 in
         if htype \<noteq> IPPROTO_DSTOPTS \<and> htype \<noteq> IPPROTO_ROUTING \<and> htype \<noteq> IPPROTO_HOPOPTS then Some (0, l, r)
         else if len < hoff + hlen then Some (-1, l, r)
         else do {
           hao \<leftarrow> (if htype = IPPROTO_DSTOPTS then hao_loop d hoff hlen 2 else Some None);
           rt \<leftarrow> (if htype = IPPROTO_ROUTING then rd d (hoff + 2) else Some 0);
           segleft \<leftarrow> (if htype = IPPROTO_ROUTING then rd d (hoff + 3) else Some 0);
           next_hdr \<leftarrow> rd d hoff;
           ext_loop d len (hoff + hlen) next_hdr
             (case hao of Some a \<Rightarrow> a | None \<Rightarrow> l)
             (if rt = 2 \<and> n = 2 \<and> segleft = 1 then hoff + 8 else r) }) }
      else Some (0, l, r))"
  by pat_completeness auto
termination
  by (relation "measure (\<lambda>(d, len, hoff, htype, l, r). len - hoff)") auto

definition icmp6_parse_data :: "bytes \<Rightarrow> nat \<Rightarrow> nat \<Rightarrow> nat \<Rightarrow> (int \<times> nat \<times> nat) cres" where
  "icmp6_parse_data d len lhoa rhoa =
     (if len < 40 then Some (-1, lhoa, rhoa)
      else do { htype \<leftarrow> rd d 6; ext_loop d len 40 htype lhoa rhoa })"

declare hao_loop.simps [simp del] ext_loop.simps [simp del]

text \<open>
  Whatever the packet holds, only bytes of its \<open>len\<close> are read, the walk ends, and the addresses found lie
  inside.
\<close>

lemma rd_inside: "i < length d \<Longrightarrow> rd d i = Some (d ! i)"
  by (simp add: rd_def)

lemma hao_loop_inside:
  "h + hlen \<le> length d \<Longrightarrow> \<exists>x. hao_loop d h hlen off = Some x \<and> (\<forall>a. x = Some a \<longrightarrow> a + 16 \<le> h + hlen)"
proof (induction d h hlen off rule: hao_loop.induct)
  case (1 d h hlen off)
  show ?case
  proof (cases "off < hlen")
    case False
    then show ?thesis by (simp add: hao_loop.simps [of d h hlen off])
  next
    case off: True
    have t: "rd d (h + off) = Some (d ! (h + off))" using off 1(3) by (intro rd_inside) simp
    show ?thesis
    proof (cases "d ! (h + off) = 0")
      case True
      then have "hao_loop d h hlen off = hao_loop d h hlen (Suc off)" using off t by (simp add: hao_loop.simps [of d h hlen off])
      then show ?thesis using 1(1) [OF off t True 1(3)] by simp
    next
      case nz: False
      show ?thesis
      proof (cases "hlen < off + 2")
        case True
        then show ?thesis using off t nz by (simp add: hao_loop.simps [of d h hlen off])
      next
        case two: False
        have n: "rd d (h + off + 1) = Some (d ! (h + off + 1))" using two 1(3) by (intro rd_inside) simp
        let ?n = "unat (d ! (h + off + 1))"
        have eq: "hao_loop d h hlen off = (if hlen < off + 2 + ?n then Some None
            else if d ! (h + off) = IP6OPT_HOME_ADDRESS \<and> ?n = 16 then Some (Some (h + off + 2))
            else hao_loop d h hlen (off + 2 + ?n))"
          using off t nz two n by (simp add: hao_loop.simps [of d h hlen off])
        show ?thesis using eq 1(2) [OF off t nz two n _ _ 1(3)] by auto
      qed
    qed
  qed
qed

lemma ext_loop_inside:
  assumes "len \<le> length d" "l + 16 \<le> length d" "r + 16 \<le> length d"
  shows "\<exists>c l' r'. ext_loop d len hoff htype l r = Some (c, l', r') \<and> l' + 16 \<le> length d \<and> r' + 16 \<le> length d"
  using assms
proof (induction d len hoff htype l r rule: ext_loop.induct)
  case (1 d len hoff htype l r)
  show ?case
  proof (cases "hoff + 8 < len")
    case False
    then show ?thesis using 1(3,4) by (simp add: ext_loop.simps [of d len hoff htype l r])
  next
    case h: True
    have rd: "rd d i = Some (d ! i)" if "i < hoff + 8" for i using that h 1(2) by (intro rd_inside) simp
    let ?n = "d ! Suc hoff"
    let ?hlen = "(unat ?n + 1) * 8"
    let ?ext = "htype = IPPROTO_DSTOPTS \<or> htype = IPPROTO_ROUTING \<or> htype = IPPROTO_HOPOPTS"
    show ?thesis
    proof (cases "?ext \<and> \<not> len < hoff + ?hlen")
      case False
      then show ?thesis using h rd 1(3,4) by (auto simp: ext_loop.simps [of d len hoff htype l r] Let_def)
    next
      case True
      obtain x where x: "(if htype = IPPROTO_DSTOPTS then hao_loop d hoff ?hlen 2 else Some None) = Some x"
        "\<forall>a. x = Some a \<longrightarrow> a + 16 \<le> hoff + ?hlen"
        using hao_loop_inside [of hoff ?hlen d 2] True 1(2) by (cases "htype = IPPROTO_DSTOPTS") auto
      let ?l = "case x of Some a \<Rightarrow> a | None \<Rightarrow> l"
      let ?rt = "if htype = IPPROTO_ROUTING then d ! (hoff + 2) else 0"
      let ?sl = "if htype = IPPROTO_ROUTING then d ! (hoff + 3) else 0"
      let ?r = "if ?rt = 2 \<and> ?n = 2 \<and> ?sl = 1 then hoff + 8 else r"
      have rt: "(if htype = IPPROTO_ROUTING then rd d (hoff + 2) else Some 0) = Some ?rt"
        "(if htype = IPPROTO_ROUTING then rd d (hoff + 3) else Some 0) = Some ?sl" using rd by simp_all
      have b: "?l + 16 \<le> length d" "?r + 16 \<le> length d"
        using x(2) True 1(2-4) by (auto split: option.split)
      have eq: "ext_loop d len hoff htype l r = ext_loop d len (hoff + ?hlen) (d ! hoff) ?l ?r"
        using h rd True x(1) rt by (auto simp: ext_loop.simps [of d len hoff htype l r] Let_def)
      have e: "\<not> (htype \<noteq> IPPROTO_DSTOPTS \<and> htype \<noteq> IPPROTO_ROUTING \<and> htype \<noteq> IPPROTO_HOPOPTS)" "\<not> len < hoff + ?hlen"
        using True by auto
      show ?thesis
        unfolding eq using 1(1) [OF h rd refl e x(1) rt rd 1(2) b] by simp
    qed
  qed
qed

lemma icmp6_parse_data_inside:
  assumes "len \<le> length d"
  shows "\<exists>c l r. icmp6_parse_data d len 8 24 = Some (c, l, r) \<and> (0 \<le> c \<longrightarrow> l + 16 \<le> length d \<and> r + 16 \<le> length d)"
proof (cases "len < 40")
  case False
  then have "rd d 6 = Some (d ! 6)" using assms by (intro rd_inside) simp
  then show ?thesis using ext_loop_inside [of len d 8 24 40 "d ! 6"] assms False by (auto simp: icmp6_parse_data_def)
qed (simp add: icmp6_parse_data_def)

end
