(* ===== verification/Policy.thy ===== *)
theory Policy
  imports Mh
begin

text \<open>
  The default policy of the Mobile IPv6 daemon (\<open>src/protocols/umip/src/policy.c\<close>): an access list by
  home address, kept in a hash table, that decides on binding updates.
\<close>

abbreviation (input) IP6_MH_BAS_ACCEPTED :: int where "IP6_MH_BAS_ACCEPTED \<equiv> 0"
abbreviation (input) IP6_MH_BAS_UNSPECIFIED :: int where "IP6_MH_BAS_UNSPECIFIED \<equiv> 128"
abbreviation (input) IP6_MH_BAS_PROHIBIT :: int where "IP6_MH_BAS_PROHIBIT \<equiv> 129"
abbreviation (input) IP6_MH_BAS_MR_OP_NOT_PERMITTED :: int where "IP6_MH_BAS_MR_OP_NOT_PERMITTED \<equiv> 140"
abbreviation (input) IP6_MH_BAS_NOT_AUTH_FOR_PRFX :: int where "IP6_MH_BAS_NOT_AUTH_FOR_PRFX \<equiv> 142"

record policy_bind_acl_entry =
  acl_hoa :: in6_addr
  acl_plen :: int
  acl_bind_policy :: int
  acl_mnp_count :: int
  acl_mob_net_prefixes :: "prefix_list_entry list"

text \<open>The part of the configuration the policy reads.\<close>

record policy_conf =
  cf_HaAcceptMobRtr :: bool
  cf_HaMaxBindingLife :: int
  cf_KeyMngMobCapability :: int
  cf_DefaultBindingAclPolicy :: int
  cf_bind_acl :: "policy_bind_acl_entry list"

text \<open>The table is absent before it is set up and after it is freed.\<close>

record policy_state =
  po_hash :: "policy_bind_acl_entry hash option"
  po_def :: int

text \<open>The flags of a binding update, in the byte order of a little-endian host.\<close>

definition bu_flags :: "bytes \<Rightarrow> u16" where "bu_flags bu = be16 (bu ! 9) (bu ! 8)"

definition IP6_MH_BU_ACK :: u16 where "IP6_MH_BU_ACK = 0x0080"
definition IP6_MH_BU_HOME :: u16 where "IP6_MH_BU_HOME = 0x0040"
definition IP6_MH_BU_MR :: u16 where "IP6_MH_BU_MR = 0x0004"

definition bu_flag :: "u16 \<Rightarrow> bytes \<Rightarrow> bool" where
  "bu_flag f bu \<longleftrightarrow> bu_flags bu AND f \<noteq> 0"

definition default_max_binding_life :: "policy_conf \<Rightarrow> bytes \<Rightarrow> timespec option" where
  "default_max_binding_life cf bu =
     (if bu_flag IP6_MH_BU_HOME bu then Some (tssetsec (cf_HaMaxBindingLife cf)) else None)"

lemma opt_next_loop_later:
  "opt_next_loop msg t i lst = Some j \<Longrightarrow> i < j \<and> j \<le> lst \<and> msg ! j = t"
proof (induction msg t i lst rule: opt_next_loop.induct)
  case (1 msg t i lst)
  define n where "n = (if msg ! i = IP6_MHOPT_PAD1 then Suc i else i + unat (msg ! Suc i) + 2)"
  have i: "i < lst" using 1(2) by (subst (asm) opt_next_loop.simps) (simp split: if_splits)
  have later: "i < n" by (simp add: n_def)
  have run: "(if n \<le> lst \<and> msg ! n = t then Some n else opt_next_loop msg t n lst) = Some j"
    using 1(2) i by (subst (asm) opt_next_loop.simps) (simp only: n_def Let_def if_True)
  show ?case
  proof (cases "n \<le> lst \<and> msg ! n = t")
    case True
    then show ?thesis using run later by auto
  next
    case False
    then have "opt_next_loop msg t n lst = Some j" using run by auto
    then show ?thesis using 1(1) [OF i n_def False] later by auto
  qed
qed

text \<open>The loop over the prefix options of an update, from the one at \<open>i\<close>.\<close>

function check_mnp_loop :: "prefix_list_entry list \<Rightarrow> bytes \<Rightarrow> mh_options \<Rightarrow> nat \<Rightarrow> int cres" where
  "check_mnp_loop pl bu mo i = do {
     r \<leftarrow> prefix_list_get pl (take 16 (drop (i + 4) bu)) (uint (bu ! (i + 3)));
     (if r = None then Some IP6_MH_BAS_NOT_AUTH_FOR_PRFX
      else case mh_opt_next bu mo (Some i) of
        None \<Rightarrow> Some IP6_MH_BAS_ACCEPTED
      | Some j \<Rightarrow> check_mnp_loop pl bu mo j) }"
  by pat_completeness auto
termination
proof (relation "measure (\<lambda>(pl, bu, mo, i). mo_end mo (unat (bu ! i)) - i)")
  show "((pl, bu, mo, j), pl, bu, mo, i) \<in> measure (\<lambda>(pl, bu, mo, i). mo_end mo (unat (bu ! i)) - i)"
    if "mh_opt_next bu mo (Some i) = Some j" for pl bu mo i j
    using opt_next_loop_later [of bu "bu ! i" i "mo_end mo (unat (bu ! i))" j] that
    by (simp add: mh_opt_next_def diff_less_mono2)
qed simp

definition policy_check_mob_net_prefix :: "policy_bind_acl_entry \<Rightarrow> bytes \<Rightarrow> mh_options \<Rightarrow> int cres" where
  "policy_check_mob_net_prefix acl bu mo =
     (case mh_opt mo IP6_MHOPT_MOB_NET_PRFX of
        None \<Rightarrow> Some IP6_MH_BAS_ACCEPTED
      | Some i \<Rightarrow> check_mnp_loop (acl_mob_net_prefixes acl) bu mo i)"

definition default_discard_binding :: "policy_conf \<Rightarrow> policy_state \<Rightarrow> in6_addr \<Rightarrow> bytes \<Rightarrow> int \<Rightarrow> int cres" where
  "default_discard_binding cf s remote_hoa bu len =
     (if bu_flag IP6_MH_BU_MR bu \<and> \<not> cf_HaAcceptMobRtr cf then Some IP6_MH_BAS_MR_OP_NOT_PERMITTED
      else do {
        h \<leftarrow> po_hash s;
        acl \<leftarrow> hash_get h None remote_hoa;
        (case acl of
           None \<Rightarrow> Some (po_def s)
         | Some a \<Rightarrow>
             if acl_bind_policy a < IP6_MH_BAS_UNSPECIFIED \<and> bu_flag IP6_MH_BU_MR bu
             then policy_check_mob_net_prefix a bu (snd (mh_opt_parse bu len 12))
             else Some (acl_bind_policy a)) })"

definition default_use_keymgm :: "policy_conf \<Rightarrow> int" where
  "default_use_keymgm cf = cf_KeyMngMobCapability cf"

definition default_get_mnp_count :: "policy_state \<Rightarrow> in6_addr \<Rightarrow> int cres" where
  "default_get_mnp_count s hoa = do {
     h \<leftarrow> po_hash s;
     acl \<leftarrow> hash_get h None hoa;
     Some (case acl of None \<Rightarrow> 0 | Some a \<Rightarrow> acl_mnp_count a) }"

text \<open>The prefixes copied into an array of \<open>mnp_count\<close> elements; their number is the result.\<close>

definition default_get_mnps :: "policy_state \<Rightarrow> in6_addr \<Rightarrow> int \<Rightarrow> prefix_list_entry list cres" where
  "default_get_mnps s hoa mnp_count = do {
     h \<leftarrow> po_hash s;
     acl \<leftarrow> hash_get h None hoa;
     Some (case acl of None \<Rightarrow> [] | Some a \<Rightarrow> take (nat mnp_count) (acl_mob_net_prefixes a)) }"

definition policy_bind_acl_cleanup :: "policy_state \<Rightarrow> policy_state" where
  "policy_bind_acl_cleanup s = s\<lparr>po_def := IP6_MH_BAS_PROHIBIT, po_hash := None\<rparr>"

definition policy_cleanup :: "policy_state \<Rightarrow> policy_state" where
  "policy_cleanup s = policy_bind_acl_cleanup s"

definition policy_bind_acl_add ::
  "bool \<Rightarrow> policy_bind_acl_entry \<Rightarrow> policy_bind_acl_entry hash \<Rightarrow> (int \<times> policy_bind_acl_entry hash) cres" where
  "policy_bind_acl_add mem acl h = hash_add mem h acl None (acl_hoa acl)"

text \<open>
  The entries of the configured list move into the table; \<open>mem\<close> says for each home address whether
  there is memory. The rest of the list is the last component.
\<close>

fun acl_config_loop ::
  "(in6_addr \<Rightarrow> bool) \<Rightarrow> int \<Rightarrow> policy_bind_acl_entry list \<Rightarrow> policy_bind_acl_entry hash \<Rightarrow> policy_state \<Rightarrow>
     (int \<times> policy_state \<times> policy_bind_acl_entry list) cres" where
  "acl_config_loop mem err [] h s = Some (err, s\<lparr>po_hash := Some h\<rparr>, [])"
| "acl_config_loop mem err (a # as) h s = do {
     (err, h) \<leftarrow> policy_bind_acl_add (mem (acl_hoa a)) a h;
     if err < 0 then Some (err, policy_bind_acl_cleanup s, a # as)
     else acl_config_loop mem err as h s }"

definition policy_bind_acl_config ::
  "bool \<Rightarrow> (in6_addr \<Rightarrow> bool) \<Rightarrow> policy_conf \<Rightarrow> policy_state \<Rightarrow> (int \<times> policy_state \<times> policy_bind_acl_entry list) cres" where
  "policy_bind_acl_config tab mem cf s = do {
     (err, h) \<leftarrow> hash_init tab SINGLE_ADDR 32;
     (case h of
        None \<Rightarrow> Some (err, s, cf_bind_acl cf)
      | Some h \<Rightarrow> acl_config_loop mem err (cf_bind_acl cf) h (s\<lparr>po_def := cf_DefaultBindingAclPolicy cf\<rparr>)) }"

definition policy_init ::
  "bool \<Rightarrow> bool \<Rightarrow> (in6_addr \<Rightarrow> bool) \<Rightarrow> policy_conf \<Rightarrow> policy_state \<Rightarrow> (int \<times> policy_state \<times> policy_bind_acl_entry list) cres" where
  "policy_init lock_ok tab mem cf s =
     (if \<not> lock_ok then Some (-1, s, cf_bind_acl cf) else policy_bind_acl_config tab mem cf s)"

section \<open>What a configuration decides\<close>

lemma acl_config_loop_map:
  assumes "hash_wf h" "h_type h = SINGLE_ADDR" "distinct (map acl_hoa as)"
    "\<forall>a \<in> set as. hash_map h (None, acl_hoa a) = None" "\<forall>a \<in> set as. mem (acl_hoa a)"
  shows "\<exists>h'. acl_config_loop mem 0 as h s = Some (0, s\<lparr>po_hash := Some h'\<rparr>, []) \<and> hash_wf h' \<and> h_type h' = SINGLE_ADDR \<and>
    (\<forall>a. hash_map h' (None, a) =
       (case find (\<lambda>e. acl_hoa e = a) as of Some e \<Rightarrow> Some e | None \<Rightarrow> hash_map h (None, a)))"
  using assms
proof (induction as arbitrary: h)
  case Nil
  then show ?case by (intro exI [of _ h]) simp
next
  case (Cons x xs)
  obtain h1 where h1: "hash_add True h x None (acl_hoa x) = Some (0, h1)" "hash_wf h1" "h_type h1 = SINGLE_ADDR"
    "hash_map h1 = (hash_map h)((None, acl_hoa x) \<mapsto> x)"
    using hash_add_new [OF Cons(2), of None "(None, acl_hoa x)" "acl_hoa x" x] Cons(3,5)
    by (auto simp: key_ok_def key_of_def)
  have x: "acl_hoa x \<notin> acl_hoa ` set xs" "mem (acl_hoa x)" using Cons(4,6) by simp_all
  have neq: "acl_hoa a \<noteq> acl_hoa x" if "a \<in> set xs" for a using x(1) imageI [OF that, of acl_hoa] by metis
  then have new: "\<forall>a \<in> set xs. hash_map h1 (None, acl_hoa a) = None" using Cons(5) h1(4) by simp
  obtain h' where h': "acl_config_loop mem 0 xs h1 s = Some (0, s\<lparr>po_hash := Some h'\<rparr>, [])" "hash_wf h'" "h_type h' = SINGLE_ADDR"
    "\<forall>a. hash_map h' (None, a) = (case find (\<lambda>e. acl_hoa e = a) xs of Some e \<Rightarrow> Some e | None \<Rightarrow> hash_map h1 (None, a))"
    using Cons(1) [OF h1(2,3) _ new] Cons(4,6) by auto
  have "find (\<lambda>e. acl_hoa e = acl_hoa x) xs = None" using neq by (auto simp: find_None_iff)
  then have g: "hash_map h' (None, a) =
      (case find (\<lambda>e. acl_hoa e = a) (x # xs) of Some e \<Rightarrow> Some e | None \<Rightarrow> hash_map h (None, a))" for a
    using h'(4) h1(4) by (auto split: option.split)
  have "acl_config_loop mem 0 (x # xs) h s = Some (0, s\<lparr>po_hash := Some h'\<rparr>, [])"
    using h'(1) h1(1) x(2) by (simp add: policy_bind_acl_add_def)
  then show ?case using h'(2,3) g by blast
qed

lemma policy_init_map:
  assumes "distinct (map acl_hoa (cf_bind_acl cf))"
  shows "\<exists>h. policy_init True True (\<lambda>_. True) cf s =
      Some (0, s\<lparr>po_def := cf_DefaultBindingAclPolicy cf, po_hash := Some h\<rparr>, []) \<and>
    (\<forall>a. hash_get h None a = Some (find (\<lambda>e. acl_hoa e = a) (cf_bind_acl cf)))"
proof -
  obtain h0 :: "policy_bind_acl_entry hash" where h0: "hash_init True SINGLE_ADDR 32 = Some (0, Some h0)"
    by (simp add: hash_init_def)
  note wf = hash_init_wf [OF _ h0]
  obtain h where h: "acl_config_loop (\<lambda>_. True) 0 (cf_bind_acl cf) h0 (s\<lparr>po_def := cf_DefaultBindingAclPolicy cf\<rparr>) =
      Some (0, s\<lparr>po_def := cf_DefaultBindingAclPolicy cf, po_hash := Some h\<rparr>, [])" "hash_wf h" "h_type h = SINGLE_ADDR"
    "\<forall>a. hash_map h (None, a) =
       (case find (\<lambda>e. acl_hoa e = a) (cf_bind_acl cf) of Some e \<Rightarrow> Some e | None \<Rightarrow> hash_map h0 (None, a))"
    using acl_config_loop_map [of h0 "cf_bind_acl cf" "\<lambda>_. True" "s\<lparr>po_def := cf_DefaultBindingAclPolicy cf\<rparr>"] wf assms by auto
  have "hash_get h None a = Some (find (\<lambda>e. acl_hoa e = a) (cf_bind_acl cf))" for a
    using hash_get_map [OF h(2), of None a] h(3,4) wf by (simp add: key_ok_def key_of_def split: option.split)
  then show ?thesis
    using h(1) h0 by (intro exI [of _ h]) (simp add: policy_init_def policy_bind_acl_config_def)
qed

text \<open>
  A binding update without the mobile router flag is decided by the first entry of the configured
  list for its home address, and by the default when there is none.
\<close>

lemma default_discard_binding_acl:
  assumes "distinct (map acl_hoa (cf_bind_acl cf))" "\<not> bu_flag IP6_MH_BU_MR bu"
    and "policy_init True True (\<lambda>_. True) cf s = Some (0, s', l)"
  shows "default_discard_binding cf s' hoa bu len =
    Some (case find (\<lambda>e. acl_hoa e = hoa) (cf_bind_acl cf) of
            Some a \<Rightarrow> acl_bind_policy a | None \<Rightarrow> cf_DefaultBindingAclPolicy cf)"
  using policy_init_map [OF assms(1), of s] assms(2,3)
  by (auto simp: default_discard_binding_def split: option.split)

end
