(* ===== verification/Cn.thy ===== *)
theory Cn
  imports Bcache Icmp6 Policy
begin

text \<open>
  The correspondent node of the Mobile IPv6 daemon (\<open>src/protocols/umip/src/cn.c\<close>): return routability
  tests, binding updates and unreachable care-of addresses, on the binding cache. Every handler is
  one step; the locks it takes and releases in between are not modelled.
\<close>

text \<open>
  What a handler meets: the functions of libcrypto, the clock, the outcomes of allocation (for
  messages, control buffers, table nodes and entries), the configuration, and the policy hook.
\<close>

record cn_env =
  en_hmac :: "bytes \<Rightarrow> bytes \<Rightarrow> bytes"
  en_sha1 :: "bytes \<Rightarrow> bytes"
  en_now :: timespec
  en_ok :: bool
  en_mem :: bool
  en_tab :: bool
  en_malloc :: "(nat \<rightharpoonup> bcentry) \<Rightarrow> nat"
  en_nonvolatile :: bool
  en_refresh :: "timespec option"
  en_discard :: "in6_addr \<Rightarrow> in6_addr \<Rightarrow> in6_addr \<Rightarrow> bytes \<Rightarrow> int \<Rightarrow> int cres"

abbreviation (input) IP6_MH_BAS_INSUFFICIENT :: int where "IP6_MH_BAS_INSUFFICIENT \<equiv> 130"
abbreviation (input) IP6_MH_BAS_HA_NOT_SUPPORTED :: int where "IP6_MH_BAS_HA_NOT_SUPPORTED \<equiv> 131"
abbreviation (input) IP6_MH_BAS_SEQNO_BAD :: int where "IP6_MH_BAS_SEQNO_BAD \<equiv> 135"
abbreviation (input) IP6_MH_BAS_REG_NOT_ALLOWED :: int where "IP6_MH_BAS_REG_NOT_ALLOWED \<equiv> 139"

definition max_rr_binding_lifetime_ts :: timespec where
  "max_rr_binding_lifetime_ts = Timespec 420 0"

definition sent :: "mh_packet option \<Rightarrow> bc_effect list" where
  "sent r = (case r of None \<Rightarrow> [] | Some p \<Rightarrow> [Sent p])"

definition reply_bundle :: "in6_addr_bundle \<Rightarrow> in6_addr_bundle" where
  "reply_bundle inb = \<lparr>ab_src = ab_dst inb, ab_dst = ab_src inb, ab_local_coa = None, ab_remote_coa = None, ab_bind_coa = None\<rparr>"

section \<open>Return routability tests\<close>

text \<open>
  The answer to a test: nonce index, the cookie of the request, the token. A message that cannot be
  allocated is written to all the same.
\<close>

definition answer_test :: "cn_env \<Rightarrow> u8 \<Rightarrow> u8 \<Rightarrow> bytes \<Rightarrow> in6_addr_bundle \<Rightarrow> int \<Rightarrow> bcache \<Rightarrow> bcache cres" where
  "answer_test en t b msg inb iif s = do {
     m \<leftarrow> mh_create (en_ok en) t;
     (ix, tok, kg) \<leftarrow> rr_cn_keygen_token (en_hmac en) (en_now en) (ab_src inb) b (bc_kg s);
     r \<leftarrow> mh_send (en_hmac en) (en_mem en) (reply_bundle inb)
            [take 6 m @ [hi8 ix, lo8 ix] @ take 8 (drop 8 msg) @ take 8 tok] None iif;
     Some (emits (sent r) (s\<lparr>bc_kg := kg\<rparr>)) }"

definition cn_recv_hoti :: "cn_env \<Rightarrow> bytes \<Rightarrow> int \<Rightarrow> in6_addr_bundle \<Rightarrow> int \<Rightarrow> bcache \<Rightarrow> bcache cres" where
  "cn_recv_hoti en msg len inb iif s =
     (if len < 16 \<or> ab_remote_coa inb \<noteq> None then Some s
      else answer_test en IP6_MH_TYPE_HOT 0 msg inb iif s)"

definition cn_recv_coti :: "cn_env \<Rightarrow> bytes \<Rightarrow> int \<Rightarrow> in6_addr_bundle \<Rightarrow> int \<Rightarrow> bcache \<Rightarrow> bcache cres" where
  "cn_recv_coti en msg len inb iif s =
     (if len < 16 \<or> ab_remote_coa inb \<noteq> None then Some s
      else answer_test en IP6_MH_TYPE_COT 1 msg inb iif s)"

section \<open>Unreachable destinations\<close>

text \<open>
  The message starts with an ICMPv6 header of eight bytes, which the listener has checked for; the
  packet that was not delivered follows. Its length is passed on as an unsigned number. The two
  addresses are pointers into that packet, at first to its source and destination.
\<close>

definition bce_unreachable :: "in6_addr \<Rightarrow> in6_addr \<Rightarrow> bcache \<Rightarrow> bcache cres" where
  "bce_unreachable laddr raddr s = do {
     bce \<leftarrow> bcache_get laddr raddr s;
     (case bce of
        None \<Rightarrow> Some s
      | Some p \<Rightarrow> do {
          e \<leftarrow> bc_ents s p;
          (let s' = upd_ent p (e\<lparr>bce_unreach := bce_unreach e + 1\<rparr>) s
           in if bce_unreach e + 1 > 3 \<and> bce_typ e \<noteq> BCE_HOMEREG then bcache_delete laddr raddr s'
              else Some s') }) }"

definition cn_recv_dst_unreach :: "bytes \<Rightarrow> int \<Rightarrow> bcache \<Rightarrow> bcache cres" where
  "cn_recv_dst_unreach msg len s = do {
     (c, l, r) \<leftarrow> icmp6_parse_data (drop 8 msg) (nat ((len - 8) mod 2 ^ 32)) 8 24;
     (if c < 0 then Some s
      else do {
        laddr \<leftarrow> rd_in6 (drop 8 msg) l;
        raddr \<leftarrow> rd_in6 (drop 8 msg) r;
        bce_unreachable laddr raddr s }) }"

section \<open>Binding updates\<close>

definition home_nonce :: "bytes \<Rightarrow> nat \<Rightarrow> u16" where
  "home_nonce bu i = be16 (bu ! (i + 2)) (bu ! (i + 3))"

definition coa_nonce :: "bytes \<Rightarrow> nat \<Rightarrow> u16" where
  "coa_nonce bu i = be16 (bu ! (i + 4)) (bu ! (i + 5))"

text \<open>
  The checks of a correspondent node: on the left a negative number to drop the update or an error
  status, on the right the binding key and the message with its checksum cleared.
\<close>

definition cn_bu_check ::
  "cn_env \<Rightarrow> bytes \<Rightarrow> int \<Rightarrow> mh_options \<Rightarrow> in6_addr \<Rightarrow> in6_addr \<Rightarrow> in6_addr \<Rightarrow> timespec \<Rightarrow> bcache \<Rightarrow> (int + bytes \<times> bytes) cres" where
  "cn_bu_check en bu len mo peer_addr our_addr bind_coa lft s =
     (if bu_flag IP6_MH_BU_HOME bu then
        (if mh_opt mo IP6_MHOPT_NONCEID \<noteq> None then Some (Inl (-1))
         else do {
           found \<leftarrow> bce_exists our_addr peer_addr s;
           Some (Inl (if found then IP6_MH_BAS_REG_NOT_ALLOWED else IP6_MH_BAS_HA_NOT_SUPPORTED)) })
      else case mh_opt mo IP6_MHOPT_NONCEID of
        None \<Rightarrow> Some (Inl (-1))
      | Some i \<Rightarrow>
          (case (if tsisset lft
                 then rr_cn_calc_Kbm (en_hmac en) (en_sha1 en) (en_now en) (home_nonce bu i) (coa_nonce bu i) peer_addr (Some bind_coa) (bc_kg s)
                 else rr_cn_calc_Kbm (en_hmac en) (en_sha1 en) (en_now en) (home_nonce bu i) 0 peer_addr None (bc_kg s)) of
             Inl ret \<Rightarrow> Some (Inl ret)
           | Inr key \<Rightarrow>
               (case mh_opt mo IP6_MHOPT_BAUTH of
                  None \<Rightarrow> Some (Inl (-1))
                | Some b \<Rightarrow>
                    let bu' = bu[4 := 0, 5 := 0] in
                    if mh_verify_auth_data (en_hmac en) bu' (nat len) b bind_coa our_addr key < 0 then Some (Inl (-1))
                    else Some (Inr (key, bu')))))"

text \<open>
  The end of a refused update; \<open>held\<close> says that an entry was found and is to go.
\<close>

definition send_nack ::
  "cn_env \<Rightarrow> in6_addr_bundle \<Rightarrow> int \<Rightarrow> u16 \<Rightarrow> bytes option \<Rightarrow> int \<Rightarrow> bool \<Rightarrow> bcache \<Rightarrow> bcache cres" where
  "send_nack en out status seqno pkey iif held s = do {
     s \<leftarrow> (if held then bcache_delete (ab_src out) (ab_dst out) s else Some s);
     ba \<leftarrow> mh_send_ba_err (en_hmac en) (en_ok en) (en_mem en) (en_nonvolatile en) (en_refresh en)
             out (word_of_int status) 0 seqno pkey iif;
     Some (emits (map Sent ba) s) }"

definition send_ack ::
  "cn_env \<Rightarrow> in6_addr_bundle \<Rightarrow> int \<Rightarrow> u16 \<Rightarrow> timespec \<Rightarrow> bytes \<Rightarrow> bytes \<Rightarrow> int \<Rightarrow> bcache \<Rightarrow> bcache cres" where
  "send_ack en out status seqno lft key bu iif s =
     (if bu_flag IP6_MH_BU_ACK bu then do {
        ba \<leftarrow> mh_send_ba (en_hmac en) (en_ok en) (en_mem en) (en_nonvolatile en) (en_refresh en)
                out (word_of_int status) 0 seqno lft (Some key) iif;
        Some (emits (map Sent ba) s) }
      else Some s)"

text \<open>
  The sequence number against the entry there is: a refusal with its status, number and key, or the
  entry to update. A block on a nonce is lifted by an update with another nonce or a later number.
\<close>

datatype cn_verdict = Refuse int u16 "bytes option" | Proceed "nat option"

definition cn_bu_seqno ::
  "u16 \<Rightarrow> u16 \<Rightarrow> timespec \<Rightarrow> bytes \<Rightarrow> in6_addr \<Rightarrow> in6_addr \<Rightarrow> bcache \<Rightarrow> (cn_verdict \<times> bcache) cres" where
  "cn_bu_seqno seqno nonce_hoa lft key our peer s = do {
     r \<leftarrow> bcache_get our peer s;
     (case r of
        None \<Rightarrow> Some (Proceed None, s)
      | Some p \<Rightarrow> do {
          e \<leftarrow> bc_ents s p;
          (if \<not> MIP6_SEQ_GT seqno (bce_seqno e) \<and> bce_typ e \<noteq> BCE_NONCE_BLOCK
           then Some (Refuse IP6_MH_BAS_SEQNO_BAD (bce_seqno e) (Some key), s)
           else if \<not> MIP6_SEQ_GT seqno (bce_seqno e) \<and> bce_nonce_hoa e = nonce_hoa
           then Some (Refuse IP6_MH_BAS_NI_EXPIRED seqno None, s)
           else if bce_typ e = BCE_NONCE_BLOCK then
             (if \<not> tsisset lft then Some (Refuse IP6_MH_BAS_UNSPECIFIED seqno None, s)
              else do { s \<leftarrow> bcache_delete our peer s; Some (Proceed None, s) })
           else Some (Proceed (Some p), s)) }) }"

definition bind_entry :: "in6_addr \<Rightarrow> u16 \<Rightarrow> u16 \<Rightarrow> u16 \<Rightarrow> u16 \<Rightarrow> timespec \<Rightarrow> bcentry \<Rightarrow> bcentry" where
  "bind_entry coa seqno flags nonce_coa nonce_hoa lft e =
     e\<lparr>bce_coa := coa, bce_seqno := seqno, bce_flags := flags, bce_unreach := 0, bce_typ := BCE_CACHED,
       bce_nonce_coa := nonce_coa, bce_nonce_hoa := nonce_hoa, bce_lifetime := lft\<rparr>"

definition rr_lifetime :: "timespec \<Rightarrow> timespec" where
  "rr_lifetime lft = (if tsbefore lft max_rr_binding_lifetime_ts then max_rr_binding_lifetime_ts else lft)"

definition cn_bu_register ::
  "cn_env \<Rightarrow> in6_addr_bundle \<Rightarrow> in6_addr \<Rightarrow> int \<Rightarrow> u16 \<Rightarrow> nat \<Rightarrow> timespec \<Rightarrow> bytes \<Rightarrow> bytes \<Rightarrow> int \<Rightarrow> nat option \<Rightarrow> bcache \<Rightarrow> bcache cres" where
  "cn_bu_register en out coa status seqno i lft key bu iif bce s =
     (let lft = rr_lifetime lft;
          fill = bind_entry coa seqno (bu_flags bu) (coa_nonce bu i) (home_nonce bu i) lft
      in case bce of
        Some p \<Rightarrow> do {
          e \<leftarrow> bc_ents s p;
          s \<leftarrow> bcache_update_expire (en_now en) p (upd_ent p (fill e) s);
          send_ack en out status seqno lft key bu iif s }
      | None \<Rightarrow>
          let p = en_malloc en (bc_ents s) in
          if p = 0 then send_nack en out IP6_MH_BAS_INSUFFICIENT seqno (Some key) iif False s
          else do {
            s \<leftarrow> Some (bcache_alloc p s);
            e \<leftarrow> bc_ents s p;
            (r, s) \<leftarrow> bcache_add (en_tab en) (en_now en) p
                       (upd_ent p (fill (e\<lparr>bce_our_addr := ab_src out, bce_peer_addr := ab_dst out\<rparr>)) s);
            if r < 0 then send_nack en out IP6_MH_BAS_INSUFFICIENT seqno (Some key) iif False (bcache_free p s)
            else send_ack en out status seqno lft key bu iif s })"

text \<open>What is done with an update that passed the checks.\<close>

definition cn_bu_authorized ::
  "cn_env \<Rightarrow> in6_addr_bundle \<Rightarrow> in6_addr \<Rightarrow> mh_options \<Rightarrow> timespec \<Rightarrow> u16 \<Rightarrow> bytes \<Rightarrow> bytes \<Rightarrow> int \<Rightarrow> int \<Rightarrow> bcache \<Rightarrow> bcache cres" where
  "cn_bu_authorized en out coa mo lft seqno key bu len iif s = do {
     i \<leftarrow> mh_opt mo IP6_MHOPT_NONCEID;
     (v, s) \<leftarrow> cn_bu_seqno seqno (home_nonce bu i) lft key (ab_src out) (ab_dst out) s;
     (case v of
        Refuse st sq pk \<Rightarrow> send_nack en out st sq pk iif False s
      | Proceed bce \<Rightarrow> do {
          status \<leftarrow> en_discard en (ab_dst out) coa (ab_src out) bu len;
          (if status \<ge> IP6_MH_BAS_UNSPECIFIED then send_nack en out status seqno (Some key) iif (bce \<noteq> None) s
           else if tsisset lft then cn_bu_register en out coa status seqno i lft key bu iif bce s
           else case bce of
             None \<Rightarrow> send_nack en out IP6_MH_BAS_UNSPECIFIED seqno None iif False s
           | Some p \<Rightarrow> do {
               s \<leftarrow> bcache_delete (ab_src out) (ab_dst out) s;
               send_ack en out IP6_MH_BAS_ACCEPTED seqno lft key bu iif s }) }) }"

definition bu_seqno :: "bytes \<Rightarrow> u16" where "bu_seqno bu = be16 (bu ! 6) (bu ! 7)"

definition cn_recv_bu :: "cn_env \<Rightarrow> bytes \<Rightarrow> int \<Rightarrow> in6_addr_bundle \<Rightarrow> int \<Rightarrow> bcache \<Rightarrow> bcache cres" where
  "cn_recv_bu en bu len inb iif s = do {
     r \<leftarrow> mh_bu_parse (\<lambda>a b. bce_exists a b s) bu len inb;
     (case r of
        None \<Rightarrow> Some s
      | Some bp \<Rightarrow> do {
          coa \<leftarrow> ab_bind_coa (bp_out bp);
          chk \<leftarrow> cn_bu_check en bu len (bp_opts bp) (ab_dst (bp_out bp)) (ab_src (bp_out bp)) coa (bp_lft bp) s;
          (case chk of
             Inl st \<Rightarrow> if st < 0 then Some s else send_nack en (bp_out bp) st (bu_seqno bu) None iif False s
           | Inr (key, bu') \<Rightarrow>
               cn_bu_authorized en (bp_out bp) coa (bp_opts bp) (bp_lft bp) (bu_seqno bu') key bu' len iif s) }) }"

text \<open>Registration of the handlers, which are static objects, and the end of the role.\<close>

definition cn_bu_handler :: nat where "cn_bu_handler = 1"
definition cn_coti_handler :: nat where "cn_coti_handler = 2"
definition cn_hoti_handler :: nat where "cn_hoti_handler = 3"
definition cn_dst_unreach_handler :: nat where "cn_dst_unreach_handler = 4"

definition cn_init :: "mh_handlers \<Rightarrow> mh_handlers \<Rightarrow> (mh_handlers \<times> mh_handlers) cres" where
  "cn_init icmp mh = do {
     icmp \<leftarrow> icmp6_handler_reg ICMP6_DST_UNREACH cn_dst_unreach_handler icmp;
     mh \<leftarrow> mh_handler_reg 1 cn_hoti_handler mh;
     mh \<leftarrow> mh_handler_reg 2 cn_coti_handler mh;
     mh \<leftarrow> mh_handler_reg IP6_MH_TYPE_BU cn_bu_handler mh;
     Some (icmp, mh) }"

definition cn_cleanup :: "mh_handlers \<Rightarrow> mh_handlers \<Rightarrow> bcache \<Rightarrow> (mh_handlers \<times> mh_handlers \<times> bcache) cres" where
  "cn_cleanup icmp mh s = do {
     mh \<leftarrow> mh_handler_dereg IP6_MH_TYPE_BU cn_bu_handler mh;
     mh \<leftarrow> mh_handler_dereg 2 cn_coti_handler mh;
     mh \<leftarrow> mh_handler_dereg 1 cn_hoti_handler mh;
     icmp \<leftarrow> icmp6_handler_dereg ICMP6_DST_UNREACH cn_dst_unreach_handler icmp;
     s \<leftarrow> bcache_flush s;
     Some (icmp, mh, s) }"

section \<open>Handlers keep the invariant\<close>

text \<open>
  The clock shows a time after 1970 began, an allocated address was free, and the policy hook
  returns.
\<close>

definition env_ok :: "cn_env \<Rightarrow> bool" where
  "env_ok en \<longleftrightarrow> time_ok (en_now en) \<and> 0 < tv_sec (en_now en) \<and>
     (\<forall>m. en_malloc en m = 0 \<or> m (en_malloc en m) = None) \<and>
     (\<forall>hoa coa our bu len. en_discard en hoa coa our bu len \<noteq> None)"

text \<open>
  The effect of a handler on the cache: the nonces stay, no binding but the one for \<open>k\<close> changes,
  and that one is as \<open>Q\<close> says if it changes.
\<close>

definition bc_step :: "(bcentry option \<Rightarrow> bool) \<Rightarrow> in6_addr \<times> in6_addr \<Rightarrow> bcache \<Rightarrow> bcache \<Rightarrow> bool" where
  "bc_step Q k s s' \<longleftrightarrow> (\<exists>q. bc_kg s' = (bc_kg s)\<lparr>kg_tq := q\<rparr>) \<and>
     (\<forall>k'. k' \<noteq> k \<longrightarrow> bc_view s' k' = bc_view s k') \<and> (bc_view s' k = bc_view s k \<or> Q (bc_view s' k))"

lemma bc_step_refl [simp]: "bc_step Q k s s"
  by (simp add: bc_step_def) (intro exI [of _ "kg_tq (bc_kg s)"], simp)

lemma bc_step_emits [simp]: "bc_step Q k s (emits xs s') = bc_step Q k s s'"
  by (simp add: bc_step_def)

lemma bc_step_trans:
  assumes "bc_step Q k s s1" "bc_step Q k s1 s2"
  shows "bc_step Q k s s2"
proof -
  have "\<exists>q. bc_kg s2 = (bc_kg s)\<lparr>kg_tq := q\<rparr>" using assms by (auto simp: bc_step_def)
  then show ?thesis using assms unfolding bc_step_def by auto
qed

lemma nonce_live_step: "bc_step Q k s s' \<Longrightarrow> nonce_live (bc_kg s') e = nonce_live (bc_kg s) e"
  by (auto simp: bc_step_def nonce_live_def)

definition no_binding :: "bcentry option \<Rightarrow> bool" where
  "no_binding x \<longleftrightarrow> (\<forall>e. x = Some e \<longrightarrow> bce_typ e = BCE_NONCE_BLOCK)"

lemma bcache_delete_step:
  assumes inv: "bc_inv {} s"
  shows "\<exists>s'. bcache_delete our peer s = Some s' \<and> bc_inv {} s' \<and> bc_step no_binding (our, peer) s s' \<and>
    (\<forall>e. bc_view s (our, peer) = Some e \<and> bce_typ e = BCE_NONCE_BLOCK \<longrightarrow> bc_view s' (our, peer) = None) \<and>
    dom (bc_ents s') \<subseteq> dom (bc_ents s)"
proof -
  have tb: "table_inv {} s" using inv by (simp add: bc_inv_def)
  obtain s' where s': "bcache_delete our peer s = Some s'" "bc_inv {} s'"
    "case pair_lookup (bc_hash s) (our, peer) of None \<Rightarrow> s' = s
     | Some p \<Rightarrow> \<exists>e. bc_ents s p = Some e \<and> ent_key e = (our, peer) \<and> p \<notin> {} \<and> bce_gone p e False s s'"
    using bcache_delete_inv [OF inv] by blast
  show ?thesis
  proof (cases "pair_lookup (bc_hash s) (our, peer)")
    case None
    then show ?thesis using s' by (auto simp: bc_view_def)
  next
    case (Some p)
    then obtain e where e: "bc_ents s p = Some e" "ent_key e = (our, peer)" "bce_gone p e False s s'" using s'(3) by auto
    note v = bc_view_gone [OF tb e(1) _ e(3)]
    have k: "bc_view s (our, peer) = Some e" using bc_view_entry [OF tb e(1)] e(2) by simp
    have "bc_step no_binding (our, peer) s s'"
      using v e(2,3) by (auto simp: bc_step_def bce_gone_def no_binding_def split: option.splits)
    moreover have "bce_typ e = BCE_NONCE_BLOCK \<longrightarrow> bc_view s' (our, peer) = None"
      using v e(2) by (auto simp: bce_blocked_def)
    moreover have "dom (bc_ents s') \<subseteq> dom (bc_ents s)" using e(1,3) by (auto simp: bce_gone_def split: option.splits)
    ultimately show ?thesis using s'(1,2) k by auto
  qed
qed

lemma send_nack_step:
  assumes inv: "bc_inv {} s" and out: "ab_bind_coa out \<noteq> None"
  shows "\<exists>s'. send_nack en out st sq pk iif held s = Some s' \<and> bc_inv {} s' \<and>
    bc_step no_binding (ab_src out, ab_dst out) s s' \<and> (\<not> held \<longrightarrow> bc_view s' = bc_view s)"
proof -
  obtain s1 where s1: "(if held then bcache_delete (ab_src out) (ab_dst out) s else Some s) = Some s1" "bc_inv {} s1"
    "bc_step no_binding (ab_src out, ab_dst out) s s1" "\<not> held \<longrightarrow> s1 = s"
    using bcache_delete_step [OF inv, of "ab_src out" "ab_dst out"] inv by (cases held) auto
  obtain ba where "mh_send_ba_err (en_hmac en) (en_ok en) (en_mem en) (en_nonvolatile en) (en_refresh en)
      out (word_of_int st) 0 sq pk iif = Some ba"
    unfolding mh_send_ba_err_def using mh_send_ba_some [OF out] by blast
  then show ?thesis using s1 by (auto simp: send_nack_def)
qed

lemma send_ack_emits:
  assumes "ab_bind_coa out \<noteq> None"
  shows "\<exists>xs. send_ack en out st sq lft key bu iif s = Some (emits xs s)"
proof -
  obtain ba where "mh_send_ba (en_hmac en) (en_ok en) (en_mem en) (en_nonvolatile en) (en_refresh en)
      out (word_of_int st) 0 sq lft (Some key) iif = Some ba"
    using mh_send_ba_some [OF assms] by blast
  then show ?thesis by (cases "bu_flag IP6_MH_BU_ACK bu") (auto simp: send_ack_def intro: exI [of _ "[]"])
qed

lemma bcache_get_view:
  assumes "bc_inv {} s"
  obtains "bcache_get our peer s = Some None" "bc_view s (our, peer) = None" "pair_lookup (bc_hash s) (our, peer) = None"
  | p e where "bcache_get our peer s = Some (Some p)" "bc_ents s p = Some e" "ent_key e = (our, peer)"
      "bc_view s (our, peer) = Some e" "pair_lookup (bc_hash s) (our, peer) = Some p"
proof (cases "pair_lookup (bc_hash s) (our, peer)")
  case None
  then show ?thesis using that(1) assms bcache_get_inv [of "{}" s our peer] by (simp add: bc_inv_def bc_view_def)
next
  case (Some p)
  then obtain e where "bc_ents s p = Some e" "ent_key e = (our, peer)"
    using table_inv_found [OF _ Some] assms by (auto simp: bc_inv_def)
  then show ?thesis
    using that(2) [of p e] assms bcache_get_inv [of "{}" s our peer] Some by (simp add: bc_inv_def bc_view_def)
qed

lemma bce_exists_view: "bc_inv {} s \<Longrightarrow> bce_exists our peer s = Some (bc_view s (our, peer) \<noteq> None)"
  by (rule bcache_get_view [of s our peer]) (auto simp: bce_exists_def bce_type_of_def)

text \<open>The sequence check proceeds only for a number after the last one, or past a block on another nonce.\<close>

definition seq_ok :: "u16 \<Rightarrow> u16 \<Rightarrow> bcentry option \<Rightarrow> bool" where
  "seq_ok seqno nonce x \<longleftrightarrow> (\<forall>e. x = Some e \<longrightarrow>
     MIP6_SEQ_GT seqno (bce_seqno e) \<or> bce_typ e = BCE_NONCE_BLOCK \<and> bce_nonce_hoa e \<noteq> nonce)"

lemma cn_bu_seqno_step:
  assumes inv: "bc_inv {} s"
  shows "\<exists>v s'. cn_bu_seqno seqno nonce lft key our peer s = Some (v, s') \<and> bc_inv {} s' \<and>
    bc_step no_binding (our, peer) s s' \<and> dom (bc_ents s') \<subseteq> dom (bc_ents s) \<and>
    (case v of
       Refuse st sq pk \<Rightarrow> s' = s \<and> \<not> (seq_ok seqno nonce (bc_view s (our, peer)) \<and> tsisset lft)
     | Proceed None \<Rightarrow> seq_ok seqno nonce (bc_view s (our, peer)) \<and> pair_lookup (bc_hash s') (our, peer) = None
     | Proceed (Some p) \<Rightarrow> seq_ok seqno nonce (bc_view s (our, peer)) \<and> s' = s \<and>
         (\<exists>e. bc_ents s p = Some e \<and> ent_key e = (our, peer) \<and> bc_view s (our, peer) = Some e))"
proof (rule bcache_get_view [OF inv, of our peer])
  assume "bcache_get our peer s = Some None" "bc_view s (our, peer) = None" "pair_lookup (bc_hash s) (our, peer) = None"
  then show ?thesis
    using inv by (intro exI [of _ "Proceed None"] exI [of _ s]) (simp add: cn_bu_seqno_def seq_ok_def)
next
  fix p e assume p: "bcache_get our peer s = Some (Some p)" "bc_ents s p = Some e" "ent_key e = (our, peer)"
    "bc_view s (our, peer) = Some e" "pair_lookup (bc_hash s) (our, peer) = Some p"
  let ?gt = "MIP6_SEQ_GT seqno (bce_seqno e)"
  let ?nb = "bce_typ e = BCE_NONCE_BLOCK"
  consider "\<not> ?gt" "\<not> ?nb" | "\<not> ?gt" "?nb" "bce_nonce_hoa e = nonce" | "?gt \<or> bce_nonce_hoa e \<noteq> nonce" "?nb" "\<not> tsisset lft"
    | "?gt \<or> bce_nonce_hoa e \<noteq> nonce" "?nb" "tsisset lft" | "?gt" "\<not> ?nb"
    by blast
  then show ?thesis
  proof cases
    case 1
    then show ?thesis
      using p inv by (intro exI [of _ "Refuse IP6_MH_BAS_SEQNO_BAD (bce_seqno e) (Some key)"] exI [of _ s]) (simp add: cn_bu_seqno_def seq_ok_def)
  next
    case 2
    then show ?thesis
      using p inv by (intro exI [of _ "Refuse IP6_MH_BAS_NI_EXPIRED seqno None"] exI [of _ s]) (simp add: cn_bu_seqno_def seq_ok_def)
  next
    case 3
    then show ?thesis
      using p inv by (intro exI [of _ "Refuse IP6_MH_BAS_UNSPECIFIED seqno None"] exI [of _ s]) (auto simp: cn_bu_seqno_def)
  next
    case 4
    obtain s' where s': "bcache_delete our peer s = Some s'" "bc_inv {} s'" "bc_step no_binding (our, peer) s s'"
      "bc_view s' (our, peer) = None" "dom (bc_ents s') \<subseteq> dom (bc_ents s)"
      using bcache_delete_step [OF inv, of our peer] p(4) 4(2) by blast
    have "pair_lookup (bc_hash s') (our, peer) = None"
      using s'(4) bc_view_found [of "{}" s' "(our, peer)"] s'(2) by (cases "pair_lookup (bc_hash s') (our, peer)") (auto simp: bc_inv_def)
    then show ?thesis
      using 4 s' p by (intro exI [of _ "Proceed None"] exI [of _ s']) (auto simp: cn_bu_seqno_def seq_ok_def)
  next
    case 5
    then show ?thesis
      using p inv by (intro exI [of _ "Proceed (Some p)"] exI [of _ s]) (simp add: cn_bu_seqno_def seq_ok_def)
  qed
qed

definition bound_to :: "in6_addr \<Rightarrow> u16 \<Rightarrow> bcentry \<Rightarrow> bool" where
  "bound_to coa sq e \<longleftrightarrow> bce_typ e = BCE_CACHED \<and> bce_coa e = coa \<and> bce_seqno e = sq \<and>
     bce_lifetime e \<le> max_rr_binding_lifetime_ts"

definition bound_or_gone :: "in6_addr \<Rightarrow> u16 \<Rightarrow> bcentry option \<Rightarrow> bool" where
  "bound_or_gone coa sq x \<longleftrightarrow> (\<forall>e. x = Some e \<longrightarrow> bce_typ e = BCE_NONCE_BLOCK \<or> bound_to coa sq e)"

lemma bc_step_gone: "bc_step no_binding k s s' \<Longrightarrow> bc_step (bound_or_gone coa sq) k s s'"
  by (auto simp: bc_step_def no_binding_def bound_or_gone_def)

lemma rr_lifetime_ok:
  assumes "ts_ok lft" "2 < tv_sec lft"
  shows "ts_ok (rr_lifetime lft)" "2 < tv_sec (rr_lifetime lft)" "rr_lifetime lft \<le> max_rr_binding_lifetime_ts"
  using assms by (auto simp: rr_lifetime_def max_rr_binding_lifetime_ts_def ts_ok_def)

lemma bind_entry_fields [simp]:
  "bce_typ (bind_entry coa sq fl nc nh lft e) = BCE_CACHED" "bce_lifetime (bind_entry coa sq fl nc nh lft e) = lft"
  "bce_nonce_hoa (bind_entry coa sq fl nc nh lft e) = nh" "ent_key (bind_entry coa sq fl nc nh lft e) = ent_key e"
  "bce_coa (bind_entry coa sq fl nc nh lft e) = coa" "bce_seqno (bind_entry coa sq fl nc nh lft e) = sq"
  by (simp_all add: bind_entry_def ent_key_def)

lemma update_step:
  assumes inv: "bc_inv {} s" and p: "bc_ents s p = Some e" "ent_key e = k" and f: "f = bind_entry coa sq fl nc nh lft e"
    and lft: "ts_ok lft" "2 < tv_sec lft" "lft \<le> max_rr_binding_lifetime_ts" and now: "time_ok now"
    and live: "\<forall>t. snd (rr_cn_nonce_lft nh (bc_kg s)) = Some t \<longrightarrow> tsisset t"
  shows "\<exists>s'. bcache_update_expire now p (upd_ent p f s) = Some s' \<and> bc_inv {} s' \<and>
    bc_step (bound_or_gone coa sq) k s s' \<and> (\<exists>e'. bc_view s' k = Some e' \<and> bound_to coa sq e')"
proof -
  have tb: "table_inv {} s" using inv by (simp add: bc_inv_def)
  let ?e = "f\<lparr>bce_add_time := now, bce_typ := (if bce_typ f = BCE_HOMEREG then BCE_HOMEREG else BCE_CACHED)\<rparr>"
  define s1 where "s1 = upd_ent p f s"
  have i1: "bc_inv {} s1"
    unfolding s1_def using live by (intro upd_ent_inv [OF inv p(1)]) (simp_all add: f nonce_live_def)
  have s1: "bc_ents s1 p = Some f" "bc_view s1 = (bc_view s)(k \<mapsto> f)" "bc_kg s1 = bc_kg s"
    using bc_view_upd [OF tb p(1), of f] p(2) by (simp_all add: s1_def)
  have e: "bound_to coa sq ?e" "ent_key f = k" "nonce_live (bc_kg s1) ?e" "life_ok f"
    using lft live p(2) s1(3) by (simp_all add: f bound_to_def life_ok_def nonce_live_def)
  have tb1: "table_inv {} s1" using i1 by (simp add: bc_inv_def)
  have "bc_view (upd_ent p ?e s1) = (bc_view s1)(ent_key f \<mapsto> ?e)" by (rule bc_view_upd [OF tb1 s1(1)]) simp
  then have v: "bc_view (upd_ent p ?e s1) = (bc_view s)(k \<mapsto> ?e)" using e(2) s1(2) by simp
  obtain q where q: "bcache_update_expire now p s1 = Some (emit (Xfrm_add (bce_our_addr f) (bce_peer_addr f) (bce_coa f) True)
      (with_tq q (upd_ent p ?e s1)))" "bc_inv {} (with_tq q (upd_ent p ?e s1))"
    using bcache_update_expire_inv [OF i1 s1(1) _ refl e(3) now e(4)] by auto
  define s' where "s' = emit (Xfrm_add (bce_our_addr f) (bce_peer_addr f) (bce_coa f) True) (with_tq q (upd_ent p ?e s1))"
  have "bc_view s' = (bc_view s)(k \<mapsto> ?e)" "bc_kg s' = (bc_kg s)\<lparr>kg_tq := q\<rparr>"
    using v s1(3) by (simp_all add: s'_def bc_kg_with_tq)
  then have "bc_step (bound_or_gone coa sq) k s s'" "bc_view s' k = Some ?e"
    using e(1) by (auto simp: bc_step_def bound_or_gone_def)
  moreover have "bc_inv {} s'" using q(2) by (simp add: s'_def)
  moreover have "bcache_update_expire now p (upd_ent p f s) = Some s'" using q(1) by (simp add: s'_def s1_def)
  ultimately show ?thesis using e(1) by (intro exI [of _ s']) simp
qed

text \<open>A new entry: allocated, filled in, added, and given back when the table has no memory for it.\<close>

lemma bcache_add_no_memory:
  assumes "bc_ents s p = Some e"
  shows "bcache_add False now p s = Some (- ENOMEM, upd_ent p (e\<lparr>bce_unreach := 0\<rparr>) s)"
  using assms by (simp add: bcache_add_def bcache_insert_def hash_add_def upd_ent_def)

lemma new_entry:
  assumes inv: "bc_inv {} s" and p: "p \<noteq> 0" "bc_ents s p = None" and k: "k = (our, peer)" "pair_lookup (bc_hash s) k = None"
    and f: "f = bind_entry coa sq fl nc nh lft (zero_bce\<lparr>bce_our_addr := our, bce_peer_addr := peer\<rparr>)"
    and s1: "s1 = upd_ent p f (bcache_alloc p s)"
  shows "bc_inv {p} s1" "bc_ents s1 = (bc_ents s)(p \<mapsto> f)" "bc_hash s1 = bc_hash s" "\<exists>q. bc_kg s1 = (bc_kg s)\<lparr>kg_tq := q\<rparr>"
    "ent_key f = k"
proof -
  have a: "bc_ents (bcache_alloc p s) p = Some zero_bce" using p(1) by (simp add: bcache_alloc_def)
  have "\<not> tsisset (tq_expires (bc_tq (bcache_alloc p s)) (bce_tqe p))"
    using bcache_alloc_inv [OF inv p] by (auto simp: bc_inv_def timer_inv_def)
  then show "bc_inv {p} s1" unfolding s1 using bcache_alloc_inv [OF inv p] by (intro upd_ent_inv [OF _ a]) auto
  show "bc_ents s1 = (bc_ents s)(p \<mapsto> f)" "bc_hash s1 = bc_hash s" "\<exists>q. bc_kg s1 = (bc_kg s)\<lparr>kg_tq := q\<rparr>"
    using p(1) by (auto simp: s1 bcache_alloc_def bc_kg_with_tq)
  show "ent_key f = k" using k(1) by (simp add: f ent_key_def bind_entry_def)
qed

lemma new_entry_step:
  assumes inv: "bc_inv {} s" and p: "p \<noteq> 0" "bc_ents s p = None" and k: "k = (our, peer)" "pair_lookup (bc_hash s) k = None"
    and f: "f = bind_entry coa sq fl nc nh lft (zero_bce\<lparr>bce_our_addr := our, bce_peer_addr := peer\<rparr>)"
    and s1: "s1 = upd_ent p f (bcache_alloc p s)"
    and lft: "ts_ok lft" "2 < tv_sec lft" "lft \<le> max_rr_binding_lifetime_ts" and now: "time_ok now"
    and live: "\<forall>t. snd (rr_cn_nonce_lft nh (bc_kg s)) = Some t \<longrightarrow> tsisset t"
  shows "\<exists>s'. bcache_add True now p s1 = Some (0, s') \<and> bc_inv {} s' \<and>
    bc_step (bound_or_gone coa sq) k s s' \<and> (\<exists>e'. bc_view s' k = Some e' \<and> bound_to coa sq e')"
proof -
  note n = new_entry [OF inv p k f s1]
  have tb: "table_inv {} s" using inv by (simp add: bc_inv_def)
  let ?e = "f\<lparr>bce_unreach := 0, bce_add_time := now\<rparr>"
  have e: "bc_ents s1 p = Some f" "bce_typ f \<noteq> BCE_DAD" "pair_lookup (bc_hash s1) (ent_key f) = None"
    "nonce_live (bc_kg s1) f" "life_ok f" "bound_to coa sq ?e"
    using n(2-5) k(2) lft live by (auto simp: f nonce_live_def life_ok_def bound_to_def)
  obtain s' where s': "bcache_add True now p s1 = Some (0, s')" "bc_inv {} s'" "bc_ents s' = (bc_ents s1)(p \<mapsto> ?e)"
    "pair_lookup (bc_hash s') = (pair_lookup (bc_hash s1))(ent_key f \<mapsto> p)" "\<exists>q. bc_kg s' = (bc_kg s1)\<lparr>kg_tq := q\<rparr>"
    using bcache_add_inv [OF n(1) e(1) _ e(2-4) now e(5)] by auto
  have "bc_view s' = (bc_view s)(k \<mapsto> ?e)"
  proof
    fix k'
    show "bc_view s' k' = ((bc_view s)(k \<mapsto> ?e)) k'"
      using s'(3,4) n(2,3,5) bc_view_other [OF tb, of p k'] p(2)
      by (cases "k' = k") (auto simp: bc_view_def split: option.split)
  qed
  moreover have "\<exists>q. bc_kg s' = (bc_kg s)\<lparr>kg_tq := q\<rparr>" using s'(5) n(4) by auto
  ultimately show ?thesis using s'(1,2) e(6) by (intro exI [of _ s']) (auto simp: bc_step_def bound_or_gone_def)
qed

lemma new_entry_undone:
  assumes inv: "bc_inv {} s" and p: "p \<noteq> 0" "bc_ents s p = None" and k: "k = (our, peer)" "pair_lookup (bc_hash s) k = None"
    and f: "f = bind_entry coa sq fl nc nh lft (zero_bce\<lparr>bce_our_addr := our, bce_peer_addr := peer\<rparr>)"
    and s1: "s1 = upd_ent p f (bcache_alloc p s)"
  shows "\<exists>s2. bcache_add False now p s1 = Some (- ENOMEM, s2) \<and> bc_inv {} (bcache_free p s2) \<and> bc_step Q k s (bcache_free p s2)"
proof -
  note n = new_entry [OF inv p k f s1]
  have tb: "table_inv {} s" using inv by (simp add: bc_inv_def)
  let ?e = "f\<lparr>bce_unreach := 0\<rparr>"
  define s2 where "s2 = upd_ent p ?e s1"
  have fp: "bc_ents s1 p = Some f" using n(2) by simp
  have "\<not> tsisset (tq_expires (bc_tq s1) (bce_tqe p))" using n(1) by (auto simp: bc_inv_def timer_inv_def)
  then have i2: "bc_inv {p} s2" unfolding s2_def by (intro upd_ent_inv [OF n(1) fp]) auto
  have "bcache_add False now p s1 = Some (- ENOMEM, s2)"
    using bcache_add_no_memory [OF fp] by (simp add: s2_def)
  moreover have "bc_inv {} (bcache_free p s2)" using i2 by (intro bcache_free_inv) simp_all
  moreover have "bc_ents (bcache_free p s2) = bc_ents s" "bc_hash (bcache_free p s2) = bc_hash s"
    "\<exists>q. bc_kg (bcache_free p s2) = (bc_kg s)\<lparr>kg_tq := q\<rparr>"
    using n(2-4) p(2) by (auto simp: bcache_free_def s2_def with_tq_def)
  then have "bc_step Q k s (bcache_free p s2)" by (simp add: bc_step_def bc_view_def split: option.split)
  ultimately show ?thesis by blast
qed

lemma cn_bu_register_step:
  assumes inv: "bc_inv {} s" and en: "env_ok en" and out: "ab_bind_coa out \<noteq> None" and k: "k = (ab_src out, ab_dst out)"
    and lft: "ts_ok lft" "2 < tv_sec lft"
    and live: "\<forall>t. snd (rr_cn_nonce_lft (home_nonce bu i) (bc_kg s)) = Some t \<longrightarrow> tsisset t"
    and bce: "case bce of None \<Rightarrow> pair_lookup (bc_hash s) k = None | Some p \<Rightarrow> \<exists>e. bc_ents s p = Some e \<and> ent_key e = k"
  shows "\<exists>s'. cn_bu_register en out coa st sq i lft key bu iif bce s = Some s' \<and> bc_inv {} s' \<and>
    bc_step (bound_or_gone coa sq) k s s' \<and>
    (bce \<noteq> None \<or> en_tab en \<and> en_malloc en (bc_ents s) \<noteq> 0 \<longrightarrow> (\<exists>e. bc_view s' k = Some e \<and> bound_to coa sq e))"
proof -
  note l = rr_lifetime_ok [OF lft]
  have now: "time_ok (en_now en)" using en by (simp add: env_ok_def)
  let ?fill = "bind_entry coa sq (bu_flags bu) (coa_nonce bu i) (home_nonce bu i) (rr_lifetime lft)"
  show ?thesis
  proof (cases bce)
    case (Some p)
    then obtain e where e: "bc_ents s p = Some e" "ent_key e = k" using bce by auto
    obtain s1 where s1: "bcache_update_expire (en_now en) p (upd_ent p (?fill e) s) = Some s1" "bc_inv {} s1"
      "bc_step (bound_or_gone coa sq) k s s1" "\<exists>e'. bc_view s1 k = Some e' \<and> bound_to coa sq e'"
      using update_step [OF inv e refl l now live] by blast
    obtain xs where "send_ack en out st sq (rr_lifetime lft) key bu iif s1 = Some (emits xs s1)"
      using send_ack_emits [OF out] by blast
    then show ?thesis using s1 e(1) Some by (intro exI [of _ "emits xs s1"]) (simp add: cn_bu_register_def)
  next
    case None
    define p where "p = en_malloc en (bc_ents s)"
    have none: "pair_lookup (bc_hash s) k = None" using bce None by simp
    have "en_malloc en m = 0 \<or> m (en_malloc en m) = None" for m using en by (simp add: env_ok_def)
    from this [of "bc_ents s"] have fresh: "p \<noteq> 0 \<Longrightarrow> bc_ents s p = None" by (simp add: p_def)
    define f where "f = ?fill (zero_bce\<lparr>bce_our_addr := ab_src out, bce_peer_addr := ab_dst out\<rparr>)"
    define s1 where "s1 = upd_ent p f (bcache_alloc p s)"
    have run: "cn_bu_register en out coa st sq i lft key bu iif bce s =
        (if p = 0 then send_nack en out IP6_MH_BAS_INSUFFICIENT sq (Some key) iif False s
         else do {
           (r, s) \<leftarrow> bcache_add (en_tab en) (en_now en) p s1;
           if r < 0 then send_nack en out IP6_MH_BAS_INSUFFICIENT sq (Some key) iif False (bcache_free p s)
           else send_ack en out st sq (rr_lifetime lft) key bu iif s })"
      using None by (cases "p = 0") (simp_all add: cn_bu_register_def Let_def p_def [symmetric] s1_def f_def bcache_alloc_def)
    show ?thesis
    proof (cases "p = 0")
      case True
      then show ?thesis
        using run None send_nack_step [OF inv out, of en IP6_MH_BAS_INSUFFICIENT sq "Some key" iif False]
        by (auto simp: k p_def intro: bc_step_gone)
    next
      case p: False
      note ne = inv p fresh [OF p] k none f_def s1_def
      show ?thesis
      proof (cases "en_tab en")
        case True
        obtain s2 where s2: "bcache_add True (en_now en) p s1 = Some (0, s2)" "bc_inv {} s2"
          "bc_step (bound_or_gone coa sq) k s s2" "\<exists>e'. bc_view s2 k = Some e' \<and> bound_to coa sq e'"
          using new_entry_step [OF ne l now live] by blast
        obtain xs where "send_ack en out st sq (rr_lifetime lft) key bu iif s2 = Some (emits xs s2)"
          using send_ack_emits [OF out] by blast
        then show ?thesis using run p True s2 by (intro exI [of _ "emits xs s2"]) simp
      next
        case False
        obtain s2 where s2: "bcache_add False (en_now en) p s1 = Some (- ENOMEM, s2)" "bc_inv {} (bcache_free p s2)"
          "bc_step (bound_or_gone coa sq) k s (bcache_free p s2)"
          using new_entry_undone [OF ne] by blast
        obtain s' where "send_nack en out IP6_MH_BAS_INSUFFICIENT sq (Some key) iif False (bcache_free p s2) = Some s'"
          "bc_inv {} s'" "bc_step no_binding (ab_src out, ab_dst out) (bcache_free p s2) s'"
          using send_nack_step [OF s2(2) out] by blast
        then show ?thesis
          using run p False s2 None bc_step_trans [OF s2(3) bc_step_gone, of s'] by (intro exI [of _ s']) (simp add: k)
      qed
    qed
  qed
qed

section \<open>What an update needs to change the cache\<close>

text \<open>Options are found behind the fixed part of the message, so clearing the checksum does not touch them.\<close>

definition opts_from :: "nat \<Rightarrow> mh_options \<Rightarrow> bool" where
  "opts_from n mo \<longleftrightarrow> (\<forall>t. mo_opts mo t = 0 \<or> n \<le> mo_opts mo t)"

lemma opts_from_upd:
  "opts_from n mo \<Longrightarrow> n \<le> i \<Longrightarrow> opts_from n (mo\<lparr>mo_opts := (mo_opts mo)(t := i)\<rparr>)"
  "opts_from n (mo\<lparr>mo_end := x\<rparr>) = opts_from n mo"
  by (auto simp: opts_from_def)

lemma opt_parse_loop_from:
  "opts_from n mo \<Longrightarrow> n \<le> i \<Longrightarrow> opts_from n (snd (opt_parse_loop msg i left bauth ret mo))"
proof (induction msg i left bauth ret mo rule: opt_parse_loop.induct)
  case (1 msg i left bauth ret mo)
  note mo = 1(6,7)
  show ?case
  proof (cases "left \<le> 0 \<or> bauth")
    case True
    then show ?thesis using mo(1) by (subst opt_parse_loop.simps) auto
  next
    case False
    then have l: "\<not> left \<le> 0" "\<not> bauth" by simp_all
    note IH = 1(1-5) [OF l refl refl]
    show ?thesis by (subst opt_parse_loop.simps) (use l mo IH in \<open>simp add: Let_def opts_from_upd\<close>)
  qed
qed

lemma mh_opt_parse_from: "mh_opt_parse msg len n = (c, mo) \<Longrightarrow> mh_opt mo t = Some i \<Longrightarrow> n \<le> i"
  using opt_parse_loop_from [of n no_opts n msg "len - int n" False 0]
  by (force simp: mh_opt_parse_def mh_opt_def opts_from_def no_opts_def split: if_splits)

lemma cleared_fields:
  "bu_seqno (bu[4 := 0, 5 := 0]) = bu_seqno bu" "bu_flags (bu[4 := 0, 5 := 0]) = bu_flags bu"
  "12 \<le> i \<Longrightarrow> home_nonce (bu[4 := 0, 5 := 0]) i = home_nonce bu i"
  "12 \<le> i \<Longrightarrow> coa_nonce (bu[4 := 0, 5 := 0]) i = coa_nonce bu i"
  by (simp_all add: bu_seqno_def bu_flags_def home_nonce_def coa_nonce_def)

lemma mh_bu_parse_some:
  assumes "mh_bu_parse exist bu len inb = Some (Some bp)"
  shows "ab_src (bp_out bp) = ab_dst inb" "ab_dst (bp_out bp) = ab_src inb" "ab_bind_coa (bp_out bp) \<noteq> None"
    "tsisset (bp_lft bp) \<Longrightarrow> ts_ok (bp_lft bp) \<and> 2 < tv_sec (bp_lft bp)"
    "mh_opt (bp_opts bp) t = Some i \<Longrightarrow> 12 \<le> i"
proof -
  obtain n mo where p: "mh_opt_parse bu len 12 = (n, mo)" by fastforce
  have "4 * x = 0 \<or> 2 < 4 * x" if "0 \<le> x" for x :: int using that by arith
  then have w: "4 * uint w = 0 \<or> 2 < 4 * uint w" for w :: u16 by simp
  have "ab_src (bp_out bp) = ab_dst inb \<and> ab_dst (bp_out bp) = ab_src inb \<and> ab_bind_coa (bp_out bp) \<noteq> None \<and>
    (bp_lft bp = tszero \<or> bp_lft bp = tssetsec (uint (be16 (bu ! 10) (bu ! 11)) * 4)) \<and> bp_opts bp = mo"
    using assms p by (auto simp: mh_bu_parse_def Let_def bind_eq_Some_conv split: if_splits option.splits)
  then show "ab_src (bp_out bp) = ab_dst inb" "ab_dst (bp_out bp) = ab_src inb" "ab_bind_coa (bp_out bp) \<noteq> None"
    "tsisset (bp_lft bp) \<Longrightarrow> ts_ok (bp_lft bp) \<and> 2 < tv_sec (bp_lft bp)"
    "mh_opt (bp_opts bp) t = Some i \<Longrightarrow> 12 \<le> i"
    using w [of "be16 (bu ! 10) (bu ! 11)"] mh_opt_parse_from [OF p, of t i]
    by (auto simp: tssetsec_def tszero_def ts_ok_def mult.commute)
qed

lemma mh_bu_parse_returns:
  assumes "\<And>a b. exist a b \<noteq> None"
  shows "\<exists>r. mh_bu_parse exist bu len inb = Some r"
proof -
  obtain n mo where p: "mh_opt_parse bu len 12 = (n, mo)" by fastforce
  have "exist a b = Some (the (exist a b))" for a b using assms [of a b] by simp
  then obtain f where f: "\<And>a b. exist a b = Some (f a b)" by (rule that)
  show ?thesis using p by (simp add: mh_bu_parse_def Let_def f split: option.split)
qed

lemma validated_nonce_armed:
  assumes "validate_nonce now ix k = Some i" "kg_wf k" "time_ok now" "0 < tv_sec now"
  shows "get_nonce ix k = Some i" "tsisset (nh_until (kg_nonces k ! i))"
proof -
  show g: "get_nonce ix k = Some i" using assms(1) by (auto simp: validate_nonce_def split: option.splits if_splits)
  have "nh_until (kg_nonces k ! i) \<noteq> tszero"
  proof
    assume z: "nh_until (kg_nonces k ! i) = tszero"
    have "ts_ok (tssub tszero now) \<and> nsecs (tssub tszero now) = - nsecs now"
      using tssub_exact [of tszero now] assms(3) by (simp add: time_ok_def tszero_def ts_ok_def nsecs_def)
    moreover have "0 < nsecs now" using assms(3,4) by (simp add: time_ok_def ts_ok_def nsecs_def)
    ultimately have "tv_sec (tssub tszero now) < 0" by (auto simp: ts_ok_def nsecs_def)
    then show False using assms(1) g z by (simp add: validate_nonce_def)
  qed
  then show "tsisset (nh_until (kg_nonces k ! i))" by simp
qed

lemma kbm_home_nonce:
  assumes "rr_cn_calc_Kbm hmac sha1 now h c hoa coa k = Inr key" "kg_wf k" "time_ok now" "0 < tv_sec now"
  shows "\<forall>t. snd (rr_cn_nonce_lft h k) = Some t \<longrightarrow> tsisset t"
proof -
  obtain i where "validate_nonce now h k = Some i"
    using assms(1) by (auto simp: rr_cn_calc_Kbm_def Let_def split: option.splits)
  from validated_nonce_armed [OF this assms(2-4)] show ?thesis by (auto simp: rr_cn_nonce_lft_def)
qed

text \<open>There is memory for one more entry, if none is added to those there are.\<close>

definition has_room :: "cn_env \<Rightarrow> bcache \<Rightarrow> bool" where
  "has_room en s \<longleftrightarrow> (\<forall>m. dom m \<subseteq> dom (bc_ents s) \<longrightarrow> en_malloc en m \<noteq> 0)"

lemma cn_bu_authorized_step:
  assumes inv: "bc_inv {} s" and en: "env_ok en" and out: "ab_bind_coa out \<noteq> None" and k: "k = (ab_src out, ab_dst out)"
    and i: "mh_opt mo IP6_MHOPT_NONCEID = Some i" and lft: "tsisset lft \<Longrightarrow> ts_ok lft \<and> 2 < tv_sec lft"
    and live: "\<forall>t. snd (rr_cn_nonce_lft (home_nonce bu i) (bc_kg s)) = Some t \<longrightarrow> tsisset t"
  shows "\<exists>s'. cn_bu_authorized en out coa mo lft sq key bu len iif s = Some s' \<and> bc_inv {} s' \<and>
    bc_step (bound_or_gone coa sq) k s s' \<and>
    (bc_view s' = bc_view s \<or> seq_ok sq (home_nonce bu i) (bc_view s k)) \<and>
    (seq_ok sq (home_nonce bu i) (bc_view s k) \<and> tsisset lft \<and> en_tab en \<and> has_room en s \<and>
     (\<exists>st. en_discard en (ab_dst out) coa (ab_src out) bu len = Some st \<and> st < IP6_MH_BAS_UNSPECIFIED) \<longrightarrow>
     (\<exists>e. bc_view s' k = Some e \<and> bound_to coa sq e))"
proof -
  obtain v s1 where v: "cn_bu_seqno sq (home_nonce bu i) lft key (ab_src out) (ab_dst out) s = Some (v, s1)" "bc_inv {} s1"
    "bc_step no_binding k s s1" "dom (bc_ents s1) \<subseteq> dom (bc_ents s)"
    "case v of Refuse st sq' pk \<Rightarrow> s1 = s \<and> \<not> (seq_ok sq (home_nonce bu i) (bc_view s k) \<and> tsisset lft)
     | Proceed None \<Rightarrow> seq_ok sq (home_nonce bu i) (bc_view s k) \<and> pair_lookup (bc_hash s1) k = None
     | Proceed (Some p) \<Rightarrow> seq_ok sq (home_nonce bu i) (bc_view s k) \<and> s1 = s \<and>
         (\<exists>e. bc_ents s p = Some e \<and> ent_key e = k \<and> bc_view s k = Some e)"
    using cn_bu_seqno_step [OF inv, of sq "home_nonce bu i" lft key "ab_src out" "ab_dst out"] unfolding k by blast
  show ?thesis
  proof (cases v)
    case (Refuse st sq' pk)
    then have s1: "s1 = s" "\<not> (seq_ok sq (home_nonce bu i) (bc_view s k) \<and> tsisset lft)" using v(5) by simp_all
    obtain s' where s': "send_nack en out st sq' pk iif False s = Some s'" "bc_inv {} s'" "bc_step no_binding k s s'"
      "bc_view s' = bc_view s"
      using send_nack_step [OF inv out, of en st sq' pk iif False] unfolding k by blast
    then have "cn_bu_authorized en out coa mo lft sq key bu len iif s = Some s'"
      using i v(1) Refuse s1(1) by (simp add: cn_bu_authorized_def)
    then show ?thesis using s' s1(2) bc_step_gone [OF s'(3)] by blast
  next
    case (Proceed bce)
    then have sq: "seq_ok sq (home_nonce bu i) (bc_view s k)" using v(5) by (auto split: option.splits)
    have "en_discard en (ab_dst out) coa (ab_src out) bu len \<noteq> None" using en by (simp add: env_ok_def)
    then obtain st where st: "en_discard en (ab_dst out) coa (ab_src out) bu len = Some st" by blast
    note step = bc_step_trans [OF bc_step_gone [OF v(3)]]
    consider "st \<ge> IP6_MH_BAS_UNSPECIFIED" | "st < IP6_MH_BAS_UNSPECIFIED" "tsisset lft"
      | "st < IP6_MH_BAS_UNSPECIFIED" "\<not> tsisset lft" "bce = None" | p where "st < IP6_MH_BAS_UNSPECIFIED" "\<not> tsisset lft" "bce = Some p"
      by fastforce
    then show ?thesis
    proof cases
      case 1
      obtain s' where s': "send_nack en out st sq (Some key) iif (bce \<noteq> None) s1 = Some s'" "bc_inv {} s'" "bc_step no_binding k s1 s'"
        using send_nack_step [OF v(2) out] unfolding k by blast
      then have "cn_bu_authorized en out coa mo lft sq key bu len iif s = Some s'"
        using i v(1) Proceed st 1 by (simp add: cn_bu_authorized_def)
      then show ?thesis using s'(2) sq st 1 step [OF bc_step_gone [OF s'(3)]] by (intro exI [of _ s']) simp
    next
      case 2
      have live1: "\<forall>t. snd (rr_cn_nonce_lft (home_nonce bu i) (bc_kg s1)) = Some t \<longrightarrow> tsisset t"
        using live v(3) by (auto simp: bc_step_def)
      have bce: "case bce of None \<Rightarrow> pair_lookup (bc_hash s1) k = None | Some p \<Rightarrow> \<exists>e. bc_ents s1 p = Some e \<and> ent_key e = k"
        using v(5) Proceed by (auto split: option.splits)
      obtain s' where s': "cn_bu_register en out coa st sq i lft key bu iif bce s1 = Some s'" "bc_inv {} s'"
        "bc_step (bound_or_gone coa sq) k s1 s'"
        "bce \<noteq> None \<or> en_tab en \<and> en_malloc en (bc_ents s1) \<noteq> 0 \<longrightarrow> (\<exists>e. bc_view s' k = Some e \<and> bound_to coa sq e)"
        using cn_bu_register_step [OF v(2) en out k lft [OF 2(2), THEN conjunct1] lft [OF 2(2), THEN conjunct2] live1 bce,
            of coa st sq key iif]
        by (elim exE conjE) (rule that)
      then have "cn_bu_authorized en out coa mo lft sq key bu len iif s = Some s'"
        using i v(1) Proceed st 2 by (simp add: cn_bu_authorized_def)
      moreover have "has_room en s \<longrightarrow> en_malloc en (bc_ents s1) \<noteq> 0" using v(4) by (simp add: has_room_def)
      ultimately show ?thesis using s' sq step [OF s'(3)] by (intro exI [of _ s']) blast
    next
      case 3
      obtain s' where s': "send_nack en out IP6_MH_BAS_UNSPECIFIED sq None iif False s1 = Some s'" "bc_inv {} s'" "bc_step no_binding k s1 s'"
        using send_nack_step [OF v(2) out] unfolding k by blast
      then have "cn_bu_authorized en out coa mo lft sq key bu len iif s = Some s'"
        using i v(1) Proceed st 3 by (simp add: cn_bu_authorized_def)
      then show ?thesis using s'(2) sq 3 step [OF bc_step_gone [OF s'(3)]] by (intro exI [of _ s']) simp
    next
      case 4
      obtain s2 where s2: "bcache_delete (ab_src out) (ab_dst out) s1 = Some s2" "bc_inv {} s2" "bc_step no_binding k s1 s2"
        using bcache_delete_step [OF v(2)] unfolding k by blast
      obtain xs where "send_ack en out IP6_MH_BAS_ACCEPTED sq lft key bu iif s2 = Some (emits xs s2)"
        using send_ack_emits [OF out] by blast
      then have "cn_bu_authorized en out coa mo lft sq key bu len iif s = Some (emits xs s2)"
        using i v(1) Proceed st 4 s2(1) by (simp add: cn_bu_authorized_def)
      then show ?thesis using s2(2) sq 4 step [OF bc_step_gone [OF s2(3)]] by (intro exI [of _ "emits xs s2"]) simp
    qed
  qed
qed

text \<open>
  A binding update that this node may believe: it parses, is not meant for a home agent, names nonces
  that are still valid, and its authorization data verifies under the key made of them.
\<close>

definition bu_key :: "cn_env \<Rightarrow> bytes \<Rightarrow> nat \<Rightarrow> in6_addr \<Rightarrow> in6_addr \<Rightarrow> timespec \<Rightarrow> keygen \<Rightarrow> int + bytes" where
  "bu_key en bu i hoa coa lft k =
     (if tsisset lft
      then rr_cn_calc_Kbm (en_hmac en) (en_sha1 en) (en_now en) (home_nonce bu i) (coa_nonce bu i) hoa (Some coa) k
      else rr_cn_calc_Kbm (en_hmac en) (en_sha1 en) (en_now en) (home_nonce bu i) 0 hoa None k)"

definition bu_authentic ::
  "cn_env \<Rightarrow> bytes \<Rightarrow> int \<Rightarrow> in6_addr_bundle \<Rightarrow> bcache \<Rightarrow> bu_parsed \<Rightarrow> in6_addr \<Rightarrow> nat \<Rightarrow> bool" where
  "bu_authentic en bu len inb s bp coa i \<longleftrightarrow>
     mh_bu_parse (\<lambda>a b. bce_exists a b s) bu len inb = Some (Some bp) \<and> ab_bind_coa (bp_out bp) = Some coa \<and>
     \<not> bu_flag IP6_MH_BU_HOME bu \<and> mh_opt (bp_opts bp) IP6_MHOPT_NONCEID = Some i \<and>
     (\<exists>key b. bu_key en bu i (ab_src inb) coa (bp_lft bp) (bc_kg s) = Inr key \<and>
        mh_opt (bp_opts bp) IP6_MHOPT_BAUTH = Some b \<and>
        mh_verify_auth_data (en_hmac en) (bu[4 := 0, 5 := 0]) (nat len) b coa (ab_dst inb) key = 0)"

lemma mh_verify_fails: "mh_verify_auth_data hmac msg len opt coa cn key < 0 \<longleftrightarrow> mh_verify_auth_data hmac msg len opt coa cn key \<noteq> 0"
  by (simp add: mh_verify_auth_data_def Let_def)

lemma cn_bu_check_cases:
  assumes inv: "bc_inv {} s" and bp: "mh_bu_parse (\<lambda>a b. bce_exists a b s) bu len inb = Some (Some bp)" "ab_bind_coa (bp_out bp) = Some coa"
  obtains st where "cn_bu_check en bu len (bp_opts bp) (ab_src inb) (ab_dst inb) coa (bp_lft bp) s = Some (Inl st)"
      "\<And>i. \<not> bu_authentic en bu len inb s bp coa i"
  | i key where "cn_bu_check en bu len (bp_opts bp) (ab_src inb) (ab_dst inb) coa (bp_lft bp) s = Some (Inr (key, bu[4 := 0, 5 := 0]))"
      "bu_authentic en bu len inb s bp coa i" "bu_key en bu i (ab_src inb) coa (bp_lft bp) (bc_kg s) = Inr key"
      "mh_opt (bp_opts bp) IP6_MHOPT_NONCEID = Some i"
proof -
  let ?chk = "cn_bu_check en bu len (bp_opts bp) (ab_src inb) (ab_dst inb) coa (bp_lft bp) s"
  let ?au = "bu_authentic en bu len inb s bp coa"
  have key: "(if tsisset (bp_lft bp)
       then rr_cn_calc_Kbm (en_hmac en) (en_sha1 en) (en_now en) (home_nonce bu i) (coa_nonce bu i) (ab_src inb) (Some coa) (bc_kg s)
       else rr_cn_calc_Kbm (en_hmac en) (en_sha1 en) (en_now en) (home_nonce bu i) 0 (ab_src inb) None (bc_kg s)) =
      bu_key en bu i (ab_src inb) coa (bp_lft bp) (bc_kg s)" for i
    by (simp add: bu_key_def)
  note chk = cn_bu_check_def [of en bu len "bp_opts bp" "ab_src inb" "ab_dst inb" coa "bp_lft bp" s, unfolded key]
  show ?thesis
  proof (cases "bu_flag IP6_MH_BU_HOME bu \<or> mh_opt (bp_opts bp) IP6_MHOPT_NONCEID = None")
    case True
    have "\<exists>st. ?chk = Some (Inl st)" unfolding chk using True bce_exists_view [OF inv] by auto
    then obtain st where "?chk = Some (Inl st)" by blast
    moreover have "\<not> ?au i" for i using True by (auto simp: bu_authentic_def)
    ultimately show ?thesis by (rule that(1))
  next
    case False
    then obtain i where i: "\<not> bu_flag IP6_MH_BU_HOME bu" "mh_opt (bp_opts bp) IP6_MHOPT_NONCEID = Some i" by auto
    have au: "?au j \<longleftrightarrow> j = i \<and> (\<exists>key b. bu_key en bu i (ab_src inb) coa (bp_lft bp) (bc_kg s) = Inr key \<and>
        mh_opt (bp_opts bp) IP6_MHOPT_BAUTH = Some b \<and>
        mh_verify_auth_data (en_hmac en) (bu[4 := 0, 5 := 0]) (nat len) b coa (ab_dst inb) key = 0)" for j
      using i bp by (auto simp: bu_authentic_def)
    show ?thesis
    proof (cases "?au i")
      case True
      then obtain key b where kb: "bu_key en bu i (ab_src inb) coa (bp_lft bp) (bc_kg s) = Inr key"
        "mh_opt (bp_opts bp) IP6_MHOPT_BAUTH = Some b"
        "mh_verify_auth_data (en_hmac en) (bu[4 := 0, 5 := 0]) (nat len) b coa (ab_dst inb) key = 0"
        using au by blast
      then have "?chk = Some (Inr (key, bu[4 := 0, 5 := 0]))" using i by (simp add: chk Let_def)
      then show ?thesis using True kb(1) i(2) by (rule that(2))
    next
      case False
      have "\<exists>st. ?chk = Some (Inl st)"
        using False au [of i] i unfolding chk by (auto simp: Let_def mh_verify_fails split: sum.split option.split)
      moreover have "\<not> ?au j" for j using False au by blast
      ultimately show ?thesis using that(1) by blast
    qed
  qed
qed

text \<open>Nothing stands against a registration: the number is new, there is memory, and the policy agrees.\<close>

definition bu_welcome ::
  "cn_env \<Rightarrow> bytes \<Rightarrow> int \<Rightarrow> in6_addr_bundle \<Rightarrow> bcache \<Rightarrow> in6_addr \<Rightarrow> nat \<Rightarrow> bool" where
  "bu_welcome en bu len inb s coa i \<longleftrightarrow>
     seq_ok (bu_seqno bu) (home_nonce bu i) (bc_view s (ab_dst inb, ab_src inb)) \<and> en_tab en \<and> has_room en s \<and>
     (\<exists>st. en_discard en (ab_src inb) coa (ab_dst inb) (bu[4 := 0, 5 := 0]) len = Some st \<and> st < IP6_MH_BAS_UNSPECIFIED)"

lemma cn_recv_bu_step:
  assumes inv: "bc_inv {} s" and en: "env_ok en" and k: "k = (ab_dst inb, ab_src inb)"
  shows "\<exists>s'. cn_recv_bu en bu len inb iif s = Some s' \<and> bc_inv {} s' \<and> (\<exists>q. bc_kg s' = (bc_kg s)\<lparr>kg_tq := q\<rparr>) \<and>
    (bc_view s' = bc_view s \<or> (\<exists>bp coa i. bu_authentic en bu len inb s bp coa i \<and>
       seq_ok (bu_seqno bu) (home_nonce bu i) (bc_view s k) \<and> bc_step (bound_or_gone coa (bu_seqno bu)) k s s')) \<and>
    (\<forall>bp coa i. bu_authentic en bu len inb s bp coa i \<and> tsisset (bp_lft bp) \<and> bu_welcome en bu len inb s coa i \<longrightarrow>
       (\<exists>e. bc_view s' k = Some e \<and> bound_to coa (bu_seqno bu) e))"
proof -
  have "bce_exists a b s \<noteq> None" for a b using bce_exists_view [OF inv] by simp
  then obtain r where r: "mh_bu_parse (\<lambda>a b. bce_exists a b s) bu len inb = Some r"
    using mh_bu_parse_returns [of "\<lambda>a b. bce_exists a b s"] by blast
  show ?thesis
  proof (cases r)
    case None
    have "\<exists>q. bc_kg s = (bc_kg s)\<lparr>kg_tq := q\<rparr>" by (rule exI [of _ "kg_tq (bc_kg s)"]) simp
    moreover have "\<not> bu_authentic en bu len inb s bp coa i" for bp coa i using r None by (simp add: bu_authentic_def)
    ultimately show ?thesis using r inv None by (simp add: cn_recv_bu_def)
  next
    case (Some bp)
    note bp = mh_bu_parse_some [OF r [unfolded Some]]
    obtain coa where coa: "ab_bind_coa (bp_out bp) = Some coa" using bp(3) by blast
    have run: "cn_recv_bu en bu len inb iif s = do {
        chk \<leftarrow> cn_bu_check en bu len (bp_opts bp) (ab_src inb) (ab_dst inb) coa (bp_lft bp) s;
        (case chk of
           Inl st \<Rightarrow> if st < 0 then Some s else send_nack en (bp_out bp) st (bu_seqno bu) None iif False s
         | Inr (key, bu') \<Rightarrow>
             cn_bu_authorized en (bp_out bp) coa (bp_opts bp) (bp_lft bp) (bu_seqno bu') key bu' len iif s) }"
      using r Some coa bp(1,2) by (simp add: cn_recv_bu_def)
    show ?thesis
    proof (rule cn_bu_check_cases [OF inv r [unfolded Some] coa, of en])
      fix st assume st: "cn_bu_check en bu len (bp_opts bp) (ab_src inb) (ab_dst inb) coa (bp_lft bp) s = Some (Inl st)"
        and na: "\<And>i. \<not> bu_authentic en bu len inb s bp coa i"
      have "\<not> bu_authentic en bu len inb s bp' coa' i" for bp' coa' i
        using na [of i] r Some coa by (auto simp: bu_authentic_def)
      moreover obtain s' where "(if st < 0 then Some s else send_nack en (bp_out bp) st (bu_seqno bu) None iif False s) = Some s'"
        "bc_inv {} s'" "bc_view s' = bc_view s" "bc_step no_binding k s s'"
        using send_nack_step [OF inv bp(3), of en st "bu_seqno bu" None iif False] inv bp(1,2) k by (cases "st < 0") auto
      ultimately show ?thesis using run st by (intro exI [of _ s']) (simp add: bc_step_def)
    next
      fix i key
      assume chk: "cn_bu_check en bu len (bp_opts bp) (ab_src inb) (ab_dst inb) coa (bp_lft bp) s = Some (Inr (key, bu[4 := 0, 5 := 0]))"
        and au: "bu_authentic en bu len inb s bp coa i" and bk: "bu_key en bu i (ab_src inb) coa (bp_lft bp) (bc_kg s) = Inr key"
        and i: "mh_opt (bp_opts bp) IP6_MHOPT_NONCEID = Some i"
      have hn: "home_nonce (bu[4 := 0, 5 := 0]) i = home_nonce bu i" using bp(5) [OF i] by (simp add: cleared_fields)
      have "kg_wf (bc_kg s)" "time_ok (en_now en)" "0 < tv_sec (en_now en)"
        using inv en by (simp_all add: bc_inv_def timer_inv_def env_ok_def)
      then have live: "\<forall>t. snd (rr_cn_nonce_lft (home_nonce (bu[4 := 0, 5 := 0]) i) (bc_kg s)) = Some t \<longrightarrow> tsisset t"
        using kbm_home_nonce [of "en_hmac en" "en_sha1 en" "en_now en" "home_nonce bu i" _ "ab_src inb" _ "bc_kg s" key] bk
        unfolding hn bu_key_def by (cases "tsisset (bp_lft bp)") auto
      obtain s' where s': "cn_bu_authorized en (bp_out bp) coa (bp_opts bp) (bp_lft bp) (bu_seqno bu) key (bu[4 := 0, 5 := 0]) len iif s = Some s'"
        "bc_inv {} s'" "bc_step (bound_or_gone coa (bu_seqno bu)) k s s'"
        "bc_view s' = bc_view s \<or> seq_ok (bu_seqno bu) (home_nonce bu i) (bc_view s k)"
        "tsisset (bp_lft bp) \<and> bu_welcome en bu len inb s coa i \<longrightarrow> (\<exists>e. bc_view s' k = Some e \<and> bound_to coa (bu_seqno bu) e)"
        using cn_bu_authorized_step [OF inv en bp(3) _ i bp(4) live, of k coa "bu_seqno bu" key len iif] k bp(1,2)
        unfolding hn bu_welcome_def by auto
      have run': "cn_recv_bu en bu len inb iif s = Some s'" using run chk s'(1) by (simp add: cleared_fields)
      have "bp' = bp \<and> coa' = coa \<and> i' = i" if "bu_authentic en bu len inb s bp' coa' i'" for bp' coa' i'
        using that r Some coa i by (auto simp: bu_authentic_def)
      then have "\<forall>bp' coa' i'. bu_authentic en bu len inb s bp' coa' i' \<and> tsisset (bp_lft bp') \<and>
          bu_welcome en bu len inb s coa' i' \<longrightarrow> (\<exists>e. bc_view s' k = Some e \<and> bound_to coa' (bu_seqno bu) e)"
        using s'(5) by metis
      moreover have "\<exists>q. bc_kg s' = (bc_kg s)\<lparr>kg_tq := q\<rparr>" using s'(3) by (simp add: bc_step_def)
      moreover have "bc_view s' = bc_view s \<or> (\<exists>bp coa i. bu_authentic en bu len inb s bp coa i \<and>
          seq_ok (bu_seqno bu) (home_nonce bu i) (bc_view s k) \<and> bc_step (bound_or_gone coa (bu_seqno bu)) k s s')"
        using s'(3,4) au by blast
      ultimately show ?thesis using run' s'(2) by (intro exI [of _ s'] conjI)
    qed
  qed
qed

end
