(* ===== verification/Cn_Run.thy ===== *)
theory Cn_Run
  imports Cn
begin

text \<open>
  Runs of the correspondent node: any sequence of messages and tasks of the timer thread
  (\<open>src/protocols/umip/src/cn.c\<close>, \<open>tqueue.c\<close>). An event that is handled leaves the state consistent, the
  events that are not are named, no event but a binding update makes a binding, and a turn of the
  timer thread ends with nothing due.
\<close>

datatype cn_event =
    Ev_hoti cn_env bytes int in6_addr_bundle int
  | Ev_coti cn_env bytes int in6_addr_bundle int
  | Ev_bu cn_env bytes int in6_addr_bundle int
  | Ev_unreach cn_env bytes int
  | Ev_timer cn_env int bytes

fun ev_env :: "cn_event \<Rightarrow> cn_env" where
  "ev_env (Ev_hoti en msg len inb iif) = en"
| "ev_env (Ev_coti en msg len inb iif) = en"
| "ev_env (Ev_bu en msg len inb iif) = en"
| "ev_env (Ev_unreach en msg len) = en"
| "ev_env (Ev_timer en last_used rnd) = en"

text \<open>
  One task of the timer thread, which has taken the element \<open>x\<close> off the queue, leaving \<open>q\<close>; an element is
  part of the object its task works on, here an entry or a nonce. What the tasks of other parts of
  the daemon do to their own data is not modelled.
\<close>

definition cn_task :: "cn_env \<Rightarrow> int \<Rightarrow> bytes \<Rightarrow> nat \<Rightarrow> tqueue \<Rightarrow> bcache \<Rightarrow> bcache cres" where
  "cn_task en last_used rnd x q s =
     (if 1000 \<le> x then timer_task (en_hmac en) (en_ok en) (en_mem en) last_used (en_now en) (x - 1000) q s
      else if 100 \<le> x \<and> x < 116
      then Some (s\<lparr>bc_kg := nonce_regen rnd (x - 100) ((bc_kg s)\<lparr>kg_tq := q\<lparr>tq_curr := 0\<rparr>\<rparr>)\<rparr>)
      else Some (with_tq (q\<lparr>tq_curr := 0\<rparr>) s))"

definition cn_timer :: "cn_env \<Rightarrow> int \<Rightarrow> bytes \<Rightarrow> bcache \<Rightarrow> bcache cres" where
  "cn_timer en last_used rnd s = do {
     (w, q) \<leftarrow> runner_poll (en_now en) (bc_tq s);
     (case w of Run_task x \<Rightarrow> cn_task en last_used rnd x q s | _ \<Rightarrow> Some (with_tq q s)) }"

text \<open>
  The inner loop of the timer thread, which has read the clock once: task after task, as long as the
  first of the queue is due. The list is the elements whose tasks have run; the last use of an entry
  that the kernel reports and the random bytes may be different for every task.
\<close>

partial_function (option) cn_turn ::
  "cn_env \<Rightarrow> (bcache \<Rightarrow> int) \<Rightarrow> (bcache \<Rightarrow> bytes) \<Rightarrow> nat list \<Rightarrow> bcache \<Rightarrow> (nat list \<times> bcache) cres" where
  "cn_turn en used rnd tr s = do {
     (w, q) \<leftarrow> runner_poll (en_now en) (bc_tq s);
     (case w of
        Run_task x \<Rightarrow> do { s \<leftarrow> cn_task en (used s) (rnd s) x q s; cn_turn en used rnd (tr @ [x]) s }
      | _ \<Rightarrow> Some (tr, with_tq q s)) }"

fun cn_step :: "cn_event \<Rightarrow> bcache \<Rightarrow> bcache cres" where
  "cn_step (Ev_hoti en msg len inb iif) s = cn_recv_hoti en msg len inb iif s"
| "cn_step (Ev_coti en msg len inb iif) s = cn_recv_coti en msg len inb iif s"
| "cn_step (Ev_bu en msg len inb iif) s = cn_recv_bu en msg len inb iif s"
| "cn_step (Ev_unreach en msg len) s = cn_recv_dst_unreach msg len s"
| "cn_step (Ev_timer en last_used rnd) s = cn_timer en last_used rnd s"

fun cn_run :: "cn_event list \<Rightarrow> bcache \<Rightarrow> bcache cres" where
  "cn_run [] s = Some s"
| "cn_run (ev # evs) s = do { s \<leftarrow> cn_step ev s; cn_run evs s }"

text \<open>
  What a run relies on: the environment is sound, and a nonce that is due for renewal does not get
  an index that the binding of an entry still carries.
\<close>

definition bound :: "bcentry \<Rightarrow> bool" where
  "bound e \<longleftrightarrow> bce_typ e = BCE_CACHED \<or> bce_typ e = BCE_CACHE_DYING"

definition renew_ok :: "bcache \<Rightarrow> bool" where
  "renew_ok s \<longleftrightarrow> (\<forall>i p e. i < MAX_NONCES \<longrightarrow> tsisset (tq_expires (bc_tq s) (nonce_tqe i)) \<longrightarrow> bc_ents s p = Some e \<longrightarrow> bound e \<longrightarrow>
     bce_nonce_hoa e \<noteq> nh_index (kg_nonces (bc_kg s) ! i) + 16)"

fun ev_ok :: "cn_event \<Rightarrow> bcache \<Rightarrow> bool" where
  "ev_ok (Ev_timer en last_used rnd) s \<longleftrightarrow> env_ok en \<and> renew_ok s"
| "ev_ok ev s \<longleftrightarrow> env_ok (ev_env ev)"

fun run_ok :: "cn_event list \<Rightarrow> bcache \<Rightarrow> bool" where
  "run_ok [] s \<longleftrightarrow> True"
| "run_ok (ev # evs) s \<longleftrightarrow> ev_ok ev s \<and> (\<forall>s'. cn_step ev s = Some s' \<longrightarrow> run_ok evs s')"

text \<open>
  The listener passes on what it has received: at least the fixed header of an ICMPv6 message, and no
  more than the bytes in its buffer.
\<close>

fun received :: "cn_event \<Rightarrow> bool" where
  "received (Ev_unreach en msg len) \<longleftrightarrow> 8 \<le> len \<and> len \<le> int (length msg)"
| "received ev \<longleftrightarrow> True"

text \<open>
  A test that is to be answered and cannot be: there is no memory for the message, or no nonce to
  make a token of. The code writes through the null pointer it has in either case.
\<close>

definition test_ok :: "cn_env \<Rightarrow> u8 \<Rightarrow> in6_addr \<Rightarrow> bcache \<Rightarrow> bool" where
  "test_ok en b a s \<longleftrightarrow> en_ok en \<and> rr_cn_keygen_token (en_hmac en) (en_now en) a b (bc_kg s) \<noteq> None"

fun unanswerable :: "cn_event \<Rightarrow> bcache \<Rightarrow> bool" where
  "unanswerable (Ev_hoti en msg len inb iif) s \<longleftrightarrow> 16 \<le> len \<and> ab_remote_coa inb = None \<and> \<not> test_ok en 0 (ab_src inb) s"
| "unanswerable (Ev_coti en msg len inb iif) s \<longleftrightarrow> 16 \<le> len \<and> ab_remote_coa inb = None \<and> \<not> test_ok en 1 (ab_src inb) s"
| "unanswerable ev s \<longleftrightarrow> False"

section \<open>Each event keeps the state consistent\<close>

text \<open>The nonces that are in use keep their value until they expire.\<close>

definition nonce_kept :: "cn_event \<Rightarrow> bcache \<Rightarrow> bcache \<Rightarrow> bool" where
  "nonce_kept ev s s' \<longleftrightarrow> kg_key (bc_kg s') = kg_key (bc_kg s) \<and>
     (\<forall>i < MAX_NONCES. tsisset (nh_until (kg_nonces (bc_kg s) ! i)) \<and> en_now (ev_env ev) < nh_until (kg_nonces (bc_kg s) ! i) \<longrightarrow>
        kg_nonces (bc_kg s') ! i = kg_nonces (bc_kg s) ! i)"

lemma nonce_kept_tq: "\<exists>q. bc_kg s' = (bc_kg s)\<lparr>kg_tq := q\<rparr> \<Longrightarrow> nonce_kept ev s s'"
  by (auto simp: nonce_kept_def)

lemma nonce_live_keeps:
  assumes "kg_keeps k k'" "nonce_live k e"
  shows "nonce_live k' e"
proof -
  have "tsisset t" if c: "bce_typ e = BCE_CACHED \<or> bce_typ e = BCE_CACHE_DYING"
      and t: "snd (rr_cn_nonce_lft (bce_nonce_hoa e) k') = Some t" for t
  proof -
    obtain i where i: "get_nonce (bce_nonce_hoa e) k' = Some i" "t = nh_until (kg_nonces k' ! i)"
      using t by (auto simp: rr_cn_nonce_lft_def split: option.splits)
    have l: "i < MAX_NONCES" by (rule get_nonce_less [OF i(1)])
    have "get_nonce (bce_nonce_hoa e) k = Some i"
      using get_nonce_cong [OF i(1), of k] assms(1) l by (simp add: kg_keeps_def)
    then have "tsisset (nh_until (kg_nonces k ! i))" using assms(2) c by (auto simp: nonce_live_def rr_cn_nonce_lft_def)
    then show ?thesis using kg_keeps_nonce [OF assms(1) l] i(2) by simp
  qed
  then show ?thesis by (auto simp: nonce_live_def)
qed

lemma bc_inv_keygen:
  assumes inv: "bc_inv {} s" and k: "kg_wf k" "kg_keeps (bc_kg s) k"
  shows "bc_inv {} (s\<lparr>bc_kg := k\<rparr>)"
proof -
  let ?s = "s\<lparr>bc_kg := k\<rparr>"
  have tb: "table_inv {} s" and tm: "timer_inv {} s" using inv by (simp_all add: bc_inv_def)
  have "table_inv {} ?s"
  proof (rule table_invI)
    show "pair_wf (bc_hash ?s)" using tb by (simp add: table_inv_def)
    show "p \<notin> {} \<and> (\<exists>e. bc_ents ?s p = Some e \<and> ent_key e = x)" if "pair_lookup (bc_hash ?s) x = Some p" for x p
      using table_inv_found [OF tb, of x p] that by auto
    show "pair_lookup (bc_hash ?s) (ent_key e) = Some p \<and> nonce_live (bc_kg ?s) e"
      if "bc_ents ?s p = Some e" "p \<notin> {}" for p e
      using table_inv_entry [OF tb, of p e] that nonce_live_keeps [OF k(2)] by simp
  qed
  moreover have "tq_expires (bc_tq ?s) (bce_tqe p) = tq_expires (bc_tq s) (bce_tqe p)" for p
    using k(2) bce_tqe_nonce(1) [of _ p] by (simp add: kg_keeps_def bc_tq_def)
  then have "timer_inv {} ?s"
    using tm k unfolding timer_inv_def by (auto simp: kg_keeps_def bc_tq_def)
  ultimately show ?thesis by (simp add: bc_inv_def)
qed

lemma answer_test_step:
  assumes inv: "bc_inv {} s" and en: "env_ok en" and t: "test_ok en b (ab_src inb) s" and ty: "unat ty \<le> IP6_MH_TYPE_MAX"
  shows "\<exists>s'. answer_test en ty b msg inb iif s = Some s' \<and> bc_inv {} s' \<and> kg_keeps (bc_kg s) (bc_kg s') \<and> bc_view s' = bc_view s"
proof -
  obtain m where m: "mh_create (en_ok en) ty = Some m" using t ty by (simp add: test_ok_def mh_create_def)
  obtain ix tok k where k: "rr_cn_keygen_token (en_hmac en) (en_now en) (ab_src inb) b (bc_kg s) = Some (ix, tok, k)"
    using t by (auto simp: test_ok_def)
  have "kg_wf (bc_kg s)" "time_ok (en_now en)" using inv en by (simp_all add: bc_inv_def timer_inv_def env_ok_def)
  from rr_cn_keygen_token_found [OF k this] have kk: "kg_wf k" "kg_keeps (bc_kg s) k" by blast+
  obtain r where r: "mh_send (en_hmac en) (en_mem en) (reply_bundle inb)
      [take 6 m @ [hi8 ix, lo8 ix] @ take 8 (drop 8 msg) @ take 8 tok] None iif = Some r"
    using mh_send_some [of "[take 6 m @ [hi8 ix, lo8 ix] @ take 8 (drop 8 msg) @ take 8 tok]" None] by fastforce
  have "answer_test en ty b msg inb iif s = Some (emits (sent r) (s\<lparr>bc_kg := k\<rparr>))"
    using m k r by (simp add: answer_test_def)
  then show ?thesis using bc_inv_keygen [OF inv kk] kk(2) by simp
qed

lemma answer_test_fails:
  assumes "\<not> test_ok en b (ab_src inb) s"
  shows "answer_test en ty b msg inb iif s = None"
proof (cases "mh_create (en_ok en) ty")
  case (Some m)
  then have "en_ok en" by (simp add: mh_create_def split: if_splits)
  then have "rr_cn_keygen_token (en_hmac en) (en_now en) (ab_src inb) b (bc_kg s) = None"
    using assms unfolding test_ok_def by blast
  then show ?thesis using Some by (simp add: answer_test_def)
qed (simp add: answer_test_def)

lemma runner_poll_returns:
  assumes "bc_inv {} s"
  shows "\<exists>w q. runner_poll now (bc_tq s) = Some (w, q)"
proof -
  obtain xs where xs: "tq_inv (bc_tq s) xs" using timer_inv_tq assms by (auto simp: bc_inv_def)
  show ?thesis
  proof (cases xs)
    case Nil
    then show ?thesis using runner_poll_empty xs by blast
  next
    case (Cons x ys)
    then show ?thesis
      using runner_poll_due [of "bc_tq s" x ys now] runner_poll_early [of "bc_tq s" x ys now] xs
      by (cases "tq_expires (bc_tq s) x \<le> now") (auto simp: not_le)
  qed
qed

lemma tq_ready_curr [simp]: "tq_ready (q\<lparr>tq_curr := c\<rparr>) x = tq_ready q x"
  by (simp add: tq_ready_def)

lemma renew_inv:
  assumes inv: "bc_inv {} s" and i: "i < MAX_NONCES" and run: "runner_poll now (bc_tq s) = Some (Run_task (nonce_tqe i), q)"
    and ok: "renew_ok s" and k: "k = nonce_regen rnd i ((bc_kg s)\<lparr>kg_tq := q\<lparr>tq_curr := 0\<rparr>\<rparr>)"
  shows "bc_inv {} (s\<lparr>bc_kg := k\<rparr>)"
proof -
  let ?s = "s\<lparr>bc_kg := k\<rparr>"
  have tb: "table_inv {} s" and tm: "timer_inv {} s" using inv by (simp_all add: bc_inv_def)
  have wf: "kg_wf (bc_kg s)" using tm by (simp add: timer_inv_def)
  note r = nonce_regen_wf [OF wf i run [unfolded bc_tq_def]]
  obtain xs where xs: "tq_inv (bc_tq s) xs" using timer_inv_tq [OF tm] by blast
  obtain ys where q: "tq_expires q = (tq_expires (bc_tq s))(nonce_tqe i := tszero)" "\<forall>p. tq_ready (bc_tq s) p \<longrightarrow> tq_ready q p"
    using runner_poll_run [OF xs run] by blast
  have tq: "bc_tq ?s = q\<lparr>tq_curr := 0\<rparr>" by (simp add: bc_tq_def k nonce_regen_def Let_def)
  have "timer_inv {} ?s"
    using tm q r(2) [of rnd] bce_tqe_nonce(1) [OF i] unfolding timer_inv_def tq by (auto simp: k)
  moreover have "nonce_live k e" if e: "bc_ents s p = Some e" for p e
  proof -
    have "tsisset t" if c: "bce_typ e = BCE_CACHED \<or> bce_typ e = BCE_CACHE_DYING"
      and t: "snd (rr_cn_nonce_lft (bce_nonce_hoa e) k) = Some t" for t
    proof -
      obtain j where j: "get_nonce (bce_nonce_hoa e) k = Some j" "t = nh_until (kg_nonces k ! j)"
        using t by (auto simp: rr_cn_nonce_lft_def split: option.splits)
      have "nh_index (kg_nonces k ! i) = nh_index (kg_nonces (bc_kg s) ! i) + 16"
        using wf i by (simp add: k nonce_regen_def Let_def kg_wf_def)
      moreover have "tsisset (tq_expires (bc_tq s) (nonce_tqe i))"
        using runner_poll_run [OF xs run] tq_inv_mem [OF xs, of "nonce_tqe i"] by auto
      ultimately have "j \<noteq> i" using ok i e j(1) c unfolding renew_ok_def get_nonce_index bound_def by metis
      then have same: "kg_nonces k ! j = kg_nonces (bc_kg s) ! j" using r(3) by (simp add: k)
      then have "get_nonce (bce_nonce_hoa e) (bc_kg s) = Some j" using get_nonce_cong [OF j(1)] by simp
      then show ?thesis
        using table_inv_entry [OF tb e] c j(2) same by (auto simp: nonce_live_def rr_cn_nonce_lft_def)
    qed
    then show ?thesis by (auto simp: nonce_live_def)
  qed
  then have "table_inv {} ?s"
    using tb by (intro table_invI) (auto simp: table_inv_def)
  ultimately show ?thesis by (simp add: bc_inv_def)
qed

text \<open>A timer that belongs to neither an entry nor a nonce.\<close>

lemma other_timer_inv:
  assumes inv: "bc_inv {} s" and x: "\<And>p. x \<noteq> bce_tqe p" "\<And>i. i < MAX_NONCES \<Longrightarrow> x \<noteq> nonce_tqe i"
    and run: "runner_poll now (bc_tq s) = Some (Run_task x, q)"
  shows "bc_inv {} (with_tq (q\<lparr>tq_curr := 0\<rparr>) s)"
proof -
  have tm: "timer_inv {} s" using inv by (simp add: bc_inv_def)
  obtain xs where xs: "tq_inv (bc_tq s) xs" using timer_inv_tq [OF tm] by blast
  let ?q = "q\<lparr>tq_curr := 0\<rparr>"
  obtain ys where q: "tq_inv q ys" "tq_expires q = (tq_expires (bc_tq s))(x := tszero)"
    "\<forall>p. k_alloc (tq_links (bc_tq s)) p \<longrightarrow> k_alloc (tq_links q) p" "\<forall>p. tq_ready (bc_tq s) p \<longrightarrow> tq_ready q p"
    using runner_poll_run [OF xs run] by blast
  have "tq_inv ?q ys" using q(1) by (subst tq_inv_cong [of _ q]) simp_all
  then have "tq_wf ?q" by (auto simp: tq_wf_def)
  moreover have "tq_expires ?q (nonce_tqe i) = tq_expires (kg_tq (bc_kg s)) (nonce_tqe i)" if "i < MAX_NONCES" for i
    using q(2) x(2) [OF that] by (auto simp: bc_tq_def)
  moreover have "k_alloc (tq_links ?q) (nonce_tqe i)" if "i < MAX_NONCES" for i
    using q(3) timer_inv_nonce [OF tm that] by simp
  ultimately have "kg_wf ((bc_kg s)\<lparr>kg_tq := ?q\<rparr>)" using tm by (intro kg_wf_with_tq) (simp_all add: timer_inv_def)
  moreover have "tq_expires ?q (bce_tqe p) = tq_expires (bc_tq s) (bce_tqe p)" for p using q(2) x(1) [of p] by auto
  ultimately have "timer_inv {} (with_tq ?q s)"
    using tm q(4) unfolding timer_inv_def by (auto simp: bc_kg_with_tq)
  then show ?thesis using inv by (simp add: bc_inv_def)
qed

lemma runner_poll_idle: "runner_poll now q = Some (w, q') \<Longrightarrow> (\<And>x. w \<noteq> Run_task x) \<Longrightarrow> q' = q"
  by (auto simp: runner_poll_def bind_eq_Some_conv split: if_splits)

lemma renew_ok_mono:
  assumes "renew_ok s"
    and "\<And>i. i < MAX_NONCES \<Longrightarrow> tsisset (tq_expires (bc_tq s') (nonce_tqe i)) \<Longrightarrow>
      tsisset (tq_expires (bc_tq s) (nonce_tqe i)) \<and> nh_index (kg_nonces (bc_kg s') ! i) = nh_index (kg_nonces (bc_kg s) ! i)"
    and "\<And>p e'. bc_ents s' p = Some e' \<Longrightarrow> bound e' \<Longrightarrow> \<exists>e. bc_ents s p = Some e \<and> bound e \<and> bce_nonce_hoa e = bce_nonce_hoa e'"
  shows "renew_ok s'"
  unfolding renew_ok_def
proof (intro allI impI)
  fix i p e' assume i: "i < MAX_NONCES" "tsisset (tq_expires (bc_tq s') (nonce_tqe i))" "bc_ents s' p = Some e'" "bound e'"
  obtain e where e: "bc_ents s p = Some e" "bound e" "bce_nonce_hoa e = bce_nonce_hoa e'" using assms(3) [OF i(3,4)] by blast
  note n = assms(2) [OF i(1,2)]
  have "bce_nonce_hoa e \<noteq> nh_index (kg_nonces (bc_kg s) ! i) + 16"
    using assms(1) i(1) n e(1,2) unfolding renew_ok_def by blast
  then show "bce_nonce_hoa e' \<noteq> nh_index (kg_nonces (bc_kg s') ! i) + 16" using n e(3) by simp
qed

lemma bce_aged_bound: "bce_aged e k = Some e' \<Longrightarrow> bound e' \<Longrightarrow> bound e \<and> bce_nonce_hoa e = bce_nonce_hoa e'"
  by (auto simp: bce_aged_def bound_def split: if_splits)

text \<open>
  One task: the state stays consistent, no other timer and no other entry is touched, an entry ages,
  and a nonce is not armed again.
\<close>

lemma cn_task_step:
  assumes inv: "bc_inv {} s" and en: "env_ok en" and ok: "renew_ok s"
    and run: "runner_poll (en_now en) (bc_tq s) = Some (Run_task x, q)"
  shows "\<exists>s' t. cn_task en used rnd x q s = Some s' \<and> bc_inv {} s' \<and> renew_ok s' \<and> nonce_kept (Ev_timer en used rnd) s s' \<and>
    tq_expires (bc_tq s') = (tq_expires (bc_tq s))(x := t) \<and> (\<forall>p. x \<noteq> bce_tqe p \<longrightarrow> bc_ents s' p = bc_ents s p) \<and>
    (\<forall>p e. x = bce_tqe p \<and> bc_ents s p = Some e \<longrightarrow>
       bc_ents s' p = bce_aged e (bc_kg s) \<and> t = aged_until (en_now en) e (bc_kg s)) \<and>
    ((\<forall>p. x \<noteq> bce_tqe p) \<longrightarrow> t = tszero)"
proof -
  obtain xs where xs: "tq_inv (bc_tq s) xs" using timer_inv_tq inv by (auto simp: bc_inv_def)
  have ex: "tq_expires q = (tq_expires (bc_tq s))(x := tszero)" using runner_poll_run [OF xs run] by blast
  consider p where "x = bce_tqe p" | i where "i < MAX_NONCES" "x = nonce_tqe i" | "x < 100 \<or> 116 \<le> x \<and> x < 1000"
    using that(1) [of "x - 1000"] that(2) [of "x - 100"] that(3) by (fastforce simp: bce_tqe_def nonce_tqe_def)
  then show ?thesis
  proof cases
    case (1 p)
    have t: "time_ok (en_now en)" using en by (simp add: env_ok_def)
    note run' = run [unfolded 1]
    obtain e where e: "bc_ents s p = Some e" using runner_poll_bce(3) [OF inv run'] by blast
    obtain s' where s': "timer_task (en_hmac en) (en_ok en) (en_mem en) used (en_now en) p q s = Some s'" "bc_inv {} s'"
      "\<exists>q'. bc_kg s' = (bc_kg s)\<lparr>kg_tq := q'\<rparr>" "bc_ents s' = (bc_ents s)(p := bce_aged e (bc_kg s))"
      "tq_expires (bc_tq s') = (tq_expires (bc_tq s))(bce_tqe p := aged_until (en_now en) e (bc_kg s))"
      using timer_task_inv [OF inv run' t e] by blast
    have "cn_task en used rnd x q s = Some s'" using s'(1) 1 by (simp add: cn_task_def bce_tqe_def)
    moreover have "nonce_kept (Ev_timer en used rnd) s s'" using s'(3) by (rule nonce_kept_tq)
    moreover have "renew_ok s'"
    proof (rule renew_ok_mono [OF ok])
      fix i :: nat assume "i < MAX_NONCES" "tsisset (tq_expires (bc_tq s') (nonce_tqe i))"
      then show "tsisset (tq_expires (bc_tq s) (nonce_tqe i)) \<and> nh_index (kg_nonces (bc_kg s') ! i) = nh_index (kg_nonces (bc_kg s) ! i)"
        using s'(3,5) bce_tqe_nonce by auto
    next
      fix p' e' assume "bc_ents s' p' = Some e'" "bound e'"
      then show "\<exists>f. bc_ents s p' = Some f \<and> bound f \<and> bce_nonce_hoa f = bce_nonce_hoa e'"
        using s'(4) e bce_aged_bound [of e "bc_kg s" e'] by (cases "p' = p") auto
    qed
    moreover have "bc_ents s' p' = bc_ents s p'" if "x \<noteq> bce_tqe p'" for p' using that 1 s'(4) by simp
    moreover have "bc_ents s' p' = bce_aged e' (bc_kg s) \<and> aged_until (en_now en) e (bc_kg s) = aged_until (en_now en) e' (bc_kg s)"
      if "x = bce_tqe p'" "bc_ents s p' = Some e'" for p' e' using that 1 s'(4) e by simp
    ultimately show ?thesis
      using s'(2,5) 1 by (intro exI [of _ s'] exI [of _ "aged_until (en_now en) e (bc_kg s)"] conjI) blast+
  next
    case (2 i)
    note run' = run [unfolded 2(2)]
    let ?k = "nonce_regen rnd i ((bc_kg s)\<lparr>kg_tq := q\<lparr>tq_curr := 0\<rparr>\<rparr>)"
    let ?s = "s\<lparr>bc_kg := ?k\<rparr>"
    have wf: "kg_wf (bc_kg s)" using inv by (simp add: bc_inv_def timer_inv_def)
    note r = nonce_regen_wf [OF wf 2(1) run' [unfolded bc_tq_def]]
    have "nonce_kept (Ev_timer en used rnd) s ?s"
      unfolding nonce_kept_def
    proof (intro conjI allI impI)
      show "kg_key (bc_kg ?s) = kg_key (bc_kg s)" by (simp add: nonce_regen_def Let_def)
      fix j assume "tsisset (nh_until (kg_nonces (bc_kg s) ! j)) \<and>
        en_now (ev_env (Ev_timer en used rnd)) < nh_until (kg_nonces (bc_kg s) ! j)"
      then have "j \<noteq> i" using r(1) by auto
      then show "kg_nonces (bc_kg ?s) ! j = kg_nonces (bc_kg s) ! j" using r(3) by simp
    qed
    moreover have "cn_task en used rnd x q s = Some ?s" using 2 by (simp add: cn_task_def nonce_tqe_def)
    moreover have "tq_expires (bc_tq ?s) = (tq_expires (bc_tq s))(x := tszero)"
      using ex by (simp add: bc_tq_def nonce_regen_def Let_def)
    moreover have "renew_ok ?s"
    proof (rule renew_ok_mono [OF ok])
      fix j :: nat assume j: "j < MAX_NONCES" "tsisset (tq_expires (bc_tq ?s) (nonce_tqe j))"
      then have "j \<noteq> i" "tsisset (tq_expires (bc_tq s) (nonce_tqe j))" using calculation(3) 2(2) by (auto split: if_splits)
      then show "tsisset (tq_expires (bc_tq s) (nonce_tqe j)) \<and> nh_index (kg_nonces (bc_kg ?s) ! j) = nh_index (kg_nonces (bc_kg s) ! j)"
        using r(3) by simp
    qed auto
    moreover have "x \<noteq> bce_tqe p" for p using bce_tqe_nonce(2) [OF 2(1)] 2(2) by simp
    ultimately show ?thesis
      using renew_inv [OF inv 2(1) run' ok refl, of rnd] by (intro exI [of _ ?s] exI [of _ tszero]) simp
  next
    case 3
    let ?s = "with_tq (q\<lparr>tq_curr := 0\<rparr>) s"
    have n: "\<And>p. x \<noteq> bce_tqe p" "\<And>i. i < MAX_NONCES \<Longrightarrow> x \<noteq> nonce_tqe i" using 3 by (auto simp: bce_tqe_def nonce_tqe_def)
    have "cn_task en used rnd x q s = Some ?s" using 3 by (auto simp: cn_task_def)
    moreover have "nonce_kept (Ev_timer en used rnd) s ?s" by (rule nonce_kept_tq) (auto simp: bc_kg_with_tq)
    moreover have "renew_ok ?s" by (rule renew_ok_mono [OF ok]) (use ex n in \<open>auto simp: bc_kg_with_tq split: if_splits\<close>)
    ultimately show ?thesis
      using other_timer_inv [OF inv n run] ex n(1) by (intro exI [of _ ?s] exI [of _ tszero]) simp
  qed
qed

lemma cn_timer_step:
  assumes inv: "bc_inv {} s" and en: "env_ok en" and ok: "renew_ok s"
  shows "\<exists>s'. cn_timer en used rnd s = Some s' \<and> bc_inv {} s' \<and> nonce_kept (Ev_timer en used rnd) s s'"
proof -
  obtain w q where w: "runner_poll (en_now en) (bc_tq s) = Some (w, q)" using runner_poll_returns [OF inv] by blast
  show ?thesis
  proof (cases "\<exists>x. w = Run_task x")
    case True
    then obtain x where x: "w = Run_task x" by blast
    show ?thesis using cn_task_step [OF inv en ok w [unfolded x], of used rnd] w x by (auto simp: cn_timer_def)
  next
    case False
    then have "cn_timer en used rnd s = Some s"
      using w runner_poll_idle [OF w] by (cases w) (auto simp: cn_timer_def)
    then show ?thesis using inv by (simp add: nonce_kept_def)
  qed
qed

lemma keeps_nonce_kept:
  assumes k: "kg_keeps (bc_kg s) (bc_kg s')"
  shows "nonce_kept ev s s'"
proof -
  have "kg_key (bc_kg s') = kg_key (bc_kg s)" using k by (simp add: kg_keeps_def)
  then show ?thesis unfolding nonce_kept_def using kg_keeps_nonce [OF k] by blast
qed

section \<open>A turn of the timer thread\<close>

text \<open>
  How often the task of an element may still run before the element is off the queue for good: an
  entry is cached, dying, a block on its nonce, and gone.
\<close>

definition task_weight :: "bcache \<Rightarrow> nat \<Rightarrow> nat" where
  "task_weight s x =
     (if 1000 \<le> x then
        (case bc_ents s (x - 1000) of
           None \<Rightarrow> 1
         | Some e \<Rightarrow> if bce_typ e = BCE_CACHED then 3 else if bce_typ e = BCE_CACHE_DYING then 2 else 1)
      else 1)"

definition pending :: "bcache \<Rightarrow> nat set" where
  "pending s = {x. tsisset (tq_expires (bc_tq s) x)}"

definition turn_measure :: "bcache \<Rightarrow> nat" where
  "turn_measure s = sum (task_weight s) (pending s)"

lemma task_weight_pos: "0 < task_weight s x"
  by (simp add: task_weight_def split: option.split)

lemma task_weight_aged:
  assumes "bc_ents s p = Some e" "bc_ents s' p = bce_aged e k" "aged_until now e k \<noteq> tszero"
  shows "task_weight s' (bce_tqe p) < task_weight s (bce_tqe p)"
  using assms
  by (auto simp: task_weight_def bce_tqe_def bce_aged_def aged_until_def bce_blocked_def split: if_splits option.splits)

lemma task_weight_other:
  assumes "\<forall>p. x \<noteq> bce_tqe p \<longrightarrow> bc_ents s' p = bc_ents s p" "y \<noteq> x"
  shows "task_weight s' y = task_weight s y"
proof (cases "1000 \<le> y")
  case True
  then have "bce_tqe (y - 1000) = y" by (simp add: bce_tqe_def)
  then have "bc_ents s' (y - 1000) = bc_ents s (y - 1000)" using assms by metis
  then show ?thesis by (simp add: task_weight_def)
qed (simp add: task_weight_def)

lemma finite_pending: "bc_inv {} s \<Longrightarrow> finite (pending s)"
proof -
  assume "bc_inv {} s"
  then obtain xs where "tq_inv (bc_tq s) xs" using timer_inv_tq by (auto simp: bc_inv_def)
  then have "pending s = set xs" using tq_inv_mem by (auto simp: pending_def)
  then show ?thesis by simp
qed

lemma turn_measure_less:
  assumes inv: "bc_inv {} s" and x: "x \<in> pending s" and t: "tq_expires (bc_tq s') = (tq_expires (bc_tq s))(x := t)"
    and w: "\<And>y. y \<noteq> x \<Longrightarrow> task_weight s' y = task_weight s y" "t = tszero \<or> task_weight s' x < task_weight s x"
  shows "turn_measure s' < turn_measure s"
proof -
  have f: "finite (pending s)" by (rule finite_pending [OF inv])
  have m: "turn_measure s = task_weight s x + sum (task_weight s) (pending s - {x})"
    unfolding turn_measure_def by (rule sum.remove [OF f x])
  have rest: "sum (task_weight s') (pending s - {x}) = sum (task_weight s) (pending s - {x})"
    using w(1) by (intro sum.cong) auto
  show ?thesis
  proof (cases "t = tszero")
    case True
    then have "pending s' = pending s - {x}" using t by (auto simp: pending_def)
    then show ?thesis using m rest task_weight_pos [of s x] by (simp add: turn_measure_def)
  next
    case False
    then have "pending s' = pending s" using t x by (auto simp: pending_def)
    then have "turn_measure s' = task_weight s' x + sum (task_weight s') (pending s - {x})"
      unfolding turn_measure_def using sum.remove [OF f x, of "task_weight s'"] by simp
    then show ?thesis using m rest w(2) False by simp
  qed
qed

definition cn_due :: "cn_env \<Rightarrow> bcache \<Rightarrow> nat set" where
  "cn_due en s = {x. \<exists>t. tq_pending (bc_tq s) x = Some t \<and> t \<le> en_now en}"

text \<open>What a turn leaves of an entry whose timer was due.\<close>

definition expired_to :: "cn_env \<Rightarrow> bcache \<Rightarrow> nat \<Rightarrow> bcentry \<Rightarrow> bool" where
  "expired_to en s' p e \<longleftrightarrow>
     (if bce_typ e = BCE_CACHED
      then bc_ents s' p = Some (e\<lparr>bce_typ := BCE_CACHE_DYING\<rparr>) \<and>
        tq_pending (bc_tq s') (bce_tqe p) = Some (tsadd (en_now en) cn_brr_before_expiry_ts)
      else \<forall>e'. bc_ents s' p = Some e' \<longrightarrow> e' = e\<lparr>bce_typ := BCE_NONCE_BLOCK\<rparr>)"

definition turn_done :: "cn_env \<Rightarrow> bcache \<Rightarrow> bcache \<Rightarrow> bool" where
  "turn_done en s s' \<longleftrightarrow> bc_inv {} s' \<and> cn_due en s' = {} \<and>
     (\<forall>x. x \<notin> cn_due en s \<longrightarrow> tq_expires (bc_tq s') x = tq_expires (bc_tq s) x) \<and>
     (\<forall>p. bce_tqe p \<notin> cn_due en s \<longrightarrow> bc_ents s' p = bc_ents s p) \<and>
     (\<forall>p e. bce_tqe p \<in> cn_due en s \<and> bc_ents s p = Some e \<longrightarrow> expired_to en s' p e)"

lemma brr_later: "time_ok now \<Longrightarrow> now < tsadd now cn_brr_before_expiry_ts \<and> tsisset (tsadd now cn_brr_before_expiry_ts)"
proof -
  assume now: "time_ok now"
  have b: "ts_ok cn_brr_before_expiry_ts" "nsecs cn_brr_before_expiry_ts = 2 * TIME_SEC_NSEC"
    by (simp_all add: cn_brr_before_expiry_ts_def ts_ok_def nsecs_def)
  have n: "ts_ok now" "0 \<le> nsecs now" using now by (auto simp: time_ok_def ts_ok_def nsecs_def)
  have a: "ts_ok (tsadd now cn_brr_before_expiry_ts)" "nsecs (tsadd now cn_brr_before_expiry_ts) = nsecs now + 2 * TIME_SEC_NSEC"
    using tsadd_exact [OF n(1) b(1)] b(2) by simp_all
  have "tsadd now cn_brr_before_expiry_ts \<noteq> tszero" using a(2) n(2) by (auto simp: tszero_def nsecs_def)
  then show ?thesis using nsecs_less [OF n(1) a(1)] a(2) by simp
qed

lemma runner_poll_idle_due:
  assumes "bc_inv {} s" "runner_poll (en_now en) (bc_tq s) = Some (w, q)" "\<And>x. w \<noteq> Run_task x"
  shows "cn_due en s = {}"
proof -
  obtain xs where xs: "tq_inv (bc_tq s) xs" using timer_inv_tq assms(1) by (auto simp: bc_inv_def)
  have "\<not> tq_expires (bc_tq s) y \<le> en_now en" if "y \<in> set xs" for y
  proof (cases xs)
    case (Cons x ys)
    have "en_now en < tq_expires (bc_tq s) x"
      using runner_poll_due [of "bc_tq s" x ys "en_now en"] xs Cons assms(2,3) by (auto simp: not_le [symmetric])
    moreover have "tq_expires (bc_tq s) x \<le> tq_expires (bc_tq s) y" using that xs Cons by (auto simp: tq_inv_def)
    ultimately show ?thesis by simp
  qed (use that in simp)
  then show ?thesis using tq_inv_mem [OF xs] by (auto simp: cn_due_def tq_pending_def split: if_splits)
qed

lemma cn_due_upd:
  "tq_expires (bc_tq s') = (tq_expires (bc_tq s))(x := t) \<Longrightarrow> y \<noteq> x \<Longrightarrow> y \<in> cn_due en s' \<longleftrightarrow> y \<in> cn_due en s"
  by (simp add: cn_due_def tq_pending_def)

lemma expired_step:
  assumes inv: "bc_inv {} s1" and now: "time_ok (en_now en)" and e: "bc_ents s1 p = bce_aged e k"
    and t: "tq_expires (bc_tq s1) (bce_tqe p) = aged_until (en_now en) e k" and d: "turn_done en s1 s'"
  shows "expired_to en s' p e"
proof (cases "bce_typ e = BCE_CACHED")
  case True
  have b: "en_now en < tsadd (en_now en) cn_brr_before_expiry_ts" "tsisset (tsadd (en_now en) cn_brr_before_expiry_ts)"
    using brr_later [OF now] by simp_all
  have t1: "tq_expires (bc_tq s1) (bce_tqe p) = tsadd (en_now en) cn_brr_before_expiry_ts" using t True by (simp add: aged_until_def)
  then have "bce_tqe p \<notin> cn_due en s1" using b by (auto simp: cn_due_def tq_pending_def)
  then have "bc_ents s' p = bc_ents s1 p" "tq_expires (bc_tq s') (bce_tqe p) = tsadd (en_now en) cn_brr_before_expiry_ts"
    using d t1 unfolding turn_done_def by simp_all
  then show ?thesis using True e b(2) by (simp add: expired_to_def bce_aged_def tq_pending_def)
next
  case False
  have aged: "e1 = e\<lparr>bce_typ := BCE_NONCE_BLOCK\<rparr>" if "bc_ents s1 p = Some e1" for e1
    using that e False by (auto simp: bce_aged_def)
  have "e' = e\<lparr>bce_typ := BCE_NONCE_BLOCK\<rparr>" if e': "bc_ents s' p = Some e'" for e'
  proof (cases "bce_tqe p \<in> cn_due en s1")
    case True
    then have "tsisset (tq_expires (bc_tq s1) (bce_tqe p))" by (auto simp: cn_due_def tq_pending_def split: if_splits)
    then obtain e1 where e1: "bc_ents s1 p = Some e1" using inv unfolding bc_inv_def timer_inv_def by blast
    have "expired_to en s' p e1" using d True e1 unfolding turn_done_def by blast
    then show ?thesis using aged [OF e1] e' by (simp add: expired_to_def)
  next
    case False
    then have "bc_ents s1 p = Some e'" using d e' unfolding turn_done_def by simp
    then show ?thesis by (rule aged)
  qed
  then show ?thesis using False by (simp add: expired_to_def)
qed

lemma cn_turn_done:
  assumes en: "env_ok en"
  shows "bc_inv {} s \<Longrightarrow> renew_ok s \<Longrightarrow>
    \<exists>tr' s'. cn_turn en used rnd tr s = Some (tr @ tr', s') \<and> set tr' = cn_due en s \<and> turn_done en s s'"
proof (induction "turn_measure s" arbitrary: s tr rule: less_induct)
  case less
  note inv = less.prems(1) and ok = less.prems(2)
  have now: "time_ok (en_now en)" using en by (simp add: env_ok_def)
  obtain w q where w: "runner_poll (en_now en) (bc_tq s) = Some (w, q)" using runner_poll_returns [OF inv] by blast
  show ?case
  proof (cases "\<exists>x. w = Run_task x")
    case False
    then have n: "\<And>x. w \<noteq> Run_task x" by blast
    have "cn_turn en used rnd tr s = Some (tr, s)"
      using w n runner_poll_idle [OF w n] by (subst cn_turn.simps) (auto split: wakeup.split)
    moreover have due: "cn_due en s = {}" by (rule runner_poll_idle_due [OF inv w n])
    ultimately show ?thesis using inv by (intro exI [of _ "[]"] exI [of _ s]) (simp add: turn_done_def)
  next
    case True
    then obtain x where x: "runner_poll (en_now en) (bc_tq s) = Some (Run_task x, q)" using w by blast
    obtain xs where xs: "tq_inv (bc_tq s) xs" using timer_inv_tq inv by (auto simp: bc_inv_def)
    have px: "tsisset (tq_expires (bc_tq s) x)" "tq_expires (bc_tq s) x \<le> en_now en"
      using runner_poll_run [OF xs x] tq_inv_mem [OF xs, of x] by auto
    then have due: "x \<in> cn_due en s" "x \<in> pending s" by (simp_all add: cn_due_def tq_pending_def pending_def)
    obtain s1 t where s1: "cn_task en (used s) (rnd s) x q s = Some s1" "bc_inv {} s1" "renew_ok s1"
      "tq_expires (bc_tq s1) = (tq_expires (bc_tq s))(x := t)" "\<forall>p. x \<noteq> bce_tqe p \<longrightarrow> bc_ents s1 p = bc_ents s p"
      "\<forall>p e. x = bce_tqe p \<and> bc_ents s p = Some e \<longrightarrow>
         bc_ents s1 p = bce_aged e (bc_kg s) \<and> t = aged_until (en_now en) e (bc_kg s)"
      "(\<forall>p. x \<noteq> bce_tqe p) \<longrightarrow> t = tszero"
      using cn_task_step [OF inv en ok x, of "used s" "rnd s"] by blast
    have "t = tszero \<or> task_weight s1 x < task_weight s x"
    proof (cases "\<exists>p. x = bce_tqe p")
      case True
      then obtain p where p: "x = bce_tqe p" by blast
      then obtain e where e: "bc_ents s p = Some e" using inv px(1) unfolding bc_inv_def timer_inv_def by blast
      have "bc_ents s1 p = bce_aged e (bc_kg s)" "t = aged_until (en_now en) e (bc_kg s)" using s1(6) p e by simp_all
      then show ?thesis using task_weight_aged [OF e, of s1 "bc_kg s" "en_now en"] p by auto
    qed (use s1(7) in blast)
    then have "turn_measure s1 < turn_measure s"
      using turn_measure_less [OF inv due(2) s1(4)] task_weight_other [OF s1(5)] by blast
    from less.hyps [OF this s1(2,3), of "tr @ [x]"] obtain tr1 s' where
      r: "cn_turn en used rnd (tr @ [x]) s1 = Some ((tr @ [x]) @ tr1, s')" "set tr1 = cn_due en s1" "turn_done en s1 s'"
      by blast
    have run: "cn_turn en used rnd tr s = Some (tr @ (x # tr1), s')"
      using x s1(1) r(1) by (subst cn_turn.simps) simp
    have dd: "y \<in> cn_due en s1 \<longleftrightarrow> y \<in> cn_due en s" if "y \<noteq> x" for y by (rule cn_due_upd [OF s1(4) that])
    have "y \<in> set (x # tr1) \<longleftrightarrow> y \<in> cn_due en s" for y using r(2) due(1) dd [of y] by (cases "y = x") auto
    then have set: "set (x # tr1) = cn_due en s" by blast
    have "turn_done en s s'"
      unfolding turn_done_def
    proof (intro conjI allI impI)
      show "bc_inv {} s'" "cn_due en s' = {}" using r(3) by (simp_all add: turn_done_def)
    next
      fix y assume y: "y \<notin> cn_due en s"
      then have "y \<noteq> x" "y \<notin> cn_due en s1" using due(1) dd [of y] by blast+
      then show "tq_expires (bc_tq s') y = tq_expires (bc_tq s) y" using r(3) s1(4) by (simp add: turn_done_def)
    next
      fix p assume y: "bce_tqe p \<notin> cn_due en s"
      then have "bce_tqe p \<noteq> x" "bce_tqe p \<notin> cn_due en s1" using due(1) dd [of "bce_tqe p"] by blast+
      then show "bc_ents s' p = bc_ents s p" using r(3) s1(5) by (auto simp: turn_done_def)
    next
      fix p e assume y: "bce_tqe p \<in> cn_due en s \<and> bc_ents s p = Some e"
      show "expired_to en s' p e"
      proof (cases "x = bce_tqe p")
        case True
        then show ?thesis using s1(4,6) y by (intro expired_step [OF s1(2) now _ _ r(3)]) auto
      next
        case False
        then show ?thesis using r(3) s1(5) y dd [of "bce_tqe p"] by (simp add: turn_done_def)
      qed
    qed
    with run set show ?thesis by blast
  qed
qed

section \<open>Bindings and who may set them\<close>

text \<open>
  The same binding as before: everything is as it was, but for the count of unreachable messages and
  the step from cached to dying.
\<close>

definition same_binding :: "bcentry \<Rightarrow> bcentry \<Rightarrow> bool" where
  "same_binding e e' \<longleftrightarrow> bce_typ e \<noteq> BCE_NONCE_BLOCK \<and>
     e' = e\<lparr>bce_unreach := bce_unreach e', bce_typ := bce_typ e'\<rparr> \<and>
     (bce_typ e' = bce_typ e \<or> bce_typ e = BCE_CACHED \<and> bce_typ e' = BCE_CACHE_DYING)"

definition no_new :: "bcache \<Rightarrow> bcache \<Rightarrow> bool" where
  "no_new s s' \<longleftrightarrow> (\<forall>k e'. bc_view s' k = Some e' \<and> bce_typ e' \<noteq> BCE_NONCE_BLOCK \<longrightarrow>
     (\<exists>e. bc_view s k = Some e \<and> same_binding e e'))"

lemma same_binding_refl: "bce_typ e \<noteq> BCE_NONCE_BLOCK \<Longrightarrow> same_binding e e"
  by (simp add: same_binding_def)

lemma same_binding_trans: "same_binding e f \<Longrightarrow> same_binding f g \<Longrightarrow> same_binding e g"
  by (cases e; cases f; cases g) (auto simp: same_binding_def)

lemma no_new_same: "bc_view s' = bc_view s \<Longrightarrow> no_new s s'"
  using same_binding_refl by (simp add: no_new_def)

lemma no_new_trans:
  assumes "no_new s s1" "no_new s1 s2"
  shows "no_new s s2"
  unfolding no_new_def
proof (intro allI impI, elim conjE)
  fix k e' assume e': "bc_view s2 k = Some e'" "bce_typ e' \<noteq> BCE_NONCE_BLOCK"
  obtain f where f: "bc_view s1 k = Some f" "same_binding f e'" using assms(2) e' unfolding no_new_def by blast
  then have "bce_typ f \<noteq> BCE_NONCE_BLOCK" by (simp add: same_binding_def)
  then obtain e where "bc_view s k = Some e" "same_binding e f" using assms(1) f(1) unfolding no_new_def by blast
  then show "\<exists>e. bc_view s k = Some e \<and> same_binding e e'" using same_binding_trans f(2) by blast
qed

lemma no_new_gone:
  assumes "bc_step no_binding k s s'"
  shows "no_new s s'"
  unfolding no_new_def
proof (intro allI impI, elim conjE)
  fix k' e' assume e': "bc_view s' k' = Some e'" "bce_typ e' \<noteq> BCE_NONCE_BLOCK"
  then have "bc_view s' k' = bc_view s k'" using assms unfolding bc_step_def no_binding_def by metis
  then have "bc_view s k' = Some e'" using e'(1) by (rule subst)
  then show "\<exists>e. bc_view s k' = Some e \<and> same_binding e e'" using same_binding_refl [OF e'(2)] by blast
qed

lemma no_new_upd:
  assumes "table_inv {} s" "bc_ents s p = Some e" "ent_key e' = ent_key e" "bce_typ e' \<noteq> BCE_NONCE_BLOCK \<Longrightarrow> same_binding e e'"
  shows "no_new s (upd_ent p e' s)"
  using bc_view_upd [OF assms(1,2), of e'] bc_view_entry [OF assms(1,2)] assms(3,4) same_binding_refl by (auto simp: no_new_def)

lemma bce_unreachable_step:
  assumes inv: "bc_inv {} s"
  shows "\<exists>s'. bce_unreachable l r s = Some s' \<and> bc_inv {} s' \<and> (\<exists>q. bc_kg s' = (bc_kg s)\<lparr>kg_tq := q\<rparr>) \<and> no_new s s'"
proof -
  have same: "\<exists>q. bc_kg s = (bc_kg s)\<lparr>kg_tq := q\<rparr>" by (rule exI [of _ "kg_tq (bc_kg s)"]) simp
  show ?thesis
  proof (rule bcache_get_view [OF inv, of l r])
    assume "bcache_get l r s = Some None"
    then show ?thesis using inv same no_new_same [of s s] by (simp add: bce_unreachable_def)
  next
    fix p e assume p: "bcache_get l r s = Some (Some p)" "bc_ents s p = Some e"
    have tb: "table_inv {} s" and tm: "timer_inv {} s" using inv by (simp_all add: bc_inv_def)
    define f where "f = e\<lparr>bce_unreach := bce_unreach e + 1\<rparr>"
    define s1 where "s1 = upd_ent p f s"
    have "bce_typ e \<noteq> BCE_DAD" if "tsisset (tq_expires (bc_tq s) (bce_tqe p))" using tm that p(2) by (auto simp: timer_inv_def)
    then have i1: "bc_inv {} s1"
      unfolding s1_def f_def using table_inv_entry [OF tb p(2)] by (intro upd_ent_inv [OF inv p(2)]) auto
    have "same_binding e f" if "bce_typ f \<noteq> BCE_NONCE_BLOCK" using that by (simp add: f_def same_binding_def)
    then have n1: "no_new s s1" unfolding s1_def by (intro no_new_upd [OF tb p(2)]) (simp_all add: f_def)
    have k1: "bc_kg s1 = bc_kg s" by (simp add: s1_def)
    obtain s2 where s2: "bcache_delete l r s1 = Some s2" "bc_inv {} s2" "bc_step no_binding (l, r) s1 s2"
      using bcache_delete_step [OF i1, of l r] by blast
    have n2: "no_new s s2" using no_new_trans [OF n1 no_new_gone [OF s2(3)]] .
    have k2: "\<exists>q. bc_kg s2 = (bc_kg s)\<lparr>kg_tq := q\<rparr>" using s2(3) k1 by (simp add: bc_step_def)
    have run: "bce_unreachable l r s = (if bce_unreach e + 1 > 3 \<and> bce_typ e \<noteq> BCE_HOMEREG then Some s2 else Some s1)"
      using p s2(1) by (simp add: bce_unreachable_def Let_def s1_def f_def)
    show ?thesis
    proof (cases "bce_unreach e + 1 > 3 \<and> bce_typ e \<noteq> BCE_HOMEREG")
      case True
      then show ?thesis using run s2(2) n2 k2 by (simp only: if_True simp_thms) blast
    next
      case False
      then show ?thesis using run i1 n1 k1 same by (simp only: if_False) auto
    qed
  qed
qed

lemma unreach_step:
  assumes inv: "bc_inv {} s" and run: "cn_recv_dst_unreach msg len s = Some s'"
  shows "bc_inv {} s' \<and> (\<exists>q. bc_kg s' = (bc_kg s)\<lparr>kg_tq := q\<rparr>) \<and> no_new s s'"
proof -
  obtain c l r where par: "icmp6_parse_data (drop 8 msg) (nat ((len - 8) mod 2 ^ 32)) 8 24 = Some (c, l, r)"
    using run by (auto simp: cn_recv_dst_unreach_def bind_eq_Some_conv)
  show ?thesis
  proof (cases "c < 0")
    case True
    then have "s' = s" using run par by (simp add: cn_recv_dst_unreach_def)
    then show ?thesis using inv no_new_same [of s s] by (auto intro: exI [of _ "kg_tq (bc_kg s)"])
  next
    case False
    then obtain la ra where "bce_unreachable la ra s = Some s'"
      using run par by (auto simp: cn_recv_dst_unreach_def bind_eq_Some_conv)
    then show ?thesis using bce_unreachable_step [OF inv, of la ra] by simp
  qed
qed

text \<open>A message that the listener has received is read within its buffer.\<close>

lemma unreach_returns:
  assumes inv: "bc_inv {} s" and len: "8 \<le> len" "len \<le> int (length msg)"
  shows "cn_recv_dst_unreach msg len s \<noteq> None"
proof -
  let ?ip = "drop 8 msg"
  have "(len - 8) mod 2 ^ 32 \<le> len - 8" using len(1) by (simp add: zmod_le_nonneg_dividend)
  then have "nat ((len - 8) mod 2 ^ 32) \<le> length ?ip" using len by simp
  from icmp6_parse_data_inside [OF this] obtain c l r where
    par: "icmp6_parse_data ?ip (nat ((len - 8) mod 2 ^ 32)) 8 24 = Some (c, l, r)"
      "0 \<le> c \<longrightarrow> l + 16 \<le> length ?ip \<and> r + 16 \<le> length ?ip" by blast
  show ?thesis
  proof (cases "c < 0")
    case False
    then have "rd_in6 ?ip l = Some (take 16 (drop l ?ip))" "rd_in6 ?ip r = Some (take 16 (drop r ?ip))"
      using par(2) by (simp_all add: rd_in6_def)
    then have "cn_recv_dst_unreach msg len s = bce_unreachable (take 16 (drop l ?ip)) (take 16 (drop r ?ip)) s"
      using False par(1) by (simp add: cn_recv_dst_unreach_def)
    then show ?thesis using bce_unreachable_step [OF inv, of "take 16 (drop l ?ip)" "take 16 (drop r ?ip)"]
      by (elim exE conjE) simp
  qed (use par(1) in \<open>simp add: cn_recv_dst_unreach_def\<close>)
qed

lemma timer_task_no_new:
  assumes run: "timer_task hmac ok mem last_used now p q s = Some s'" and inv: "bc_inv {} (with_tq q s)" and e: "bc_ents s p = Some e"
  shows "no_new s s'"
proof -
  let ?s = "with_tq q s"
  have tb: "table_inv {} ?s" using inv by (simp add: bc_inv_def)
  have e': "bc_ents ?s p = Some e" using e by simp
  obtain s1 where s1: "bce_expire hmac ok mem last_used now p ?s = Some s1" "s' = with_tq ((bc_tq s1)\<lparr>tq_curr := 0\<rparr>) s1"
    using run by (auto simp: timer_task_def bind_eq_Some_conv)
  have view: "bc_view s1 = bc_view (upd_ent p (e\<lparr>bce_typ := BCE_CACHE_DYING\<rparr>) ?s)"
    if "\<not> task_interrupted (bc_tq ?s)" "bce_typ e = BCE_CACHED"
    using s1(1) e that unfolding bce_expire_def bind_eq_Some_conv by (simp add: bind_eq_Some_conv) (elim exE conjE, hypsubst, simp)
  consider "task_interrupted (bc_tq ?s)" | "\<not> task_interrupted (bc_tq ?s)" "bce_typ e = BCE_CACHED"
    | "\<not> task_interrupted (bc_tq ?s)" "bce_typ e \<noteq> BCE_CACHED" by blast
  then have "no_new ?s s1"
  proof cases
    case 1
    then have "s1 = ?s" using s1(1) by (simp add: bce_expire_def)
    then show ?thesis by (simp add: no_new_same)
  next
    case 2
    have "same_binding e (e\<lparr>bce_typ := BCE_CACHE_DYING\<rparr>)" using 2(2) by (simp add: same_binding_def)
    then have "no_new ?s (upd_ent p (e\<lparr>bce_typ := BCE_CACHE_DYING\<rparr>) ?s)" by (intro no_new_upd [OF tb e']) simp_all
    then show ?thesis using view [OF 2] by (simp add: no_new_def)
  next
    case 3
    then have "bce_delete False p ?s = Some s1" using s1(1) e by (simp add: bce_expire_def)
    moreover obtain s2 where "bce_delete False p ?s = Some s2" "bce_gone p e False ?s s2"
      using bce_delete_inv [OF inv e', of False] by auto
    ultimately have "bce_gone p e False ?s s1" by simp
    from bc_view_gone [OF tb e' _ this]
    have "bc_view s1 = (bc_view ?s)(ent_key e :=
      (case bce_blocked False e (bc_kg ?s) of Some t \<Rightarrow> Some (e\<lparr>bce_typ := BCE_NONCE_BLOCK\<rparr>) | None \<Rightarrow> None))" by simp
    then show ?thesis using same_binding_refl by (auto simp: no_new_def split: if_splits option.splits)
  qed
  then show ?thesis using s1(2) by (simp add: no_new_def)
qed

lemma cn_timer_no_new:
  assumes inv: "bc_inv {} s" and run: "cn_timer en last_used rnd s = Some s'"
  shows "no_new s s'"
proof -
  obtain w q where w: "runner_poll (en_now en) (bc_tq s) = Some (w, q)" using runner_poll_returns [OF inv] by blast
  show ?thesis
  proof (cases "\<exists>p. w = Run_task (bce_tqe p)")
    case True
    then obtain p where p: "w = Run_task (bce_tqe p)" by blast
    have poll: "runner_poll (en_now en) (bc_tq s) = Some (Run_task (bce_tqe p), q)" using w p by simp
    obtain e where e: "bc_ents s p = Some e" using runner_poll_bce(3) [OF inv poll] by blast
    have "timer_task (en_hmac en) (en_ok en) (en_mem en) last_used (en_now en) p q s = Some s'"
      using run poll by (simp add: cn_timer_def cn_task_def bce_tqe_def)
    then show ?thesis by (rule timer_task_no_new [OF _ runner_poll_bce(1) [OF inv poll] e])
  next
    case False
    have "x < 1000" if "w = Run_task x" for x
      using False that by (auto simp: bce_tqe_def) (metis le_add_diff_inverse not_le)
    then have "bc_view s' = bc_view s" using run w by (cases w) (auto simp: cn_timer_def cn_task_def split: if_splits)
    then show ?thesis by (rule no_new_same)
  qed
qed

section \<open>Events\<close>

text \<open>An event that is handled keeps the state consistent, and only a binding update makes bindings.\<close>

lemma test_step:
  assumes inv: "bc_inv {} s" and en: "env_ok en" and ty: "unat ty \<le> IP6_MH_TYPE_MAX"
    and run: "answer_test en ty b msg inb iif s = Some s'"
  shows "bc_inv {} s' \<and> nonce_kept ev s s' \<and> no_new s s'"
proof -
  have "test_ok en b (ab_src inb) s" using answer_test_fails [of en b inb s ty msg iif] run by (cases "test_ok en b (ab_src inb) s") simp_all
  then obtain s1 where "answer_test en ty b msg inb iif s = Some s1" "bc_inv {} s1" "kg_keeps (bc_kg s) (bc_kg s1)" "bc_view s1 = bc_view s"
    using answer_test_step [OF inv en _ ty] by blast
  then show ?thesis using run keeps_nonce_kept [of s s1 ev] no_new_same [of s1 s] by simp
qed

lemma cn_step_inv:
  assumes inv: "bc_inv {} s" and ok: "ev_ok ev s" and run: "cn_step ev s = Some s'"
  shows "bc_inv {} s' \<and> nonce_kept ev s s' \<and> (no_new s s' \<or> (\<exists>en bu len inb iif. ev = Ev_bu en bu len inb iif))"
proof (cases ev)
  case (Ev_hoti en msg len inb iif)
  then show ?thesis
    using run ok inv test_step [OF inv, of en IP6_MH_TYPE_HOT 0 msg inb iif s' ev] keeps_nonce_kept [of s s ev, OF kg_keeps_refl] no_new_same [of s s]
    by (simp add: cn_recv_hoti_def split: if_splits)
next
  case (Ev_coti en msg len inb iif)
  then show ?thesis
    using run ok inv test_step [OF inv, of en IP6_MH_TYPE_COT 1 msg inb iif s' ev] keeps_nonce_kept [of s s ev, OF kg_keeps_refl] no_new_same [of s s]
    by (simp add: cn_recv_coti_def split: if_splits)
next
  case (Ev_bu en msg len inb iif)
  have "env_ok en" using ok Ev_bu by simp
  then obtain s1 where "cn_recv_bu en msg len inb iif s = Some s1" "bc_inv {} s1" "\<exists>q. bc_kg s1 = (bc_kg s)\<lparr>kg_tq := q\<rparr>"
    using cn_recv_bu_step [OF inv _ refl] by blast
  then show ?thesis using run Ev_bu nonce_kept_tq [of s1 s ev] by simp
next
  case (Ev_unreach en msg len)
  then show ?thesis using run unreach_step [OF inv, of msg len s'] nonce_kept_tq [of s' s ev] by simp
next
  case (Ev_timer en used rnd)
  then show ?thesis using run ok cn_timer_step [OF inv, of en used rnd] cn_timer_no_new [OF inv, of en used rnd s'] by auto
qed

text \<open>An event that the listener has received fails only if it is a test that cannot be answered.\<close>

lemma cn_step_fails:
  assumes inv: "bc_inv {} s" and ok: "ev_ok ev s" and r: "received ev"
  shows "cn_step ev s = None \<longleftrightarrow> unanswerable ev s"
proof (cases ev)
  case (Ev_hoti en msg len inb iif)
  have "answer_test en IP6_MH_TYPE_HOT 0 msg inb iif s = None \<longleftrightarrow> \<not> test_ok en 0 (ab_src inb) s"
    using answer_test_fails [of en 0 inb s] answer_test_step [OF inv, of en 0 inb IP6_MH_TYPE_HOT msg iif] ok Ev_hoti by auto
  then show ?thesis using Ev_hoti by (auto simp: cn_recv_hoti_def)
next
  case (Ev_coti en msg len inb iif)
  have "answer_test en IP6_MH_TYPE_COT 1 msg inb iif s = None \<longleftrightarrow> \<not> test_ok en 1 (ab_src inb) s"
    using answer_test_fails [of en 1 inb s] answer_test_step [OF inv, of en 1 inb IP6_MH_TYPE_COT msg iif] ok Ev_coti by auto
  then show ?thesis using Ev_coti by (auto simp: cn_recv_coti_def)
next
  case (Ev_bu en msg len inb iif)
  have "env_ok en" using ok Ev_bu by simp
  then obtain s1 where "cn_recv_bu en msg len inb iif s = Some s1" using cn_recv_bu_step [OF inv _ refl] by blast
  then show ?thesis using Ev_bu by simp
next
  case (Ev_unreach en msg len)
  then show ?thesis using unreach_returns [OF inv, of len msg] r by simp
next
  case (Ev_timer en used rnd)
  then show ?thesis using cn_timer_step [OF inv, of en used rnd] ok by auto
qed

lemma cn_run_cases:
  "bc_inv {} s \<Longrightarrow> run_ok evs s \<Longrightarrow> \<forall>ev \<in> set evs. received ev \<Longrightarrow>
     (\<exists>s'. cn_run evs s = Some s' \<and> bc_inv {} s') \<or>
     (\<exists>evs1 ev evs2 s1. evs = evs1 @ ev # evs2 \<and> cn_run evs1 s = Some s1 \<and> bc_inv {} s1 \<and> unanswerable ev s1 \<and> cn_step ev s1 = None)"
proof (induction evs arbitrary: s)
  case (Cons ev evs)
  have ev: "ev_ok ev s" "received ev" using Cons(3,4) by simp_all
  show ?case
  proof (cases "cn_step ev s")
    case None
    then have "unanswerable ev s" using cn_step_fails [OF Cons(2) ev] by simp
    then show ?thesis using Cons(2) None by (intro disjI2 exI [of _ "[]"]) auto
  next
    case (Some s1)
    have i1: "bc_inv {} s1" "run_ok evs s1" using cn_step_inv [OF Cons(2) ev(1) Some] Cons(3) Some by simp_all
    from Cons(1) [OF this] Cons(4) consider s' where "cn_run evs s1 = Some s'" "bc_inv {} s'"
      | evs1 ev' evs2 s2 where "evs = evs1 @ ev' # evs2" "cn_run evs1 s1 = Some s2" "bc_inv {} s2" "unanswerable ev' s2" "cn_step ev' s2 = None" by auto
    then show ?thesis
    proof cases
      case 1
      then show ?thesis using Some by simp
    next
      case 2
      then have "ev # evs = (ev # evs1) @ ev' # evs2" "cn_run (ev # evs1) s = Some s2" using Some by simp_all
      then show ?thesis using 2(3-5) by blast
    qed
  qed
qed simp

section \<open>Properties of runs\<close>

text \<open>
  C4. What the correspondent node is sent cannot upset it, with two exceptions that are the code's own.
  Take any sequence of test requests, binding updates and ICMPv6 errors, with any contents, mixed
  with turns of the timer thread, where allocation, the clock, the policy hook and the lengths of
  received packets behave as documented, and a renewed nonce does not get the index an existing
  binding still carries. Either every step returns, without following a null or freed pointer, and in
  the end every pending entry timer belongs to an entry in memory, every entry is found in the table
  under its own pair of addresses, and every pair found leads to an entry in memory. Or the run stops
  in a consistent state at a test request it should answer, where there is no memory for the answer or no
  nonce for a token. Bytes of a mobility header past those received are not part of this.
\<close>

theorem cn_run_safe:
  assumes "bc_inv {} s" "run_ok evs s" "\<forall>ev \<in> set evs. received ev"
  shows "(\<exists>s'. cn_run evs s = Some s' \<and> bc_inv {} s' \<and>
      (\<forall>p. tq_pending (bc_tq s') (bce_tqe p) \<noteq> None \<longrightarrow> bc_ents s' p \<noteq> None) \<and>
      (\<forall>p e. bc_ents s' p = Some e \<longrightarrow> bcache_get (bce_our_addr e) (bce_peer_addr e) s' = Some (Some p)) \<and>
      (\<forall>our peer p. bcache_get our peer s' = Some (Some p) \<longrightarrow>
         (\<exists>e. bc_ents s' p = Some e \<and> bce_our_addr e = our \<and> bce_peer_addr e = peer))) \<or>
    (\<exists>evs1 ev evs2 s1. evs = evs1 @ ev # evs2 \<and> cn_run evs1 s = Some s1 \<and> bc_inv {} s1 \<and> unanswerable ev s1 \<and> cn_step ev s1 = None)"
proof -
  consider s' where "cn_run evs s = Some s'" "bc_inv {} s'"
    | "\<exists>evs1 ev evs2 s1. evs = evs1 @ ev # evs2 \<and> cn_run evs1 s = Some s1 \<and> bc_inv {} s1 \<and> unanswerable ev s1 \<and> cn_step ev s1 = None"
    using cn_run_cases [OF assms] by blast
  then show ?thesis
  proof cases
    case s': (1 s')
    have tb: "table_inv {} s'" and tm: "timer_inv {} s'" using s'(2) by (simp_all add: bc_inv_def)
    have "bc_ents s' p \<noteq> None" if "tq_pending (bc_tq s') (bce_tqe p) \<noteq> None" for p
      using tm that unfolding timer_inv_def tq_pending_def by (metis option.distinct(1))
    moreover have "bcache_get (bce_our_addr e) (bce_peer_addr e) s' = Some (Some p)" if "bc_ents s' p = Some e" for p e
      using table_inv_entry [OF tb that] bcache_get_inv [OF tb] by (simp add: ent_key_def)
    moreover have "\<exists>e. bc_ents s' p = Some e \<and> bce_our_addr e = our \<and> bce_peer_addr e = peer"
      if "bcache_get our peer s' = Some (Some p)" for our peer p
      using table_inv_found [OF tb, of "(our, peer)" p] that bcache_get_inv [OF tb] by (auto simp: ent_key_def)
    ultimately show ?thesis using s' by blast
  qed (rule disjI2)
qed

text \<open>An environment for examples: memory for one entry, a clock at 1000 seconds, a policy that accepts.\<close>

definition cn_env_ref :: cn_env where
  "cn_env_ref = \<lparr>en_hmac = (\<lambda>k d. take 20 (k @ d @ replicate 20 0)), en_sha1 = rev, en_now = Timespec 1000 0, en_ok = True, en_mem = True,
     en_tab = True, en_malloc = (\<lambda>m. if m 1 = None then 1 else 0), en_nonvolatile = False, en_refresh = None,
     en_discard = (\<lambda>_ _ _ _ _. Some 0)\<rparr>"

lemma cn_env_ref_ok: "env_ok cn_env_ref"
  by (simp add: env_ok_def cn_env_ref_def time_ok_def ts_ok_def)

lemma cn_env_ref_token: "rr_cn_keygen_token (en_hmac cn_env_ref) (en_now cn_env_ref) a b kg0 \<noteq> None"
proof -
  have "time_ok (en_now cn_env_ref)" using cn_env_ref_ok by (simp add: env_ok_def)
  moreover have "kg_min kg0 \<le> kg_max kg0" by (simp add: kg0_def)
  ultimately show ?thesis
    using keygen_token_first [OF kg0_wf kg0_first(1), of "en_now cn_env_ref" "en_hmac cn_env_ref" a b] kg0_first(2) by auto
qed

theorem cn_run_safe_witness:
  "\<exists>s'. cn_run [Ev_hoti cn_env_ref (replicate 16 0) 16 sample_bundle 2, Ev_bu cn_env_ref sample_bu 12 sample_bundle 2,
       Ev_unreach cn_env_ref (replicate 48 0) 48] bc0 = Some s' \<and>
     (\<forall>p. tq_pending (bc_tq s') (bce_tqe p) \<noteq> None \<longrightarrow> bc_ents s' p \<noteq> None)"
proof -
  let ?evs = "[Ev_hoti cn_env_ref (replicate 16 0) 16 sample_bundle 2, Ev_bu cn_env_ref sample_bu 12 sample_bundle 2,
       Ev_unreach cn_env_ref (replicate 48 0) 48]"
  have ok: "run_ok ?evs bc0" "\<forall>ev \<in> set ?evs. received ev" using cn_env_ref_ok by simp_all
  have "test_ok cn_env_ref 0 (ab_src sample_bundle) bc0"
    using cn_env_ref_token [of "ab_src sample_bundle" 0] by (simp add: test_ok_def bc0_def) (simp add: cn_env_ref_def)
  then have "\<not> unanswerable ev s1" if "?evs = evs1 @ ev # evs2" "cn_run evs1 bc0 = Some s1" for evs1 ev evs2 s1
    using that by (auto simp: Cons_eq_append_conv)
  then show ?thesis using cn_run_safe [OF bc0_inv ok] by blast
qed

text \<open>
  C33. A turn of the timer thread ends and does what is due, for the timers of bindings, nonces and other
  parts alike. From any state the daemon keeps, with the clock at a fixed time: the loop returns; the
  tasks it has run are exactly those of the elements that were due; nothing is due any more, although
  a task may arm its own element again for a time already past; other timers and other entries are
  as they were. A cached binding that was due is dying and armed for the two seconds of the refresh
  period; any other entry that was due is gone or a block on its nonce. As in a run, a renewed nonce
  must not get the index an existing binding carries.
\<close>

theorem cn_turn_runs_due:
  assumes "bc_inv {} s" "renew_ok s" "env_ok en"
  shows "\<exists>tr s'. cn_turn en used rnd [] s = Some (tr, s') \<and> bc_inv {} s' \<and>
    set tr = cn_due en s \<and> cn_due en s' = {} \<and>
    (\<forall>x. x \<notin> cn_due en s \<longrightarrow> tq_pending (bc_tq s') x = tq_pending (bc_tq s) x) \<and>
    (\<forall>p. bce_tqe p \<notin> cn_due en s \<longrightarrow> bc_ents s' p = bc_ents s p) \<and>
    (\<forall>p e. bce_tqe p \<in> cn_due en s \<and> bc_ents s p = Some e \<longrightarrow>
       (if bce_typ e = BCE_CACHED
        then bc_ents s' p = Some (e\<lparr>bce_typ := BCE_CACHE_DYING\<rparr>) \<and>
          tq_pending (bc_tq s') (bce_tqe p) = Some (tsadd (en_now en) (Timespec 2 0))
        else \<forall>e'. bc_ents s' p = Some e' \<longrightarrow> e' = e\<lparr>bce_typ := BCE_NONCE_BLOCK\<rparr>))"
proof -
  obtain tr s' where r: "cn_turn en used rnd [] s = Some (tr, s')" "set tr = cn_due en s" "turn_done en s s'"
    using cn_turn_done [OF assms(3,1,2), of used rnd "[]"] by auto
  have "\<forall>x. x \<notin> cn_due en s \<longrightarrow> tq_pending (bc_tq s') x = tq_pending (bc_tq s) x"
    using r(3) by (simp add: turn_done_def tq_pending_def)
  then show ?thesis using r unfolding turn_done_def expired_to_def cn_brr_before_expiry_ts_def by blast
qed

text \<open>A nonce armed at 1000 seconds is renewed by a turn at 5000 seconds.\<close>

theorem cn_turn_runs_due_witness:
  "\<exists>ix tok k tr s'. rr_cn_keygen_token (en_hmac cn_env_ref) (en_now cn_env_ref) (replicate 16 1) 0 kg0 = Some (ix, tok, k) \<and>
     cn_turn (cn_env_ref\<lparr>en_now := Timespec 5000 0\<rparr>) (\<lambda>_. 0) (\<lambda>_. []) [] (bc0\<lparr>bc_kg := k\<rparr>) = Some (tr, s') \<and>
     nonce_tqe 1 \<in> set tr \<and> cn_due (cn_env_ref\<lparr>en_now := Timespec 5000 0\<rparr>) s' = {}"
proof -
  let ?now = "en_now cn_env_ref" and ?hmac = "en_hmac cn_env_ref" and ?en = "cn_env_ref\<lparr>en_now := Timespec 5000 0\<rparr>"
  have now: "time_ok ?now" using cn_env_ref_ok by (simp add: env_ok_def)
  have "kg_min kg0 \<le> kg_max kg0" by (simp add: kg0_def)
  then obtain tok k where k: "rr_cn_keygen_token ?hmac ?now (replicate 16 1) 0 kg0 = Some (kg_min kg0, tok, k)" "kg_wf k"
    "kg_keeps kg0 k" "nh_until (kg_nonces k ! 1) = tsadd ?now max_nonce_lifetime_ts"
    using keygen_token_first [OF kg0_wf kg0_first(1) _ now, of ?hmac "replicate 16 1" 0] kg0_first(2) by auto
  let ?s = "bc0\<lparr>bc_kg := k\<rparr>"
  have inv: "bc_inv {} ?s" by (rule bc_inv_keygen [OF bc0_inv k(2)]) (use k(3) in \<open>simp add: bc0_def\<close>)
  have ok: "renew_ok ?s" "env_ok ?en"
    by (simp add: renew_ok_def bc0_def, simp add: env_ok_def cn_env_ref_def time_ok_def ts_ok_def)
  have "tq_expires (bc_tq ?s) (nonce_tqe 1) = tsadd ?now max_nonce_lifetime_ts" using k(2,4) by (simp add: kg_wf_def bc_tq_def)
  moreover have "tsadd ?now max_nonce_lifetime_ts \<noteq> tszero \<and> tsadd ?now max_nonce_lifetime_ts \<le> Timespec 5000 0"
    by (simp add: cn_env_ref_def max_nonce_lifetime_ts_def tsadd_def ts_carry_def tszero_def less_eq_timespec_def)
  ultimately have "nonce_tqe 1 \<in> cn_due ?en ?s" by (simp add: cn_due_def tq_pending_def)
  then show ?thesis using cn_turn_runs_due [OF inv ok, of "\<lambda>_. 0" "\<lambda>_. []"] k(1) by blast
qed

end
