(* ===== verification/Rr_Session.thy ===== *)
theory Rr_Session
  imports Cn_Run
begin

text \<open>
  Return routability as a whole (\<open>keygen.c\<close>, \<open>mh.c\<close>, \<open>bcache.c\<close>, \<open>cn.c\<close> of \<open>src/protocols/umip/src\<close>): what a
  mobile node reads from the answers to its tests, the update it signs with it, and that this update
  is authentic when it arrives, whatever happened in between.
\<close>

text \<open>The fields of a home test and a care-of test message.\<close>

definition test_index :: "mh_packet \<Rightarrow> u16" where
  "test_index p = be16 (mp_data p ! 6) (mp_data p ! 7)"

definition test_token :: "mh_packet \<Rightarrow> bytes" where
  "test_token p = take 8 (drop 16 (mp_data p))"

text \<open>What holds of a token that was handed out at time \<open>t\<close>: its nonce is the one in slot \<open>i\<close>.\<close>

definition token_of :: "(bytes \<Rightarrow> bytes \<Rightarrow> bytes) \<Rightarrow> in6_addr \<Rightarrow> u8 \<Rightarrow> u16 \<Rightarrow> bytes \<Rightarrow> timespec \<Rightarrow> nat \<Rightarrow> keygen \<Rightarrow> bool" where
  "token_of hmac a b ix tok t i k \<longleftrightarrow> i < MAX_NONCES \<and> get_nonce ix k = Some i \<and> tsisset (nh_until (kg_nonces k ! i)) \<and>
     ts_ok (nh_until (kg_nonces k ! i)) \<and>
     nsecs t + MAX_TOKEN_LIFETIME * TIME_SEC_NSEC \<le> nsecs (nh_until (kg_nonces k ! i)) \<and>
     tok = build_kgen_token hmac (kg_key k) a (nh_nonce (kg_nonces k ! i)) b"

lemma token_of_kept:
  assumes "token_of hmac a b ix tok t i k" "kg_nonces k' ! i = kg_nonces k ! i" "kg_key k' = kg_key k"
  shows "token_of hmac a b ix tok t i k'"
  using assms get_nonce_cong [of ix k i k'] by (simp add: token_of_def)

text \<open>A message without options and key leaves as it is, but for its length field.\<close>

lemma mh_send_plain:
  assumes "length m = 24"
  shows "\<exists>w. mh_send hmac True addrs [m] None oif =
    Some (Some \<lparr>mp_src = ab_src addrs, mp_dst = ab_dst addrs, mp_rth = ab_remote_coa addrs, mp_oif = oif, mp_data = m[1 := w]\<rparr>)"
proof -
  have "create_opt_pad (optpad 8 0 24) = []" by (simp add: optpad_mod)
  then show ?thesis
    using assms by (intro exI [of _ "of_nat (mh_length [m, []] div 8) - 1"]) (simp add: mh_send_def mh_try_pad_def Let_def)
qed

lemma answer_test_token:
  assumes inv: "bc_inv {} s" and en: "env_ok en" and hm: "\<forall>k d. MIPV6_DIGEST_LEN \<le> length (en_hmac en k d)"
    and msg: "16 \<le> length msg" and ty: "unat ty \<le> IP6_MH_TYPE_MAX" "mh_len_table ! unat ty = 24"
    and run: "answer_test en ty b msg inb iif s = Some s'" and p: "bc_out s' = bc_out s @ [Sent p]"
  shows "bc_inv {} s' \<and> kg_keeps (bc_kg s) (bc_kg s') \<and>
    (\<exists>i. token_of (en_hmac en) (ab_src inb) b (test_index p) (test_token p) (en_now en) i (bc_kg s'))"
proof -
  obtain m ix tok k r where r: "mh_create (en_ok en) ty = Some m"
    "rr_cn_keygen_token (en_hmac en) (en_now en) (ab_src inb) b (bc_kg s) = Some (ix, tok, k)"
    "mh_send (en_hmac en) (en_mem en) (reply_bundle inb)
      [take 6 m @ [hi8 ix, lo8 ix] @ take 8 (drop 8 msg) @ take 8 tok] None iif = Some r"
    "s' = emits (sent r) (s\<lparr>bc_kg := k\<rparr>)"
    using run unfolding answer_test_def bind_eq_Some_conv by (auto simp: bind_eq_Some_conv)
  have "kg_wf (bc_kg s)" "time_ok (en_now en)" using inv en by (simp_all add: bc_inv_def timer_inv_def env_ok_def)
  from rr_cn_keygen_token_found [OF r(2) this] obtain i where i: "kg_wf k" "kg_keeps (bc_kg s) k" "i < MAX_NONCES"
    "get_nonce ix k = Some i" "tsisset (nh_until (kg_nonces k ! i))"
    "nsecs (en_now en) + MAX_TOKEN_LIFETIME * TIME_SEC_NSEC \<le> nsecs (nh_until (kg_nonces k ! i))"
    "tok = build_kgen_token (en_hmac en) (kg_key k) (ab_src inb) (nh_nonce (kg_nonces k ! i)) b" by blast
  have "8 \<le> length (en_hmac en x y)" for x y using hm [rule_format, of x y] by simp
  then have tok: "length tok = 8" using i(7) by (simp add: build_kgen_token_def)
  have m: "length m = 24" using r(1) ty by (auto simp: mh_create_def split: if_splits)
  define d where "d = take 6 m @ [hi8 ix, lo8 ix] @ take 8 (drop 8 msg) @ take 8 tok"
  have d: "length d = 24" "d ! 6 = hi8 ix" "d ! 7 = lo8 ix" "drop 16 d = tok"
    using m msg tok by (simp_all add: d_def nth_append)
  have rp: "r = Some p" using p r(4) by (cases r) (simp_all add: sent_def emits_def)
  have mem: "en_mem en" using rp r(3) by (auto simp: mh_send_def Let_def split: if_splits)
  obtain w where "r = Some \<lparr>mp_src = ab_src (reply_bundle inb), mp_dst = ab_dst (reply_bundle inb),
      mp_rth = ab_remote_coa (reply_bundle inb), mp_oif = iif, mp_data = d[1 := w]\<rparr>"
    using mh_send_plain [OF d(1), of "en_hmac en" "reply_bundle inb" iif] r(3) [folded d_def] mem by auto
  then have "mp_data p = d[1 := w]" using rp by simp
  then have "test_index p = ix" "test_token p = tok"
    using d tok by (simp_all add: test_index_def test_token_def drop_update_cancel be16_hi_lo)
  moreover have "ts_ok (nh_until (kg_nonces k ! i))" using i(1,3) by (simp add: kg_wf_def)
  ultimately have "token_of (en_hmac en) (ab_src inb) b (test_index p) (test_token p) (en_now en) i k"
    using i by (simp add: token_of_def)
  then show ?thesis using r(4) i(1,2) bc_inv_keygen [OF inv i(1,2)] by auto
qed

text \<open>The nonce of a token stays while all events come before it expires.\<close>

lemma cn_run_kept:
  assumes "bc_inv {} s" "run_ok evs s" "cn_run evs s = Some s'" "i < MAX_NONCES" "tsisset (nh_until (kg_nonces (bc_kg s) ! i))"
    "\<forall>ev \<in> set evs. en_now (ev_env ev) < nh_until (kg_nonces (bc_kg s) ! i)"
  shows "bc_inv {} s' \<and> kg_key (bc_kg s') = kg_key (bc_kg s) \<and> kg_nonces (bc_kg s') ! i = kg_nonces (bc_kg s) ! i"
  using assms
proof (induction evs arbitrary: s)
  case (Cons ev evs)
  obtain s1 where r1: "cn_step ev s = Some s1" using Cons(4) by (auto simp: bind_eq_Some_conv)
  then have s1: "cn_step ev s = Some s1" "bc_inv {} s1" "nonce_kept ev s s1"
    using cn_step_inv [OF Cons(2) _ r1] Cons(3) by simp_all
  have k: "kg_key (bc_kg s1) = kg_key (bc_kg s)" "kg_nonces (bc_kg s1) ! i = kg_nonces (bc_kg s) ! i"
    using s1(3) Cons(5-7) by (simp_all add: nonce_kept_def)
  show ?case using Cons(1) [OF s1(2)] Cons(3-7) s1(1) k by simp
qed simp

lemma token_of_run:
  assumes tok: "token_of hmac a b ix tok t i (bc_kg s)" and inv: "bc_inv {} s" and run: "run_ok evs s" "cn_run evs s = Some s'"
    and t3: "time_ok t3" "nsecs t3 < nsecs t + MAX_TOKEN_LIFETIME * TIME_SEC_NSEC"
    and times: "\<forall>ev \<in> set evs. en_now (ev_env ev) \<le> t3"
  shows "bc_inv {} s' \<and> token_of hmac a b ix tok t i (bc_kg s')"
proof -
  let ?u = "nh_until (kg_nonces (bc_kg s) ! i)"
  have u: "ts_ok ?u" "tsisset ?u" "i < MAX_NONCES" using tok by (simp_all add: token_of_def)
  have "nsecs t3 < nsecs ?u" using tok t3(2) by (simp add: token_of_def)
  then have "t3 < ?u" using nsecs_less [of t3 ?u] u(1) t3(1) by (simp add: time_ok_def)
  then have "\<forall>ev \<in> set evs. en_now (ev_env ev) < ?u" using times by (auto intro: le_less_trans)
  from cn_run_kept [OF inv run u(3,2) this] show ?thesis using token_of_kept [OF tok] by blast
qed

lemma token_valid:
  assumes "token_of hmac a b ix tok t i k" "time_ok t3" "nsecs t3 < nsecs t + MAX_TOKEN_LIFETIME * TIME_SEC_NSEC"
  shows "validate_nonce t3 ix k = Some i" "tok = build_kgen_token hmac (kg_key k) a (nh_nonce (kg_nonces k ! i)) b"
  using assms validate_nonce_kept [of ix k i k t3] by (simp_all add: token_of_def time_ok_def)

lemma tokens_give_key:
  assumes "token_of hmac hoa 0 hi ht t1 i k" "token_of hmac coa 1 ci ct t2 j k" "time_ok t3"
    "nsecs t3 < nsecs t1 + MAX_TOKEN_LIFETIME * TIME_SEC_NSEC" "nsecs t3 < nsecs t2 + MAX_TOKEN_LIFETIME * TIME_SEC_NSEC"
  shows "rr_cn_calc_Kbm hmac sha1 t3 hi ci hoa (Some coa) k = Inr (rr_mn_calc_Kbm sha1 ht (Some ct))"
  using token_valid [OF assms(1,3,4)] token_valid [OF assms(2,3,5)] by (simp add: rr_cn_calc_Kbm_def Let_def)

section \<open>The update arrives\<close>

text \<open>
  A binding update header as the mobile node fills it in: sequence number, two bytes of flags and the
  lifetime in units of four seconds. The checksum is left to the kernel, so two bytes differ on arrival.
\<close>

definition bu_header :: "u16 \<Rightarrow> u8 \<Rightarrow> u8 \<Rightarrow> u16 \<Rightarrow> bytes" where
  "bu_header sq f1 f2 lft = [IPPROTO_NONE, 0, IP6_MH_TYPE_BU, 0, 0, 0, hi8 sq, lo8 sq, f1, f2, hi8 lft, lo8 lft]"

definition with_checksum :: "u8 \<Rightarrow> u8 \<Rightarrow> bytes \<Rightarrow> bytes" where
  "with_checksum x y d = d[4 := x, 5 := y]"

lemma header_fields:
  assumes "take 12 d = (bu_header sq f1 f2 lft)[1 := w]"
  shows "12 \<le> length d" "d[4 := 0, 5 := 0] = d" "bu_seqno d = sq" "bu_flags d = be16 f2 f1" "be16 (d ! 10) (d ! 11) = lft"
proof -
  have "length (take 12 d) = 12" using assms by (simp add: bu_header_def)
  then show l: "12 \<le> length d" by simp
  have n: "d ! j = (bu_header sq f1 f2 lft)[1 := w] ! j" if "j < 12" for j using that assms by (metis nth_take)
  show "bu_seqno d = sq" "bu_flags d = be16 f2 f1" "be16 (d ! 10) (d ! 11) = lft"
    by (simp_all add: n bu_seqno_def bu_flags_def bu_header_def be16_hi_lo)
  have "d ! 4 = 0" "d ! 5 = 0" by (simp_all add: n bu_header_def)
  then show "d[4 := 0, 5 := 0] = d" by (metis list_update_id)
qed

lemma checksum_fields:
  "length (with_checksum x y d) = length d" "(with_checksum x y d)[4 := 0, 5 := 0] = d[4 := 0, 5 := 0]"
  "12 \<le> j \<Longrightarrow> with_checksum x y d ! j = d ! j"
  "bu_seqno (with_checksum x y d) = bu_seqno d" "bu_flags (with_checksum x y d) = bu_flags d"
  "be16 (with_checksum x y d ! 10) (with_checksum x y d ! 11) = be16 (d ! 10) (d ! 11)"
  "mh_opt_parse (with_checksum x y d) len 12 = mh_opt_parse d len 12"
  by (simp_all add: with_checksum_def bu_seqno_def bu_flags_def mh_opt_parse_def opt_parse_loop_cong list_update_swap)

lemma nonce_option:
  assumes "opt_found d mo (mh_create_opt_nonce_index hi ci)"
  obtains i where "mh_opt mo IP6_MHOPT_NONCEID = Some i" "home_nonce d i = hi" "coa_nonce d i = ci"
proof -
  have o: "length (mh_create_opt_nonce_index hi ci) = 6" "mh_create_opt_nonce_index hi ci ! 0 = IP6_MHOPT_NONCEID"
    by (simp_all add: mh_create_opt_nonce_index_def)
  obtain i where i: "mh_opt mo IP6_MHOPT_NONCEID = Some i" "take 6 (drop i d) = mh_create_opt_nonce_index hi ci"
    using assms unfolding opt_found_def o by blast
  have "length (take 6 (drop i d)) = 6" using i(2) by (simp add: mh_create_opt_nonce_index_def)
  then have "i + 6 \<le> length d" by simp
  then have n: "d ! (i + j) = mh_create_opt_nonce_index hi ci ! j" if "j < 6" for j
    using that i(2) by (metis nth_drop nth_take add_leE)
  have "home_nonce d i = hi" "coa_nonce d i = ci"
    using n [of 2] n [of 3] n [of 4] n [of 5] by (simp_all add: home_nonce_def coa_nonce_def mh_create_opt_nonce_index_def be16_hi_lo)
  then show ?thesis using that i(1) by blast
qed

lemma signed_update_authentic:
  assumes inv: "bc_inv {} s" and hm: "\<forall>k d. MIPV6_DIGEST_LEN \<le> length (en_hmac en k d)"
    and hdr: "hdr = bu_header sq f1 f2 lft" "be16 f2 f1 AND IP6_MH_BU_HOME = 0" "lft \<noteq> 0"
    and send: "mh_send (en_hmac en) True addrs (hdr # [mh_create_opt_nonce_index hi ci] @ [mh_create_opt_auth_data]) (Some key) oif = Some (Some pkt)"
    and addrs: "ab_bind_coa addrs = Some coa" "ab_dst addrs = ab_dst inb"
    and inb: "ab_remote_coa inb = Some coa" "coa \<noteq> ab_src inb" "in6_is_addr_routable_unicast (ab_src inb)" "in6_is_addr_routable_unicast coa"
    and circ: "bc_view s (ab_dst inb, coa) = None"
    and key: "rr_cn_calc_Kbm (en_hmac en) (en_sha1 en) (en_now en) hi ci (ab_src inb) (Some coa) (bc_kg s) = Inr key"
    and bu: "bu = with_checksum x y (mp_data pkt)"
  shows "\<exists>bp i. bu_authentic en bu (int (length bu)) inb s bp coa i \<and> tsisset (bp_lft bp) \<and> bu_seqno bu = sq \<and> home_nonce bu i = hi"
proof -
  let ?d = "mp_data pkt" let ?ni = "mh_create_opt_nonce_index hi ci"
  have ni: "?ni ! 0 = 4" by (simp add: mh_create_opt_nonce_index_def)
  have ok: "opts_ok ([?ni] @ [mh_create_opt_auth_data])"
    using created_opts_wf(3,4) ni by (simp add: opts_ok_def mh_create_opt_auth_data_def)
  have len: "length hdr = 12" "hdr \<noteq> []" "ab_dst inb = (if hdr ! 2 = IP6_MH_TYPE_BU then ab_dst addrs else ab_src addrs)"
    using addrs(2) by (simp_all add: hdr(1) bu_header_def)
  obtain mo b w where mo: "mh_opt_parse ?d (int (length ?d)) 12 = (2, mo)" "opt_found ?d mo ?ni" "mh_opt mo IP6_MHOPT_BAUTH = Some b"
    "mh_verify_auth_data (en_hmac en) ?d (length ?d) b coa (ab_dst inb) key = 0" "take 12 ?d = hdr[1 := w]" "mo_opts mo 3 = 0"
    using signed_message_parts [OF hm ok len(2) send addrs(1) len(3)] len(1) ni by auto
  note h = header_fields [OF mo(5) [unfolded hdr(1)]]
  obtain i where i: "mh_opt mo IP6_MHOPT_NONCEID = Some i" "home_nonce ?d i = hi" "coa_nonce ?d i = ci"
    using nonce_option [OF mo(2)] by blast
  have i12: "12 \<le> i" using mh_opt_parse_from [OF mo(1) i(1)] .
  have n: "home_nonce bu i = hi" "coa_nonce bu i = ci"
    using i(2,3) i12 unfolding home_nonce_def coa_nonce_def bu by (simp_all add: checksum_fields)
  have fl: "\<not> bu_flag IP6_MH_BU_HOME bu" "bu_seqno bu = sq" using h hdr(2) by (simp_all add: bu checksum_fields bu_flag_def)
  define l where "l = tssetsec (uint lft * 4)"
  define out where "out = \<lparr>ab_src = ab_dst inb, ab_dst = ab_src inb, ab_local_coa = None, ab_remote_coa = Some coa, ab_bind_coa = Some coa\<rparr>"
  define bp where "bp = \<lparr>bp_out = out, bp_opts = mo, bp_lft = l\<rparr>"
  have l: "tsisset l" using hdr(3) by (simp add: l_def tssetsec_def tsisset_def tszero_def uint_0_iff)
  have "mh_opt mo IP6_MHOPT_ALTCOA = None" using mo(6) by (simp add: mh_opt_def)
  then have "mh_bu_parse (\<lambda>a b. bce_exists a b s) bu (int (length bu)) inb = Some (Some bp)"
    using h(1,5) mo(1) inb bce_exists_view [OF inv, of "ab_dst inb" coa] circ
    by (simp add: mh_bu_parse_def bu checksum_fields bp_def out_def l_def Let_def)
  moreover have "bu[4 := 0, 5 := 0] = ?d" using h(2) by (simp add: bu checksum_fields)
  ultimately have "bu_authentic en bu (int (length bu)) inb s bp coa i"
    using i(1) n fl mo(3,4) key l
    by (simp add: bu_authentic_def bu_key_def bp_def out_def) (simp add: bu checksum_fields)
  then show ?thesis using l fl n(1) by (intro exI [of _ bp] exI [of _ i]) (simp add: bp_def)
qed

text \<open>Both tests, seen as events.\<close>

lemma hoti_token:
  assumes "bc_inv {} s" "env_ok en" "\<forall>k d. MIPV6_DIGEST_LEN \<le> length (en_hmac en k d)" "16 \<le> length msg"
    "cn_step (Ev_hoti en msg len inb iif) s = Some s'" "bc_out s' = bc_out s @ [Sent p]"
  shows "bc_inv {} s' \<and> kg_keeps (bc_kg s) (bc_kg s') \<and>
    (\<exists>i. token_of (en_hmac en) (ab_src inb) 0 (test_index p) (test_token p) (en_now en) i (bc_kg s'))"
proof -
  have "answer_test en IP6_MH_TYPE_HOT 0 msg inb iif s = Some s'"
    using assms(5,6) by (simp add: cn_recv_hoti_def split: if_splits)
  from answer_test_token [OF assms(1-4) _ _ this assms(6)] show ?thesis by (simp add: mh_len_table_def)
qed

lemma coti_token:
  assumes "bc_inv {} s" "env_ok en" "\<forall>k d. MIPV6_DIGEST_LEN \<le> length (en_hmac en k d)" "16 \<le> length msg"
    "cn_step (Ev_coti en msg len inb iif) s = Some s'" "bc_out s' = bc_out s @ [Sent p]"
  shows "bc_inv {} s' \<and> kg_keeps (bc_kg s) (bc_kg s') \<and>
    (\<exists>i. token_of (en_hmac en) (ab_src inb) 1 (test_index p) (test_token p) (en_now en) i (bc_kg s'))"
proof -
  have "answer_test en IP6_MH_TYPE_COT 1 msg inb iif s = Some s'"
    using assms(5,6) by (simp add: cn_recv_coti_def split: if_splits)
  from answer_test_token [OF assms(1-4) _ _ this assms(6)] show ?thesis by (simp add: mh_len_table_def)
qed

lemma genuine_update_authentic:
  assumes inv: "bc_inv {} s0" and hm: "\<forall>k d. MIPV6_DIGEST_LEN \<le> length (hmac k d)"
    and home: "cn_step (Ev_hoti en1 m1 l1 inb1 if1) s0 = Some s1" "bc_out s1 = bc_out s0 @ [Sent hot]"
    and run1: "run_ok evs1 s1" "cn_run evs1 s1 = Some s2"
    and co: "cn_step (Ev_coti en2 m2 l2 inb2 if2) s2 = Some s3" "bc_out s3 = bc_out s2 @ [Sent cot]"
    and run2: "run_ok evs2 s3" "cn_run evs2 s3 = Some s4"
    and src: "ab_src inb1 = ab_src inb" "ab_src inb2 = coa" "16 \<le> length m1" "16 \<le> length m2"
    and env: "env_ok en1" "env_ok en2" "env_ok en" "en_hmac en1 = hmac" "en_hmac en2 = hmac" "en_hmac en = hmac"
    and times: "\<forall>ev \<in> set (evs1 @ evs2). en_now (ev_env ev) \<le> en_now en"
      "nsecs (en_now en) < nsecs (en_now en1) + MAX_TOKEN_LIFETIME * TIME_SEC_NSEC"
      "nsecs (en_now en) < nsecs (en_now en2) + MAX_TOKEN_LIFETIME * TIME_SEC_NSEC"
    and key: "key = rr_mn_calc_Kbm (en_sha1 en) (test_token hot) (Some (test_token cot))"
    and send: "mh_send hmac True addrs (bu_header sq f1 f2 lft # [mh_create_opt_nonce_index (test_index hot) (test_index cot)] @
      [mh_create_opt_auth_data]) (Some key) oif = Some (Some pkt)"
    and hdr: "be16 f2 f1 AND IP6_MH_BU_HOME = 0" "lft \<noteq> 0"
    and addrs: "ab_bind_coa addrs = Some coa" "ab_dst addrs = ab_dst inb"
    and inb: "ab_remote_coa inb = Some coa" "coa \<noteq> ab_src inb" "in6_is_addr_routable_unicast (ab_src inb)" "in6_is_addr_routable_unicast coa"
    and circ: "bc_view s4 (ab_dst inb, coa) = None"
    and bu: "bu = with_checksum x y (mp_data pkt)"
  shows "bc_inv {} s4 \<and> (\<exists>bp k. bu_authentic en bu (int (length bu)) inb s4 bp coa k \<and> tsisset (bp_lft bp) \<and> bu_seqno bu = sq \<and>
    home_nonce bu k = test_index hot)"
proof -
  let ?t = "en_now en"
  have t: "time_ok ?t" using env(3) by (simp add: env_ok_def)
  obtain i where i: "bc_inv {} s1" "token_of hmac (ab_src inb) 0 (test_index hot) (test_token hot) (en_now en1) i (bc_kg s1)"
    using hoti_token [OF inv env(1) _ src(3) home] hm unfolding env(4) src(1) by blast
  have 2: "bc_inv {} s2 \<and> token_of hmac (ab_src inb) 0 (test_index hot) (test_token hot) (en_now en1) i (bc_kg s2)"
    using times(1) by (intro token_of_run [OF i(2,1) run1 t times(2)]) simp
  then obtain j where j: "bc_inv {} s3" "kg_keeps (bc_kg s2) (bc_kg s3)"
    "token_of hmac coa 1 (test_index cot) (test_token cot) (en_now en2) j (bc_kg s3)"
    using coti_token [OF _ env(2) _ src(4) co] hm unfolding env(5) src(2) by blast
  have "kg_nonces (bc_kg s3) ! i = kg_nonces (bc_kg s2) ! i" "kg_key (bc_kg s3) = kg_key (bc_kg s2)"
    using kg_keeps_nonce [OF j(2), of i] j(2) 2 by (simp_all add: token_of_def kg_keeps_def)
  then have 3: "token_of hmac (ab_src inb) 0 (test_index hot) (test_token hot) (en_now en1) i (bc_kg s3)"
    using token_of_kept 2 by blast
  have 4: "bc_inv {} s4 \<and> token_of hmac (ab_src inb) 0 (test_index hot) (test_token hot) (en_now en1) i (bc_kg s4)"
    using times(1) by (intro token_of_run [OF 3 j(1) run2 t times(2)]) simp
  have 5: "token_of hmac coa 1 (test_index cot) (test_token cot) (en_now en2) j (bc_kg s4)"
    using times(1) token_of_run [OF j(3,1) run2 t times(3)] by simp
  have k: "rr_cn_calc_Kbm (en_hmac en) (en_sha1 en) ?t (test_index hot) (test_index cot) (ab_src inb) (Some coa) (bc_kg s4) = Inr key"
    using tokens_give_key [OF conjunct2 [OF 4] 5 t times(2,3)] by (simp add: env(6) key)
  show ?thesis
    using 4 signed_update_authentic [OF conjunct1 [OF 4] hm [folded env(6)] refl hdr send [folded env(6)] addrs inb circ k bu] by blast
qed

section \<open>An example\<close>

text \<open>A mobile node at home at \<open>ref_hoa\<close>, visiting at \<open>ref_coa\<close>, registers with \<open>ref_cn\<close>.\<close>

definition ref_hoa :: in6_addr where "ref_hoa = 0x20 # replicate 15 1"
definition ref_coa :: in6_addr where "ref_coa = 0x20 # replicate 15 2"
definition ref_cn :: in6_addr where "ref_cn = 0x20 # replicate 15 3"

definition ref_in :: "in6_addr \<Rightarrow> in6_addr option \<Rightarrow> in6_addr_bundle" where
  "ref_in a c = \<lparr>ab_src = a, ab_dst = ref_cn, ab_local_coa = None, ab_remote_coa = c, ab_bind_coa = None\<rparr>"

lemma ref_addrs: "ref_coa \<noteq> ref_hoa" "in6_is_addr_routable_unicast ref_hoa" "in6_is_addr_routable_unicast ref_coa"
  by code_simp+

lemma answer_test_sends:
  assumes "rr_cn_keygen_token (en_hmac en) (en_now en) (ab_src inb) b (bc_kg s) = Some (ix, tok, k)" "en_ok en" "en_mem en" "unat ty \<le> IP6_MH_TYPE_MAX"
  shows "\<exists>p. answer_test en ty b msg inb iif s = Some (s\<lparr>bc_kg := k, bc_out := bc_out s @ [Sent p]\<rparr>)"
  using assms by (simp add: answer_test_def mh_create_def mh_send_def mh_try_pad_def Let_def sent_def emits_def) (rule exI, rule refl)

lemma ref_tests:
  obtains s1 s3 hot cot where "cn_step (Ev_hoti cn_env_ref (replicate 16 0) 16 (ref_in ref_hoa None) 2) bc0 = Some s1"
    "bc_out s1 = bc_out bc0 @ [Sent hot]" "cn_step (Ev_coti cn_env_ref (replicate 16 0) 16 (ref_in ref_coa None) 2) s1 = Some s3"
    "bc_out s3 = bc_out s1 @ [Sent cot]" "bc_ents s3 = Map.empty" "bc_view s3 = Map.empty" "bc_inv {} s3"
proof -
  let ?t = "en_now cn_env_ref" let ?h = "en_hmac cn_env_ref"
  have t: "time_ok ?t" using cn_env_ref_ok by (simp add: env_ok_def)
  have m: "en_ok cn_env_ref" "en_mem cn_env_ref" by (simp_all add: cn_env_ref_def)
  obtain ht k1 where h: "rr_cn_keygen_token ?h ?t ref_hoa 0 kg0 = Some (kg_min kg0, ht, k1)"
    "kg_wf k1" "kg_keeps kg0 k1" "get_nonce (kg_min k1) k1 = Some 1" "nh_until (kg_nonces k1 ! 1) = tsadd ?t max_nonce_lifetime_ts"
    using keygen_token_first [OF kg0_wf kg0_first(1) _ t, of ?h ref_hoa 0] kg0_first(2) by (auto simp: kg0_def)
  have "kg_min k1 \<le> kg_max k1" using h(3) by (simp add: kg_keeps_def kg0_def)
  moreover have "MAX_TOKEN_LIFETIME * TIME_SEC_NSEC \<le> nsecs (nh_until (kg_nonces k1 ! 1)) - nsecs ?t"
    using nonce_expiry(3) [OF t] h(5) by simp
  ultimately obtain ct k3 where c: "rr_cn_keygen_token ?h ?t ref_coa 1 k1 = Some (kg_min k1, ct, k3)" "kg_wf k3" "kg_keeps k1 k3"
    using keygen_token_first [OF h(2,4) _ t, of ?h ref_coa 1] by blast
  have kg: "bc_kg bc0 = kg0" by (simp add: bc0_def)
  obtain hot where 1: "answer_test cn_env_ref IP6_MH_TYPE_HOT 0 (replicate 16 0) (ref_in ref_hoa None) 2 bc0 =
      Some (bc0\<lparr>bc_kg := k1, bc_out := bc_out bc0 @ [Sent hot]\<rparr>)"
    using answer_test_sends [of cn_env_ref "ref_in ref_hoa None" 0 bc0 _ _ _ IP6_MH_TYPE_HOT] h(1) m kg by (fastforce simp: ref_in_def)
  define s1 where "s1 = bc0\<lparr>bc_kg := k1, bc_out := bc_out bc0 @ [Sent hot]\<rparr>"
  obtain cot where 2: "answer_test cn_env_ref IP6_MH_TYPE_COT 1 (replicate 16 0) (ref_in ref_coa None) 2 s1 =
      Some (s1\<lparr>bc_kg := k3, bc_out := bc_out s1 @ [Sent cot]\<rparr>)"
    using answer_test_sends [of cn_env_ref "ref_in ref_coa None" 1 s1 _ _ _ IP6_MH_TYPE_COT] c(1) m by (fastforce simp: ref_in_def s1_def)
  define s3 where "s3 = s1\<lparr>bc_kg := k3, bc_out := bc_out s1 @ [Sent cot]\<rparr>"
  have e: "bc_ents s3 = Map.empty" by (simp add: s3_def s1_def bc0_def)
  have v: "bc_view s3 = Map.empty" using e by (simp add: bc_view_def fun_eq_iff split: option.split)
  have "bc_inv {} (emits [Sent hot] (bc0\<lparr>bc_kg := k1\<rparr>))" using bc_inv_keygen [OF bc0_inv h(2)] h(3) kg by simp
  then have i1: "bc_inv {} s1" by (simp add: s1_def emits_def)
  have "bc_inv {} (emits [Sent cot] (s1\<lparr>bc_kg := k3\<rparr>))" using bc_inv_keygen [OF i1 c(2)] c(3) by (simp add: s1_def)
  then have "bc_inv {} s3" by (simp add: s3_def emits_def)
  moreover have "cn_step (Ev_hoti cn_env_ref (replicate 16 0) 16 (ref_in ref_hoa None) 2) bc0 = Some s1"
    "cn_step (Ev_coti cn_env_ref (replicate 16 0) 16 (ref_in ref_coa None) 2) s1 = Some s3"
    using 1 2 by (simp_all add: cn_recv_hoti_def cn_recv_coti_def ref_in_def s1_def s3_def)
  moreover have "bc_out s1 = bc_out bc0 @ [Sent hot]" "bc_out s3 = bc_out s1 @ [Sent cot]" by (simp_all add: s1_def s3_def)
  ultimately show ?thesis using that e v by blast
qed

lemma ref_room: "bc_ents s = Map.empty \<Longrightarrow> has_room cn_env_ref s"
  by (auto simp: has_room_def cn_env_ref_def dom_def)

lemma ref_digest: "\<forall>k d. MIPV6_DIGEST_LEN \<le> length (en_hmac cn_env_ref k d)"
  unfolding cn_env_ref_def by (simp del: length_replicate length_append) (simp add: min_def)

text \<open>The packet of the node: sequence number 7, an acknowledgement wanted, forty seconds.\<close>

definition ref_out :: in6_addr_bundle where
  "ref_out = \<lparr>ab_src = ref_hoa, ab_dst = ref_cn, ab_local_coa = Some ref_coa, ab_remote_coa = None, ab_bind_coa = Some ref_coa\<rparr>"

definition ref_update :: "mh_packet \<Rightarrow> mh_packet \<Rightarrow> mh_packet option cres" where
  "ref_update hot cot = mh_send (en_hmac cn_env_ref) True ref_out
     (bu_header 7 0x80 0 10 # [mh_create_opt_nonce_index (test_index hot) (test_index cot)] @ [mh_create_opt_auth_data])
     (Some (rr_mn_calc_Kbm (en_sha1 cn_env_ref) (test_token hot) (Some (test_token cot)))) 0"

lemma ref_update_sent: "\<exists>pkt. ref_update hot cot = Some (Some pkt)"
  unfolding ref_update_def by (rule mh_send_returns) (simp_all add: ref_out_def)

lemma ref_session:
  obtains s s' bu e where "bc_inv {} s" "bc_view s = Map.empty"
    "cn_recv_bu cn_env_ref bu (int (length bu)) (ref_in ref_hoa (Some ref_coa)) 2 s = Some s'"
    "bc_view s' (ref_cn, ref_hoa) = Some e" "bound_to ref_coa 7 e"
proof (rule ref_tests)
  fix s1 s3 hot cot
  assume t: "cn_step (Ev_hoti cn_env_ref (replicate 16 0) 16 (ref_in ref_hoa None) 2) bc0 = Some s1"
    "bc_out s1 = bc_out bc0 @ [Sent hot]" "cn_step (Ev_coti cn_env_ref (replicate 16 0) 16 (ref_in ref_coa None) 2) s1 = Some s3"
    "bc_out s3 = bc_out s1 @ [Sent cot]" "bc_ents s3 = Map.empty" "bc_view s3 = Map.empty" "bc_inv {} s3"
  obtain pkt where pkt: "ref_update hot cot = Some (Some pkt)" using ref_update_sent by blast
  define bu where "bu = with_checksum 1 2 (mp_data pkt)"
  let ?inb = "ref_in ref_hoa (Some ref_coa)"
  have "bc_inv {} s3 \<and> (\<exists>bp k. bu_authentic cn_env_ref bu (int (length bu)) ?inb s3 bp ref_coa k \<and> tsisset (bp_lft bp) \<and>
      bu_seqno bu = 7 \<and> home_nonce bu k = test_index hot)"
    by (rule genuine_update_authentic [OF bc0_inv ref_digest t(1,2) run_ok.simps(1) [THEN iffD2, OF TrueI] cn_run.simps(1) t(3,4)
          run_ok.simps(1) [THEN iffD2, OF TrueI] cn_run.simps(1) _ _ _ _ cn_env_ref_ok cn_env_ref_ok cn_env_ref_ok refl refl refl _ _ _ refl
          pkt [unfolded ref_update_def] _ _ _ _ _ _ _ _ _ bu_def])
      (use t(6) ref_addrs in \<open>simp_all add: ref_in_def ref_out_def IP6_MH_BU_HOME_def be16_def\<close>)
  then obtain bp k where a: "bu_authentic cn_env_ref bu (int (length bu)) ?inb s3 bp ref_coa k" "tsisset (bp_lft bp)"
    "bu_seqno bu = 7" by blast
  have "bu_welcome cn_env_ref bu (int (length bu)) ?inb s3 ref_coa k"
    using ref_room [OF t(5)] t(6) by (simp add: bu_welcome_def seq_ok_def) (simp add: cn_env_ref_def)
  then obtain s' e where "cn_recv_bu cn_env_ref bu (int (length bu)) ?inb 2 s3 = Some s'"
    "bc_view s' (ab_dst ?inb, ab_src ?inb) = Some e" "bound_to ref_coa 7 e"
    using cn_recv_bu_step [OF t(7) cn_env_ref_ok refl, of bu "int (length bu)" ?inb 2] a by metis
  then show ?thesis using that [OF t(7,6), of bu s' e] by (simp add: ref_in_def)
qed

end
