(* ===== verification/Spec2Isabelle.thy ===== *)
theory Spec2Isabelle
  imports Conmgr Socks Sined_Main Rr_Session
begin

text \<open>
  Verification of the mobility middleware of this repository: the daemon \<open>sined\<close> with its client
  library (\<open>src/sined\<close>), and the core of the Mobile IPv6 daemon it starts (\<open>src/protocols/umip\<close>).

  \<^bold>\<open>The program.\<close> \<open>sined\<close> forks its helper programs and starts five threads (\<open>main.c\<close>). The SOCKS
  server (\<open>socks.c\<close>) accepts connections, finds the client's process in \<open>/proc\<close>, connects to the remote
  side and forwards bytes; through the client library (\<open>lib/libsine.c\<close>) it announces every connection to
  the connection manager (\<open>conmgr.c\<close>), which keeps the table of connections. The policy engine (\<open>pe.c\<close>)
  reads rules from an XML file and chooses for each connection the rule that applies at the current
  location, which the location manager (\<open>locmgr.c\<close>) reads from a terminal, and asks the network manager
  (\<open>netmgr.c\<close>) to switch links. The Mobile IPv6 daemon answers the messages by which a mobile node
  registers its address with a correspondent: return routability tests and binding updates.

  \<^bold>\<open>Conventions.\<close> A C function that may not return or whose behaviour may be undefined (a null or
  freed pointer, an overrun buffer, a failed assertion) yields an option: \<open>None\<close> stands for that, \<open>Some\<close> for
  the result. So a theorem that a call is \<open>Some\<close> states the absence of undefined behaviour and the end
  of every loop. Loops are recursive functions with a termination proof, or \<open>partial_function (option)\<close>
  where the code alone does not ensure the end; then it is proved from the invariant of the data the
  loop walks over (for the search for a nonce: when the oldest one can be used). Integers whose width matters are
  words. State is passed explicitly; outcomes of system calls and of allocation are arguments; messages
  sent, sockets closed and kernel policies set are recorded in lists. Handlers that run under a lock are
  one step. There is no fuel anywhere.

  \<^bold>\<open>Theories of the sined part.\<close>
  \<^item> \<open>Prelude\<close>, \<open>Cstdlib\<close>, \<open>Inet\<close>, \<open>Sockets\<close>: machine types, C strings and numbers, printed addresses,
    the records shared by client and connection manager.
  \<^item> \<open>Headed_List\<close>: the linked list with a head node used by \<open>conmgr.c\<close> and \<open>netmgr.c\<close>, on a heap of nodes,
    with the locale \<open>node_table\<close> of its laws.
  \<^item> \<open>Conmgr\<close>: the connection table, its messages and the loop of the connection manager; the
    pointer structure implements a list of connections, every node is freed once.
  \<^item> \<open>Pe\<close>: policies, their XML form (the XML library is a parameter), evaluation and the thread as a
    step relation; the locale \<open>rule_evaluator\<close> is what the connection table needs of an evaluation.
  \<^item> \<open>Netmgr\<close>, \<open>Locmgr\<close>, \<open>Libsine\<close>, \<open>Socks\<close>, \<open>Sined_Main\<close>: one theory for each file named alike.

  \<^bold>\<open>Theories of the Mobile IPv6 part.\<close>
  \<^item> \<open>Timespec\<close>, \<open>Klist\<close>, \<open>Prefix\<close>: the time macros and address helpers of \<open>util.h\<close>, the circular lists of
    \<open>list.h\<close> on a pointer heap, prefixes (\<open>prefix.c\<close>).
  \<^item> \<open>Tqueue\<close>: the timer queue (\<open>tqueue.c\<close>) on those lists; locale \<open>timer_queue\<close>: arming and cancelling
    act on a map of pending timers.
  \<^item> \<open>Hash\<close>: the address hash table (\<open>hash.c\<close>); locale \<open>addr_table\<close>: for absent keys it is a map.
  \<^item> \<open>Keygen\<close>: nonces, tokens and keys of return routability (\<open>keygen.c\<close>); HMAC and SHA-1 are parameters.
  \<^item> \<open>Mh\<close>: mobility header messages (\<open>mh.c\<close>): padding, signing, parsing, verifying.
  \<^item> \<open>Bcache\<close>: the binding cache (\<open>bcache.c\<close>), entries shared by the table and the timers. The invariant
    \<open>bc_inv\<close> ties memory, table, timers and nonces together; every operation keeps it, and through it the
    cache is a map (\<open>bc_view\<close>).
  \<^item> \<open>Icmp6\<close>, \<open>Policy\<close>: ICMPv6 messages and the packet inside an error (\<open>icmp6.c\<close>), the access list that
    decides on updates (\<open>policy.c\<close>).
  \<^item> \<open>Cn\<close>: the handlers of the correspondent node (\<open>cn.c\<close>). What surrounds them (clock, memory, hash
    functions, policy hook) is the record \<open>cn_env\<close>. Each handler returns, keeps \<open>bc_inv\<close> and changes at
    most the entry of its own pair of addresses.
  \<^item> \<open>Cn_Run\<close>: sequences of messages and tasks of the timer thread. They keep the state consistent and
    stop only at a test that cannot be answered; nonces keep their value until they expire; a turn of
    the timer thread ends with nothing due.
  \<^item> \<open>Rr_Session\<close>: from the answers to two tests to an update that verifies.
  The last section of this theory composes them: a genuine update is accepted, and nothing else binds.

  \<^bold>\<open>What runs rely on.\<close> \<open>env_ok\<close>: the clock is past 1970, allocated memory was free, the policy hook
  returns. \<open>run_ok\<close>: in addition a nonce that is due for renewal does not get an index that a binding still
  carries. \<open>received\<close>: the length of an ICMPv6 packet is at least its header and at most the buffer. A handler
  sees one reading of the clock. Reads of the packet inside an ICMPv6 error are checked; the bytes of mobility
  headers are list elements, and reading past the bytes received is not an error of the model (the
  receive buffer of the code is longer than a message). A test request for which there is no memory or no
  nonce makes the code write through a null pointer; \<open>cn_run_safe\<close> shows that this is the only failure, and
  \<open>nonce_counter_wrap\<close> how a node runs out of nonces.

  \<^bold>\<open>Not modelled.\<close> Console dumps and debug output; lock creation, and threads beyond the
  outcome of their creation and joining; signals that arrive before the daemon waits; the wrappers of
  \<open>libsine.c\<close> that return 0. Of the Mobile IPv6 daemon: the mobile node and home agent roles (\<open>mn.c\<close>,
  \<open>ha.c\<close>, \<open>movement.c\<close>, \<open>tunnelctl.c\<close>, \<open>bul.c\<close>, \<open>retrout.c\<close>) with their discovery messages, netlink and IPsec
  calls into the kernel (\<open>rtnl.c\<close>, \<open>xfrm.c\<close>), the sockets of \<open>icmp6.c\<close> and \<open>mh.c\<close>, statistics, the virtual
  terminal and the generated configuration parser. The functions of \<open>libmissing\<close> that find an option or a
  routing header in ancillary data are represented by their results.
  The older middleware (\<open>src/middleware\<close>) and the older library (\<open>src/libsine\<close>) are predecessors of \<open>sined\<close>
  and not built with it. ODTONE, OpenHIP and srelay are third-party packages that are started as processes
  and reached through sockets only; here they are arguments of the definitions that talk to them.
\<close>

section \<open>A SOCKS session and the connection table\<close>

text \<open>
  C1. The SOCKS server and the connection manager fit together: take a handshake that ends in a
  forwarding thread, and whatever that thread forwards. When the connection manager handles the
  message announced by the handshake and then the one the thread sends at its end, the table
  holds the new process and descriptor in between and is back to the old ones, in order,
  afterwards, provided they were not in use.
\<close>

theorem socks_session_restores_table:
  assumes "socks_establish e cli pid = Some effs" "handed_over effs = ([m], [(cli, rem_sock, pid)])"
    and "handed_over (forward_loop junk cli rem_sock pid ts) = ([m'], [])"
    and "hl_abs (con_tbl cg) cs" "(pid, rem_sock) \<notin> set (map conn_key cs)"
    and "calls_ok ce" "ce_malloc ce (con_tbl cg) \<noteq> 0" "ce_addr_malloc ce"
    and "handle_message en ce m cg = Some cg1" "handle_message en ce m' cg1 = Some cg2"
    and "ce_malloc ce (con_tbl cg1) \<noteq> 0"
  shows "\<exists>cs1 cs2. hl_abs (con_tbl cg1) cs1 \<and> map conn_key cs1 = map conn_key cs @ [(pid, rem_sock)] \<and>
    hl_abs (con_tbl cg2) cs2 \<and> map conn_key cs2 = map conn_key cs"
proof -
  from socks_establish_handed [OF assms(1)] assms(2) obtain sa where "m = add_msg pid rem_sock sa"
    by (auto split: if_splits)
  then have m: "keys_step m (map conn_key cs) = map conn_key cs @ [(pid, rem_sock)]"
    by (simp add: add_msg_def)
  from forward_loop_handed [of junk cli rem_sock pid ts] assms(3)
  have "m' = remove_msg junk pid rem_sock" by simp
  with filter_neq_id [OF assms(5)]
  have m': "keys_step m' (map conn_key cs @ [(pid, rem_sock)]) = map conn_key cs"
    by (simp add: remove_msg_def)
  from handle_message_step [OF assms(9,4,6-8)] m obtain cs1 where
    cs1: "hl_abs (con_tbl cg1) cs1" "map conn_key cs1 = map conn_key cs @ [(pid, rem_sock)]" by auto
  from handle_message_step [OF assms(10) cs1(1) assms(6,11,8)] m' cs1(2) obtain cs2 where
    "hl_abs (con_tbl cg2) cs2" "map conn_key cs2 = map conn_key cs" by auto
  with cs1 show ?thesis by blast
qed

theorem socks_session_restores_table_witness:
  "\<exists>cg1 cg2 cs1 cs2. handle_message engine_ref calls_ref (add_msg 42 9 (Sockaddr_in 0x01020304 80))
       conmgr_ref = Some cg1 \<and>
     handle_message engine_ref calls_ref
       (remove_msg (add_msg 42 9 (Sockaddr_in 0x01020304 80)) 42 9) cg1 = Some cg2 \<and>
     hl_abs (con_tbl cg1) cs1 \<and> map conn_key cs1 = [(42, 9)] \<and>
     hl_abs (con_tbl cg2) cs2 \<and> map conn_key cs2 = []"
proof -
  let ?m = "add_msg 42 9 (Sockaddr_in 0x01020304 80)"
  let ?m' = "remove_msg ?m 42 9"
  have ok: "message_ok ?m" "message_ok ?m'"
    by (simp_all add: message_ok_def add_msg_def remove_msg_def sockaddr_len_def printable_def
        sockaddr_fits_def)
  have abs0: "hl_abs (con_tbl conmgr_ref) []" using table_ref_abs by (simp add: conmgr_ref_def)
  from handle_message_steady [OF engine_ref_ok calls_ref_ok ok(1) abs0] obtain cg1 cs1 where
    cg1: "handle_message engine_ref calls_ref ?m conmgr_ref = Some cg1" "hl_abs (con_tbl cg1) cs1"
    by blast
  from handle_message_steady [OF engine_ref_ok calls_ref_ok ok(2) cg1(2)] obtain cg2 where
    cg2: "handle_message engine_ref calls_ref ?m' cg1 = Some cg2" by blast
  have mem: "ce_malloc calls_ref t \<noteq> 0" if "hl_abs t xs" for t xs
    using hl_abs_finite [OF that] by (simp add: calls_ref_def)
  have hand: "handed_over [E_send 8 [5, 0], E_send 8 [5, 0, 0, 1, 1, 2, 3, 4, 0, 80], E_conmgr ?m,
      E_thread 8 9 42] = ([?m], [(8, 9, 42)])" by simp
  have addr: "ce_addr_malloc calls_ref" by (simp add: calls_ref_def)
  have new: "(42, 9) \<notin> set (map conn_key [])" by simp
  from socks_session_restores_table [OF env_ref_run hand forward_loop_handed [of ?m 8 9 42 "[]"]
      abs0 new calls_ref_ok mem [OF abs0] addr cg1(1) cg2 mem [OF cg1(2)]]
  have "\<exists>cs1 cs2. hl_abs (con_tbl cg1) cs1 \<and> map conn_key cs1 = [(42, 9)] \<and>
      hl_abs (con_tbl cg2) cs2 \<and> map conn_key cs2 = []"
    by (simp only: list.map append_Nil)
  then obtain cs1 cs2 where "hl_abs (con_tbl cg1) cs1" "map conn_key cs1 = [(42, 9)]"
    "hl_abs (con_tbl cg2) cs2" "map conn_key cs2 = []" by (elim exE conjE) (rule that)
  then show ?thesis
    by (intro exI [where x = cg1] exI [where x = cg2] exI [where x = cs1] exI [where x = cs2] conjI)
      (simp_all only: cg1(1) cg2)
qed

section \<open>Return routability and the binding cache\<close>

text \<open>
  C2. Return routability works as a whole. A mobile node sends a home test and a care-of test request;
  the correspondent answers both. In between and afterwards the correspondent handles any other
  messages and timers. The node reads the two nonce indices and tokens from the answers, derives the
  binding key and signs a binding update with it; the kernel fills in the checksum. When the update
  arrives, less than the token lifetime after both answers, it is accepted: the cache then binds the
  home address to the care-of address, with the sequence number of the update, for at most 420
  seconds. The update must be fresh, the care-of address no home address known to the
  correspondent, the policy must agree and there must be memory for an entry.
\<close>

theorem genuine_update_accepted:
  assumes inv: "bc_inv {} s0" and hm: "\<forall>k d. MIPV6_DIGEST_LEN \<le> length (hmac k d)"
    and home: "cn_step (Ev_hoti en1 m1 l1 inb1 if1) s0 = Some s1" "bc_out s1 = bc_out s0 @ [Sent hot]"
    and run1: "run_ok evs1 s1" "cn_run evs1 s1 = Some s2"
    and co: "cn_step (Ev_coti en2 m2 l2 inb2 if2) s2 = Some s3" "bc_out s3 = bc_out s2 @ [Sent cot]"
    and run2: "run_ok evs2 s3" "cn_run evs2 s3 = Some s4"
    and src: "ab_src inb1 = ab_src inb" "ab_src inb2 = coa" "16 \<le> length m1" "16 \<le> length m2"
    and env: "env_ok en1" "env_ok en2" "env_ok en" "en_hmac en1 = hmac" "en_hmac en2 = hmac" "en_hmac en = hmac"
    and times: "\<forall>ev \<in> set (evs1 @ evs2). en_now (ev_env ev) \<le> en_now en"
      "nsecs (en_now en) < nsecs (en_now en1) + MAX_TOKEN_LIFETIME * TIME_SEC_NSEC"
      "nsecs (en_now en) < nsecs (en_now en2) + MAX_TOKEN_LIFETIME * TIME_SEC_NSEC"
    and key: "key = rr_mn_calc_Kbm (en_sha1 en) (test_token hot) (Some (test_token cot))"
    and send: "mh_send hmac True addrs (bu_header sq f1 f2 lft # [mh_create_opt_nonce_index (test_index hot) (test_index cot)] @
      [mh_create_opt_auth_data]) (Some key) oif = Some (Some pkt)"
    and hdr: "be16 f2 f1 AND IP6_MH_BU_HOME = 0" "lft \<noteq> 0"
    and addrs: "ab_bind_coa addrs = Some coa" "ab_dst addrs = ab_dst inb"
    and inb: "ab_remote_coa inb = Some coa" "coa \<noteq> ab_src inb" "in6_is_addr_routable_unicast (ab_src inb)"
      "in6_is_addr_routable_unicast coa"
    and circ: "bc_view s4 (ab_dst inb, coa) = None"
    and bu: "bu = with_checksum x y (mp_data pkt)"
    and new: "seq_ok sq (test_index hot) (bc_view s4 (ab_dst inb, ab_src inb))" and room: "en_tab en" "has_room en s4"
    and pol: "en_discard en (ab_src inb) coa (ab_dst inb) (bu[4 := 0, 5 := 0]) (int (length bu)) = Some st" "st < 128"
  shows "\<exists>s' e. cn_recv_bu en bu (int (length bu)) inb iif s4 = Some s' \<and> bc_inv {} s' \<and>
    bc_view s' (ab_dst inb, ab_src inb) = Some e \<and> bce_typ e = BCE_CACHED \<and> bce_coa e = coa \<and> bce_seqno e = sq \<and>
    bce_lifetime e \<le> Timespec 420 0"
proof -
  obtain bp k where a: "bc_inv {} s4" "bu_authentic en bu (int (length bu)) inb s4 bp coa k" "tsisset (bp_lft bp)" "bu_seqno bu = sq"
    "home_nonce bu k = test_index hot"
    using genuine_update_authentic [OF inv hm home run1 co run2 src env times key send hdr addrs inb circ bu] by blast
  have "bu_welcome en bu (int (length bu)) inb s4 coa k" using new room pol a(4,5) by (simp add: bu_welcome_def)
  then obtain s' e where "cn_recv_bu en bu (int (length bu)) inb iif s4 = Some s'" "bc_inv {} s'"
    "bc_view s' (ab_dst inb, ab_src inb) = Some e" "bound_to coa sq e"
    using cn_recv_bu_step [OF a(1) env(3) refl, of bu "int (length bu)" inb iif] a(2-4) by metis
  then show ?thesis by (auto simp: bound_to_def max_rr_binding_lifetime_ts_def)
qed

theorem genuine_update_accepted_witness:
  "\<exists>s1 s3 s' hot cot pkt e. cn_step (Ev_hoti cn_env_ref (replicate 16 0) 16 (ref_in ref_hoa None) 2) bc0 = Some s1 \<and>
     cn_step (Ev_coti cn_env_ref (replicate 16 0) 16 (ref_in ref_coa None) 2) s1 = Some s3 \<and>
     ref_update hot cot = Some (Some pkt) \<and>
     cn_recv_bu cn_env_ref (with_checksum 1 2 (mp_data pkt)) (int (length (mp_data pkt))) (ref_in ref_hoa (Some ref_coa)) 2 s3 = Some s' \<and>
     bc_view s' (ref_cn, ref_hoa) = Some e \<and> bce_coa e = ref_coa \<and> bce_seqno e = 7"
proof (rule ref_tests)
  fix s1 s3 hot cot
  assume t: "cn_step (Ev_hoti cn_env_ref (replicate 16 0) 16 (ref_in ref_hoa None) 2) bc0 = Some s1"
    "bc_out s1 = bc_out bc0 @ [Sent hot]" "cn_step (Ev_coti cn_env_ref (replicate 16 0) 16 (ref_in ref_coa None) 2) s1 = Some s3"
    "bc_out s3 = bc_out s1 @ [Sent cot]" "bc_ents s3 = Map.empty" "bc_view s3 = Map.empty"
  obtain pkt where pkt: "ref_update hot cot = Some (Some pkt)" using ref_update_sent by blast
  have dis: "en_discard cn_env_ref a b c d l = Some 0" "en_tab cn_env_ref" for a b c d l by (simp_all add: cn_env_ref_def)
  have nil: "run_ok [] s" for s by simp
  from genuine_update_accepted [OF bc0_inv ref_digest t(1,2) nil cn_run.simps(1) t(3,4) nil cn_run.simps(1) _ _ _ _
      cn_env_ref_ok cn_env_ref_ok cn_env_ref_ok refl refl refl _ _ _ refl pkt [unfolded ref_update_def] _ _ _ _ _ _ _ _ _ refl _
      dis(2) ref_room [OF t(5)] dis(1), where inb = "ref_in ref_hoa (Some ref_coa)" and x = 1 and y = 2 and iif = 2]
  obtain s' e where "cn_recv_bu cn_env_ref (with_checksum 1 2 (mp_data pkt)) (int (length (mp_data pkt)))
      (ref_in ref_hoa (Some ref_coa)) 2 s3 = Some s'" "bc_view s' (ref_cn, ref_hoa) = Some e" "bce_coa e = ref_coa" "bce_seqno e = 7"
    using t(6) ref_addrs by (auto simp: ref_in_def ref_out_def IP6_MH_BU_HOME_def be16_def seq_ok_def checksum_fields)
  then show ?thesis using t(1,3) pkt by blast
qed

text \<open>
  C3. Only an authentic binding update binds a home address. After any event, a binding that stands in
  the cache (an entry that is not merely a block on a nonce) was the same binding before, with the
  same addresses, lifetime, sequence number, nonces and flags; only its count of unreachable
  messages may have changed and it may have gone from cached to dying. Or the event is a binding
  update for this very pair of addresses that names nonces still valid, whose authorization
  data verifies under the key made of them, and whose sequence number is newer than the last one
  (or whose nonce is not the blocked one); the entry is then a cached binding to the care-of address
  that was authorized, with a lifetime of at most 420 seconds.
\<close>

theorem binding_needs_authentic_update:
  assumes inv: "bc_inv {} s" and ok: "ev_ok ev s" and run: "cn_step ev s = Some s'"
    and e: "bc_view s' k = Some e'" "bce_typ e' \<noteq> BCE_NONCE_BLOCK"
  shows "(\<exists>e. bc_view s k = Some e \<and> bce_typ e \<noteq> BCE_NONCE_BLOCK \<and>
       e' = e\<lparr>bce_unreach := bce_unreach e', bce_typ := bce_typ e'\<rparr> \<and>
       (bce_typ e' = bce_typ e \<or> bce_typ e = BCE_CACHED \<and> bce_typ e' = BCE_CACHE_DYING)) \<or>
    (\<exists>en bu len inb iif bp coa i. ev = Ev_bu en bu len inb iif \<and> k = (ab_dst inb, ab_src inb) \<and>
       bu_authentic en bu len inb s bp coa i \<and> seq_ok (bu_seqno bu) (home_nonce bu i) (bc_view s k) \<and>
       bce_typ e' = BCE_CACHED \<and> bce_coa e' = coa \<and> bce_seqno e' = bu_seqno bu \<and> bce_lifetime e' \<le> Timespec 420 0)"
proof (cases "no_new s s'")
  case True
  then have "\<exists>e. bc_view s k = Some e \<and> same_binding e e'" using e unfolding no_new_def by blast
  then show ?thesis unfolding same_binding_def by (rule disjI1)
next
  case False
  then obtain en bu len inb iif where ev: "ev = Ev_bu en bu len inb iif" using cn_step_inv [OF inv ok run] by blast
  have en: "env_ok en" and r: "cn_recv_bu en bu len inb iif s = Some s'" using ok run ev by simp_all
  let ?k = "(ab_dst inb, ab_src inb)"
  have "bc_view s' \<noteq> bc_view s" using False no_new_same by blast
  then obtain bp coa i where a: "bu_authentic en bu len inb s bp coa i" "seq_ok (bu_seqno bu) (home_nonce bu i) (bc_view s ?k)"
    "bc_step (bound_or_gone coa (bu_seqno bu)) ?k s s'"
    using cn_recv_bu_step [OF inv en refl, of bu len inb iif] r by auto
  show ?thesis
  proof (cases "bc_view s' k = bc_view s k")
    case True
    then have "bc_view s k = Some e'" using e(1) by (rule subst)
    then show ?thesis using same_binding_refl [OF e(2)] unfolding same_binding_def by blast
  next
    case ch: False
    then have "k = ?k" using a(3) unfolding bc_step_def by blast
    moreover from this have "bound_to coa (bu_seqno bu) e'" using a(3) ch e by (auto simp: bc_step_def bound_or_gone_def)
    ultimately show ?thesis
      using ev a(1,2) by (auto simp: bound_to_def max_rr_binding_lifetime_ts_def)
  qed
qed

theorem binding_needs_authentic_update_witness:
  "\<exists>s s' bu e bp i. cn_step (Ev_bu cn_env_ref bu (int (length bu)) (ref_in ref_hoa (Some ref_coa)) 2) s = Some s' \<and>
     bc_view s (ref_cn, ref_hoa) = None \<and> bc_view s' (ref_cn, ref_hoa) = Some e \<and>
     bu_authentic cn_env_ref bu (int (length bu)) (ref_in ref_hoa (Some ref_coa)) s bp (bce_coa e) i"
proof (rule ref_session)
  fix s s' bu e
  assume r: "bc_inv {} s" "bc_view s = Map.empty"
    "cn_recv_bu cn_env_ref bu (int (length bu)) (ref_in ref_hoa (Some ref_coa)) 2 s = Some s'"
    "bc_view s' (ref_cn, ref_hoa) = Some e" "bound_to ref_coa 7 e"
  let ?ev = "Ev_bu cn_env_ref bu (int (length bu)) (ref_in ref_hoa (Some ref_coa)) 2"
  have st: "ev_ok ?ev s" "cn_step ?ev s = Some s'" "bce_typ e \<noteq> BCE_NONCE_BLOCK"
    using cn_env_ref_ok r(3,5) by (simp_all add: bound_to_def)
  obtain bp i where "bu_authentic cn_env_ref bu (int (length bu)) (ref_in ref_hoa (Some ref_coa)) s bp (bce_coa e) i"
    using binding_needs_authentic_update [OF r(1) st(1,2) r(4) st(3)] r(2) by auto
  then show ?thesis using st(2) r(2,4) by (intro exI conjI) (assumption | simp)+
qed

end
